(* ===== verification/Prelude.thy ===== *)
theory Prelude
  imports Main "HOL-Library.Word" "HOL-Library.Multiset" "HOL-Library.Char_ord"
    "HOL-Library.List_Lexorder"
begin

unbundle bit_operations_syntax

text \<open>
  The vocabulary the components share: the machine integers of the C sources (an LP64
  system, so \<open>unsigned long\<close>, \<open>size_t\<close> and \<open>dev_t\<close> have 64 bits), memory as a list of
  \<open>char\<close> with bounds-checked reads, results that are either an error or a value, and the
  generic lemmas on lists, sums and words that the component proofs rewrite with.

  A \<open>char\<close> of HOL is one byte, so a \<open>string\<close> is both a C string without its final NUL
  and a raw buffer. A pointer into a buffer is an offset from the start of that buffer.
\<close>

section \<open>Types\<close>

type_synonym u8 = "8 word"
type_synonym u16 = "16 word"
type_synonym u32 = "32 word"
type_synonym u64 = "64 word"

text \<open>A buffer, and the result of a C function that may fail.\<close>

type_synonym mem = string

abbreviation NUL :: char where
  "NUL \<equiv> CHR 0x00"

named_theorems c_simps \<open>equations of the C library model, for evaluation\<close>
named_theorems inv_intros \<open>preservation of the invariants of the components\<close>

section \<open>Results\<close>

text \<open>Sequencing of results: the first error ends the computation, as an exit does.\<close>

fun bind_res :: "'e + 'a \<Rightarrow> ('a \<Rightarrow> 'e + 'b) \<Rightarrow> 'e + 'b" where
  "bind_res (Inl e) f = Inl e"
| "bind_res (Inr x) f = f x"

lemma bind_res_Inr_iff: "bind_res r f = Inr y \<longleftrightarrow> (\<exists>x. r = Inr x \<and> f x = Inr y)"
  by (cases r) auto

lemma bind_res_Inl_iff: "bind_res r f = Inl e \<longleftrightarrow> r = Inl e \<or> (\<exists>x. r = Inr x \<and> f x = Inl e)"
  by (cases r) auto

lemma bind_res_assoc: "bind_res (bind_res r f) g = bind_res r (\<lambda>x. bind_res (f x) g)"
  by (cases r) auto

text \<open>A loop over a list that threads a state and stops at the first error.\<close>

fun fold_res :: "('a \<Rightarrow> 's \<Rightarrow> 'e + 's) \<Rightarrow> 'a list \<Rightarrow> 's \<Rightarrow> 'e + 's" where
  "fold_res f [] s = Inr s"
| "fold_res f (x # xs) s = bind_res (f x s) (fold_res f xs)"

lemma fold_res_append: "fold_res f (xs @ ys) s = bind_res (fold_res f xs s) (fold_res f ys)"
proof (induction xs arbitrary: s)
  case (Cons x xs)
  then show ?case by (cases "f x s") simp_all
qed simp

lemma fold_res_invariant:
  assumes "\<And>x s s'. x \<in> set xs \<Longrightarrow> I s \<Longrightarrow> f x s = Inr s' \<Longrightarrow> I s'"
    and "I s" and "fold_res f xs s = Inr s'"
  shows "I s'"
  using assms
proof (induction xs arbitrary: s)
  case (Cons x xs)
  from Cons.prems(3) obtain t where t: "f x s = Inr t" and r: "fold_res f xs t = Inr s'"
    by (auto simp: bind_res_Inr_iff)
  have "I t" using Cons.prems(1) [of x s t] Cons.prems(2) t by simp
  then show ?case
    using r by (rule Cons.IH [rotated]) (use Cons.prems(1) in auto)
qed simp

section \<open>Memory\<close>

text \<open>
  \<open>rd m off n\<close> reads \<open>n\<close> bytes at offset \<open>off\<close>; \<open>None\<close> when one of them lies outside the
  buffer, which in C is an access outside the object. \<open>cstr m off\<close> reads the C string at
  \<open>off\<close>; \<open>None\<close> when the buffer has no NUL from there on.
\<close>

definition rd :: "mem \<Rightarrow> nat \<Rightarrow> nat \<Rightarrow> string option" where
  "rd m off n = (if off + n \<le> length m then Some (take n (drop off m)) else None)"

definition cstr :: "mem \<Rightarrow> nat \<Rightarrow> string option" where
  "cstr m off =
     (if NUL \<in> set (drop off m) then Some (takeWhile (\<lambda>c. c \<noteq> NUL) (drop off m)) else None)"

lemma rd_length: "rd m off n = Some s \<Longrightarrow> length s = n"
  by (auto simp: rd_def split: if_splits)

lemma rd_bound: "rd m off n = Some s \<Longrightarrow> off + n \<le> length m"
  by (auto simp: rd_def split: if_splits)

lemma rd_append_middle:
  "off = length a \<Longrightarrow> n = length b \<Longrightarrow> rd (a @ b @ c) off n = Some b"
  by (simp add: rd_def)

lemma rd_append_left: "off + n \<le> length a \<Longrightarrow> rd (a @ b) off n = rd a off n"
  by (simp add: rd_def)

lemma takeWhile_NUL: "NUL \<notin> set s \<Longrightarrow> takeWhile (\<lambda>c. c \<noteq> NUL) (s @ NUL # r) = s"
  by (induction s) auto

lemma cstr_append_middle:
  "off = length a \<Longrightarrow> NUL \<notin> set s \<Longrightarrow> cstr (a @ s @ NUL # c) off = Some s"
  by (simp add: cstr_def takeWhile_NUL)

lemma cstr_no_NUL: "cstr m off = Some s \<Longrightarrow> NUL \<notin> set s"
  by (auto simp: cstr_def dest: set_takeWhileD split: if_splits)

section \<open>Lists\<close>

lemma takeWhile_all_replicate [simp]:
  "P x \<Longrightarrow> takeWhile P (replicate n x @ ys) = replicate n x @ takeWhile P ys"
  by (induction n) auto

lemma dropWhile_hd_False: "xs \<noteq> [] \<Longrightarrow> \<not> P (hd xs) \<Longrightarrow> dropWhile P xs = xs"
  by (cases xs) auto

lemma drop_takeWhile: "drop (length (takeWhile P xs)) xs = dropWhile P xs"
  by (simp add: dropWhile_eq_drop)

section \<open>Numbers\<close>

text \<open>The distance to the next multiple of \<open>k\<close> shrinks when a counter goes up by one.\<close>

lemma pad_decreases:
  assumes "x mod k \<noteq> (0::nat)" and "0 < k"
  shows "(k - Suc x mod k) mod k < (k - x mod k) mod k"
proof -
  have "x mod k < k" using assms(2) by simp
  with assms(1) have "(k - x mod k) mod k = k - x mod k" by simp
  moreover have "(k - Suc x mod k) mod k < k - x mod k"
    using assms(1) \<open>x mod k < k\<close> by (auto simp: mod_Suc)
  ultimately show ?thesis by simp
qed

section \<open>Words\<close>

lemma unat_u64_lt: "unat (x :: u64) < 2 ^ 64"
  using unsigned_less [of x, where ?'a = nat] by simp

lemma unat_u32_lt: "unat (x :: u32) < 2 ^ 32"
  using unsigned_less [of x, where ?'a = nat] by simp

lemma word_and_not_mask:
  fixes x :: "'a::len word"
  shows "x AND NOT (mask n) = push_bit n (drop_bit n x)"
  by (rule bit_word_eqI) (auto simp: bit_simps)

lemma unat_and_not_3: "unat ((x :: u64) AND NOT 3) = unat x - unat x mod 4"
proof -
  have "x AND NOT 3 = x div 4 * 4"
    using word_and_not_mask [of x 2]
    by (simp add: mask_eq_exp_minus_1 push_bit_eq_mult drop_bit_eq_div)
  then have "unat (x AND NOT 3) = unat x div 4 * 4 mod 2 ^ 64"
    by (simp add: unat_word_ariths unat_div mod_simps)
  moreover have "unat x div 4 * 4 < 2 ^ 64"
    using unat_u64_lt [of x] by simp
  ultimately show ?thesis by (simp add: minus_mod_eq_div_mult)
qed

lemma unat_of_nat_u64: "n < 2 ^ 64 \<Longrightarrow> unat (of_nat n :: u64) = n"
  by (simp add: unsigned_of_nat take_bit_nat_eq_self)

lemma u64_eq_of_nat: "unat (w :: u64) = n \<Longrightarrow> w = of_nat n"
  by auto

lemma unat_of_nat_u32: "n < 2 ^ 32 \<Longrightarrow> unat (of_nat n :: u32) = n"
  by (simp add: unsigned_of_nat take_bit_nat_eq_self)

lemma u64_of_nat_less: "a < 2 ^ 64 \<Longrightarrow> b < 2 ^ 64 \<Longrightarrow> (of_nat a :: u64) < of_nat b \<longleftrightarrow> a < b"
  by (simp add: word_less_nat_alt unat_of_nat_u64)

lemma u64_and_not_3_of_nat: "n < 2 ^ 64 \<Longrightarrow> (of_nat n :: u64) AND NOT 3 = of_nat (n - n mod 4)"
  by (rule word_unat_eq_iff [THEN iffD2]) (simp only: unat_and_not_3 unat_of_nat_u64 less_imp_diff_less)

lemma u64_and_3: "(x :: u64) AND 3 = x mod 4"
  using take_bit_eq_mod [of 2 x] by (simp add: take_bit_eq_mask mask_eq_exp_minus_1)

lemma u64_mod_of_nat_eq_0:
  assumes "k < 2 ^ 64" and "0 < k" and "k dvd (2 ^ 64 :: nat)"
  shows "(of_nat n :: u64) mod of_nat k = 0 \<longleftrightarrow> n mod k = 0"
proof -
  have "unat ((of_nat n :: u64) mod of_nat k) = n mod 2 ^ 64 mod k"
    using assms(1) by (simp add: unat_mod unat_of_nat_u64 unsigned_of_nat take_bit_eq_mod)
  also have "\<dots> = n mod k" using assms(3) by (rule mod_mod_cancel)
  finally show ?thesis by (metis unat_eq_0)
qed

end
