(* ===== verification/TailList.thy ===== *)
theory TailList
  imports Prelude
begin

text \<open>
  The singly linked list of \<open>utils/initrd-common.c\<close> (\<open>struct list_tail\<close> with
  \<open>list_append\<close>, \<open>list_shift\<close> and \<open>list_free\<close>), on an explicit heap of nodes. The
  archive reader keeps its streams, its archives and their headers in such lists.

  The locale \<open>tail_list\<close> is the contract a client relies on: appending adds one element
  at the end, shifting drops the last element. The interpretation at the end shows that the
  pointer code keeps it, and the archive theories then work with plain lists.
\<close>

section \<open>Nodes, heap and the operations\<close>

record 'a list_tail =
  tl_next :: "nat option"
  tl_data :: "'a option"

type_synonym 'a node_heap = "nat \<rightharpoonup> 'a list_tail"

text \<open>The state the functions work on: the heap and the head pointer (\<open>None\<close> is NULL).\<close>

type_synonym 'a tl_state = "'a node_heap \<times> nat option"

text \<open>
  The loop \<open>while (l->next != NULL) l = l->next\<close>: the node it stops at and the node before
  it (the start when it does not move). \<open>None\<close> is a dangling pointer or a cyclic list.
\<close>

partial_function (option) walk_last ::
  "'a node_heap \<Rightarrow> nat \<Rightarrow> nat \<Rightarrow> (nat \<times> nat) option" where
  "walk_last h p l =
     (case h l of
        None \<Rightarrow> None
      | Some n \<Rightarrow> (case tl_next n of None \<Rightarrow> Some (p, l) | Some l' \<Rightarrow> walk_last h l l'))"

text \<open>
  \<open>list_append\<close>: \<open>e\<close> is what \<open>malloc\<close> returns for the node and \<open>d\<close> what \<open>calloc\<close> returns
  for the payload when \<open>size\<close> is positive. The result is the new state and the pointer to the
  new node, NULL when an allocation failed.
\<close>

definition list_append ::
  "'a tl_state \<Rightarrow> nat \<Rightarrow> nat option \<Rightarrow> 'a option \<Rightarrow> ('a tl_state \<times> nat option) option" where
  "list_append st sz e d =
     (case st of (h, head) \<Rightarrow>
      (case e of
         None \<Rightarrow> Some ((h, head), None)
       | Some a \<Rightarrow>
          if sz > 0 \<and> d = None then Some ((h(a := None), head), None)
          else
            let h1 = h(a \<mapsto> \<lparr>tl_next = None, tl_data = (if sz > 0 then d else None)\<rparr>) in
            (case head of
               None \<Rightarrow> Some ((h1, Some a), Some a)
             | Some f \<Rightarrow>
                (case walk_last h1 f f of
                   None \<Rightarrow> None
                 | Some (_, l) \<Rightarrow>
                    (case h1 l of
                       None \<Rightarrow> None
                     | Some n \<Rightarrow> Some ((h1(l \<mapsto> n\<lparr>tl_next := Some a\<rparr>), Some f), Some a))))))"

text \<open>\<open>list_shift\<close>: despite its name it frees the last element.\<close>

definition list_shift :: "'a tl_state \<Rightarrow> 'a tl_state option" where
  "list_shift st =
     (case st of (h, head) \<Rightarrow>
      (case head of
         None \<Rightarrow> Some (h, None)
       | Some f \<Rightarrow>
          (case walk_last h f f of
             None \<Rightarrow> None
           | Some (p, l) \<Rightarrow>
              if p = l then Some (h(l := None), None)
              else (case h p of
                      None \<Rightarrow> None
                    | Some n \<Rightarrow> Some ((h(l := None))(p \<mapsto> n\<lparr>tl_next := None\<rparr>), Some f)))))"

text \<open>\<open>list_free\<close>: every node of the list is freed, each one after its \<open>next\<close> was read.\<close>

partial_function (option) list_free :: "'a node_heap \<Rightarrow> nat option \<Rightarrow> 'a node_heap option" where
  "list_free h l =
     (case l of
        None \<Rightarrow> Some h
      | Some a \<Rightarrow> (case h a of None \<Rightarrow> None | Some n \<Rightarrow> list_free (h(a := None)) (tl_next n)))"

section \<open>Lists on the heap\<close>

text \<open>\<open>linked h p as\<close>: following \<open>next\<close> from \<open>p\<close> visits exactly the nodes \<open>as\<close> and ends at NULL.\<close>

fun linked :: "'a node_heap \<Rightarrow> nat option \<Rightarrow> nat list \<Rightarrow> bool" where
  "linked h p [] = (p = None)"
| "linked h p (a # as) = (p = Some a \<and> (\<exists>n. h a = Some n \<and> linked h (tl_next n) as))"

lemma linked_frame: "a \<notin> set as \<Longrightarrow> linked (h(a := v)) p as = linked h p as"
  by (induction as arbitrary: p) auto

lemma linked_fun_upd_frame: "linked h p as \<Longrightarrow> h a = None \<Longrightarrow> linked (h(a := v)) p as"
  by (induction as arbitrary: p) auto

lemma linked_dom: "linked h p as \<Longrightarrow> a \<in> set as \<Longrightarrow> h a \<noteq> None"
  by (induction as arbitrary: p) auto

lemma walk_last_linked:
  "linked h (Some a) (a # as) \<Longrightarrow>
     walk_last h p a = Some (if as = [] then p else last (butlast (a # as)), last (a # as))"
proof (induction as arbitrary: a p)
  case Nil
  then show ?case by (auto simp: walk_last.simps)
next
  case (Cons b as)
  then obtain n where n: "h a = Some n" "tl_next n = Some b" and l: "linked h (Some b) (b # as)"
    by auto
  show ?case
    using Cons.IH [OF l, of a] n by (subst walk_last.simps) simp
qed

lemma linked_snoc:
  assumes "linked h p (as @ [l])" and "distinct (as @ [l])" and "h l = Some n"
    and "h a = Some m" and "tl_next m = None" and "a \<notin> set (as @ [l])"
  shows "linked (h(l \<mapsto> n\<lparr>tl_next := Some a\<rparr>)) p (as @ [l, a])"
  using assms
proof (induction as arbitrary: p)
  case (Cons b as)
  then show ?case by (auto simp: linked_frame)
qed auto

lemma linked_cut:
  assumes "linked h p (as @ [l, a])" and "distinct (as @ [l, a])" and "h l = Some n"
  shows "linked ((h(a := None))(l \<mapsto> n\<lparr>tl_next := None\<rparr>)) p (as @ [l])"
  using assms
proof (induction as arbitrary: p)
  case (Cons b as)
  then show ?case by auto
qed auto

section \<open>What the operations do to the list\<close>

text \<open>\<open>holds st as vs\<close>: the state is the list of nodes \<open>as\<close>, which carry the payloads \<open>vs\<close>.\<close>

definition holds :: "'a tl_state \<Rightarrow> nat list \<Rightarrow> 'a option list \<Rightarrow> bool" where
  "holds st as vs \<longleftrightarrow>
     linked (fst st) (snd st) as \<and> distinct as \<and> map (\<lambda>a. map_option tl_data (fst st a)) as = map Some vs"

lemma list_append_holds:
  assumes "holds st as vs" and "fst st a = None" and "0 < sz"
  shows "\<exists>st'. list_append st sz (Some a) (Some d) = Some (st', Some a) \<and>
           holds st' (as @ [a]) (vs @ [Some d])"
proof -
  obtain h hp where st: "st = (h, hp)" by fastforce
  let ?n = "\<lparr>tl_next = None, tl_data = Some d\<rparr>"
  let ?h1 = "h(a \<mapsto> ?n)"
  from assms st have lk: "linked h hp as" and ds: "distinct as" and fr: "h a = None"
    and vs: "map (\<lambda>a. map_option tl_data (h a)) as = map Some vs"
    by (auto simp: holds_def)
  from fr lk have na: "a \<notin> set as" by (auto dest: linked_dom)
  have vs1: "map (\<lambda>a. map_option tl_data (?h1 a)) as = map Some vs"
  proof -
    have "map (\<lambda>x. map_option tl_data (?h1 x)) as = map (\<lambda>x. map_option tl_data (h x)) as"
      using na by auto
    then show ?thesis by (simp only: vs)
  qed
  show ?thesis
  proof (cases as rule: rev_cases)
    case Nil
    with lk vs show ?thesis
      using assms(3) st by (simp add: list_append_def holds_def Let_def)
  next
    case (snoc bs l)
    then obtain b cs where bcs: "as = b # cs" by (cases bs) auto
    with lk have hp: "hp = Some b" by simp
    have lk1: "linked ?h1 hp as" using lk fr by (rule linked_fun_upd_frame)
    then have wl: "\<exists>p. walk_last ?h1 b b = Some (p, l)"
      using walk_last_linked [of ?h1 b cs b] hp bcs snoc by (metis last_snoc)
    from lk1 snoc obtain n where n: "?h1 l = Some n"
      using linked_dom [of ?h1 hp as l] by auto
    have "linked (?h1(l \<mapsto> n\<lparr>tl_next := Some a\<rparr>)) hp (bs @ [l, a])"
      using lk1 ds n na snoc by (intro linked_snoc) auto
    moreover have "map (\<lambda>x. map_option tl_data ((?h1(l \<mapsto> n\<lparr>tl_next := Some a\<rparr>)) x)) (as @ [a])
        = map Some (vs @ [Some d])"
    proof -
      have "map (\<lambda>x. map_option tl_data ((?h1(l \<mapsto> n\<lparr>tl_next := Some a\<rparr>)) x)) (as @ [a])
          = map (\<lambda>x. map_option tl_data (?h1 x)) (as @ [a])"
        using n by (auto simp: fun_upd_def)
      also have "\<dots> = map Some (vs @ [Some d])"
        using vs1 by simp
      finally show ?thesis .
    qed
    moreover have "distinct (as @ [a])" using ds na by simp
    ultimately have "holds (?h1(l \<mapsto> n\<lparr>tl_next := Some a\<rparr>), hp) (as @ [a]) (vs @ [Some d])"
      unfolding holds_def snoc by simp
    moreover have "list_append st sz (Some a) (Some d)
        = Some ((?h1(l \<mapsto> n\<lparr>tl_next := Some a\<rparr>), hp), Some a)"
      using wl n assms(3) unfolding st hp by (auto simp: list_append_def)
    ultimately show ?thesis by blast
  qed
qed

lemma list_shift_holds:
  assumes "holds st as vs"
  shows "\<exists>st'. list_shift st = Some st' \<and> holds st' (butlast as) (butlast vs) \<and>
           (as \<noteq> [] \<longrightarrow> fst st' (last as) = None)"
proof -
  obtain h hp where st: "st = (h, hp)" by fastforce
  from assms st have lk: "linked h hp as" and ds: "distinct as"
    and vs: "map (\<lambda>a. map_option tl_data (h a)) as = map Some vs"
    by (auto simp: holds_def)
  show ?thesis
  proof (cases as rule: rev_cases)
    case Nil
    with lk vs st show ?thesis by (simp add: list_shift_def holds_def)
  next
    case (snoc bs l)
    note bsl = this
    show ?thesis
    proof (cases bs rule: rev_cases)
      case Nil
      with bsl lk vs st show ?thesis
        by (auto simp: list_shift_def holds_def walk_last.simps)
    next
      case (snoc cs k)
      with bsl have as: "as = cs @ [k, l]" by simp
      then obtain b ds' where bds: "as = b # ds'" "ds' \<noteq> []"
        by (cases cs) auto
      have hp: "hp = Some b" using lk bds by simp
      have wl: "walk_last h b b = Some (k, l)"
        using walk_last_linked [of h b ds' b] lk hp bds as
        by (metis butlast_snoc bsl last_snoc snoc)
      obtain n where n: "h k = Some n" using lk as linked_dom [of h hp as k] by auto
      have "linked ((h(l := None))(k \<mapsto> n\<lparr>tl_next := None\<rparr>)) hp (cs @ [k])"
        using lk ds n as by (intro linked_cut) auto
      moreover have vs2: "map (\<lambda>x. map_option tl_data (((h(l := None))(k \<mapsto> n\<lparr>tl_next := None\<rparr>)) x)) (cs @ [k])
          = map Some (butlast vs)"
      proof -
        have "map (\<lambda>x. map_option tl_data (((h(l := None))(k \<mapsto> n\<lparr>tl_next := None\<rparr>)) x)) (cs @ [k])
            = map (\<lambda>x. map_option tl_data (h x)) (cs @ [k])"
          using n ds as by auto
        also have "\<dots> = map Some (butlast vs)"
          using arg_cong [OF vs, of butlast] as by (simp add: map_butlast butlast_append)
        finally show ?thesis .
      qed
      moreover have "list_shift st = Some ((h(l := None))(k \<mapsto> n\<lparr>tl_next := None\<rparr>), hp)"
        using wl n ds unfolding st hp as by (simp add: list_shift_def)
      moreover have "((h(l := None))(k \<mapsto> n\<lparr>tl_next := None\<rparr>)) l = None" and "distinct (cs @ [k])"
        using ds as by auto
      ultimately show ?thesis
        unfolding holds_def as by (simp add: butlast_append)
    qed
  qed
qed

lemma list_free_linked:
  assumes "linked h p as" and "distinct as"
  shows "list_free h p = Some (h |` (- set as))"
  using assms
proof (induction as arbitrary: h p)
  case Nil
  then show ?case by (simp add: list_free.simps)
next
  case (Cons a as)
  then obtain n where n: "h a = Some n" and l: "linked h (tl_next n) as" and p: "p = Some a"
    by auto
  have "linked (h(a := None)) (tl_next n) as"
    using l Cons.prems(2) by (simp add: linked_frame)
  then have "list_free (h(a := None)) (tl_next n) = Some ((h(a := None)) |` (- set as))"
    by (rule Cons.IH) (use Cons.prems(2) in simp)
  then show ?case
    using n p by (subst list_free.simps) (auto simp: restrict_map_def fun_eq_iff)
qed

section \<open>The contract of the list\<close>

locale tail_list =
  fixes rep :: "'s \<Rightarrow> 'v list \<Rightarrow> bool"
    and fresh :: "nat \<Rightarrow> 's \<Rightarrow> bool"
    and push :: "nat \<Rightarrow> 'v \<Rightarrow> 's \<Rightarrow> 's option"
    and pop :: "'s \<Rightarrow> 's option"
  assumes push_rep: "rep s vs \<Longrightarrow> fresh a s \<Longrightarrow> \<exists>s'. push a v s = Some s' \<and> rep s' (vs @ [v])"
    and pop_rep: "rep s vs \<Longrightarrow> \<exists>s'. pop s = Some s' \<and> rep s' (butlast vs)"
begin

lemma push_pop_rep:
  assumes "rep s vs" and "fresh a s"
  shows "\<exists>s' s''. push a v s = Some s' \<and> pop s' = Some s'' \<and> rep s'' vs"
proof -
  from push_rep [OF assms] obtain s' where s': "push a v s = Some s'" "rep s' (vs @ [v])"
    by blast
  from pop_rep [OF s'(2)] obtain s'' where "pop s' = Some s''" "rep s'' vs"
    by auto
  with s' show ?thesis by blast
qed

lemma pop_until_empty:
  "rep s vs \<Longrightarrow> \<exists>s'. ((\<lambda>r. Option.bind r pop) ^^ length vs) (Some s) = Some s' \<and> rep s' []"
proof (induction vs arbitrary: s rule: rev_induct)
  case (snoc v vs)
  from pop_rep [OF snoc.prems] obtain t where t: "pop s = Some t" "rep t vs"
    by auto
  from snoc.IH [OF t(2)] t(1) show ?case
    by (auto simp: funpow_Suc_right simp del: funpow.simps(2))
qed simp

end

text \<open>The pointer code, as the archive code calls it: one allocation per element, \<open>size\<close> positive.\<close>

definition tl_rep :: "'a tl_state \<Rightarrow> 'a list \<Rightarrow> bool" where
  "tl_rep st vs \<longleftrightarrow> (\<exists>as. holds st as (map Some vs))"

definition tl_fresh :: "nat \<Rightarrow> 'a tl_state \<Rightarrow> bool" where
  "tl_fresh a st \<longleftrightarrow> fst st a = None"

definition tl_push :: "nat \<Rightarrow> 'a \<Rightarrow> 'a tl_state \<Rightarrow> 'a tl_state option" where
  "tl_push a d st = map_option fst (list_append st 1 (Some a) (Some d))"

interpretation heap_list: tail_list tl_rep tl_fresh tl_push list_shift
proof unfold_locales
  fix s :: "'a tl_state" and vs :: "'a list" and a v
  assume "tl_rep s vs" and "tl_fresh a s"
  then obtain as where "holds s as (map Some vs)" and "fst s a = None"
    by (auto simp: tl_rep_def tl_fresh_def)
  from list_append_holds [OF this, of 1 v]
  obtain s' where "list_append s 1 (Some a) (Some v) = Some (s', Some a)"
    and "holds s' (as @ [a]) (map Some (vs @ [v]))"
    by auto
  then show "\<exists>s'. tl_push a v s = Some s' \<and> tl_rep s' (vs @ [v])"
    by (auto simp: tl_push_def tl_rep_def)
next
  fix s :: "'a tl_state" and vs :: "'a list"
  assume "tl_rep s vs"
  then obtain as where "holds s as (map Some vs)" by (auto simp: tl_rep_def)
  from list_shift_holds [OF this]
  show "\<exists>s'. list_shift s = Some s' \<and> tl_rep s' (butlast vs)"
    by (auto simp: tl_rep_def map_butlast [symmetric])
qed

text \<open>
  C26: the pointer code is a list. On a well-formed list \<open>list_append\<close> of a fresh node adds its
  payload at the end and returns the node; \<open>list_shift\<close> then frees exactly that node and
  restores the old list; and \<open>list_free\<close> instead returns, with all nodes of the list freed and no other.
\<close>

theorem list_tail_append_shift_free:
  assumes "holds st as vs" and "fst st a = None" and "0 < sz"
  shows "\<exists>st1. list_append st sz (Some a) (Some d) = Some (st1, Some a) \<and>
           holds st1 (as @ [a]) (vs @ [Some d]) \<and>
           (\<exists>st2. list_shift st1 = Some st2 \<and> holds st2 as vs \<and> fst st2 a = None) \<and>
           list_free (fst st1) (snd st1) = Some (fst st1 |` (- set (as @ [a])))"
proof -
  from list_append_holds [OF assms] obtain st1
    where st1: "list_append st sz (Some a) (Some d) = Some (st1, Some a)"
      "holds st1 (as @ [a]) (vs @ [Some d])" by blast
  have "list_free (fst st1) (snd st1) = Some (fst st1 |` (- set (as @ [a])))"
    using st1(2) by (intro list_free_linked) (simp_all add: holds_def)
  with st1 list_shift_holds [OF st1(2)] show ?thesis by simp
qed

theorem list_tail_append_shift_free_witness:
  "\<exists>st1. list_append (Map.empty, None) 8 (Some 3) (Some CHR ''x'') = Some (st1, Some 3) \<and>
     holds st1 ([] @ [3]) ([] @ [Some CHR ''x'']) \<and>
     (\<exists>st2. list_shift st1 = Some st2 \<and> holds st2 [] [] \<and> fst st2 3 = None) \<and>
     list_free (fst st1) (snd st1) = Some (fst st1 |` (- set ([] @ [3])))"
  by (rule list_tail_append_shift_free) (simp_all add: holds_def)

end
