(* ===== verification/CLib.thy ===== *)
theory CLib
  imports Prelude
begin

text \<open>
  The parts of the C library whose exact behaviour the sources depend on: character
  classes in the C locale, \<open>strtoul\<close> with its white space, sign and prefix rules, the
  \<open>printf\<close> conversions for hexadecimal and decimal numbers, and the splitting functions
  on strings. The lemmas show that what \<open>printf\<close> writes \<open>strtoul\<close> reads back.
\<close>

section \<open>Character classes\<close>

definition isspace :: "char \<Rightarrow> bool" where
  "isspace c \<longleftrightarrow> c \<in> set [CHR '' '', CHR 0x09, CHR 0x0A, CHR 0x0B, CHR 0x0C, CHR 0x0D]"

definition isblank :: "char \<Rightarrow> bool" where
  "isblank c \<longleftrightarrow> c = CHR '' '' \<or> c = CHR 0x09"

definition isdigit :: "char \<Rightarrow> bool" where
  "isdigit c \<longleftrightarrow> 48 \<le> (of_char c :: nat) \<and> (of_char c :: nat) \<le> 57"

definition isalpha :: "char \<Rightarrow> bool" where
  "isalpha c \<longleftrightarrow>
     65 \<le> (of_char c :: nat) \<and> (of_char c :: nat) \<le> 90 \<or>
     97 \<le> (of_char c :: nat) \<and> (of_char c :: nat) \<le> 122"

definition isalnum :: "char \<Rightarrow> bool" where
  "isalnum c \<longleftrightarrow> isdigit c \<or> isalpha c"

text \<open>The value of a digit in any base up to 36; \<open>None\<close> for other characters.\<close>

definition digit_val :: "char \<Rightarrow> nat option" where
  "digit_val c =
     (let n = of_char c in
      if 48 \<le> n \<and> n \<le> 57 then Some (n - 48)
      else if 65 \<le> n \<and> n \<le> 90 then Some (n - 55)
      else if 97 \<le> n \<and> n \<le> 122 then Some (n - 87)
      else None)"

definition is_base_digit :: "nat \<Rightarrow> char \<Rightarrow> bool" where
  "is_base_digit b c = (case digit_val c of None \<Rightarrow> False | Some d \<Rightarrow> d < b)"

definition base_val :: "nat \<Rightarrow> string \<Rightarrow> nat" where
  "base_val b s = foldl (\<lambda>n c. n * b + (case digit_val c of None \<Rightarrow> 0 | Some d \<Rightarrow> d)) 0 s"

section \<open>strtoul\<close>

text \<open>
  The result is the value, the string from the end pointer on, and whether \<open>errno\<close> is set
  to \<open>ERANGE\<close>. A minus sign negates modulo \<open>2 ^ 64\<close>; a value that does not fit gives the
  largest number. With no digits the value is 0 and the end pointer is the start.
\<close>

definition strip_sign :: "string \<Rightarrow> bool \<times> string" where
  "strip_sign s =
     (case s of
        [] \<Rightarrow> (False, [])
      | c # r \<Rightarrow> if c = CHR ''-'' then (True, r) else if c = CHR ''+'' then (False, r) else (False, s))"

definition has_hex_prefix :: "string \<Rightarrow> bool" where
  "has_hex_prefix s =
     (case s of
        a # b # c # _ \<Rightarrow> a = CHR ''0'' \<and> (b = CHR ''x'' \<or> b = CHR ''X'') \<and> is_base_digit 16 c
      | _ \<Rightarrow> False)"

definition strip_prefix :: "nat \<Rightarrow> string \<Rightarrow> nat \<times> string" where
  "strip_prefix b s =
     (if (b = 0 \<or> b = 16) \<and> has_hex_prefix s then (16, drop 2 s)
      else if b = 0 then (if s \<noteq> [] \<and> hd s = CHR ''0'' then 8 else 10, s)
      else (b, s))"

definition strtoul :: "string \<Rightarrow> nat \<Rightarrow> u64 \<times> string \<times> bool" where
  "strtoul s base =
     (let (neg, s2) = strip_sign (dropWhile isspace s);
          (b, s3) = strip_prefix base s2;
          ds = takeWhile (is_base_digit b) s3;
          n = base_val b ds
      in if ds = [] then (0, s, False)
         else if 2 ^ 64 \<le> n then (- 1, drop (length ds) s3, True)
         else (if neg then - of_nat n else of_nat n, drop (length ds) s3, False))"

abbreviation strtoul_val :: "string \<Rightarrow> nat \<Rightarrow> u64" where
  "strtoul_val s base \<equiv> fst (strtoul s base)"

section \<open>printf conversions\<close>

definition hexdig :: "nat \<Rightarrow> char" where
  "hexdig d = char_of (if d < 10 then 48 + d else 55 + d)"

fun hex_digits :: "nat \<Rightarrow> string" where
  "hex_digits n = (if n < 16 then [hexdig n] else hex_digits (n div 16) @ [hexdig (n mod 16)])"

declare hex_digits.simps [simp del]

fun dec_digits :: "nat \<Rightarrow> string" where
  "dec_digits n = (if n < 10 then [hexdig n] else dec_digits (n div 10) @ [hexdig (n mod 10)])"

declare dec_digits.simps [simp del]

definition pad_zero :: "nat \<Rightarrow> string \<Rightarrow> string" where
  "pad_zero w s = replicate (w - length s) (CHR ''0'') @ s"

text \<open>\<open>%08lX\<close> of an \<open>unsigned long\<close> and \<open>%08X\<close> of an \<open>unsigned int\<close>.\<close>

definition fmt_08lX :: "u64 \<Rightarrow> string" where
  "fmt_08lX w = pad_zero 8 (hex_digits (unat w))"

definition fmt_08X :: "u32 \<Rightarrow> string" where
  "fmt_08X w = pad_zero 8 (hex_digits (unat w))"

section \<open>Splitting strings\<close>

text \<open>The pieces of a string between the occurrences of a separator (as \<open>strsep\<close> gives them).\<close>

fun split_on :: "char \<Rightarrow> string \<Rightarrow> string list" where
  "split_on d [] = [[]]"
| "split_on d (c # cs) =
     (if c = d then [] # split_on d cs
      else case split_on d cs of [] \<Rightarrow> [[c]] | p # ps \<Rightarrow> (c # p) # ps)"

text \<open>The pieces between runs of delimiters, empty ones left out (as \<open>strtok_r\<close> gives them).\<close>

fun strtok_all :: "(char \<Rightarrow> bool) \<Rightarrow> string \<Rightarrow> string \<Rightarrow> string list" where
  "strtok_all d cur [] = (if cur = [] then [] else [rev cur])"
| "strtok_all d cur (c # cs) =
     (if d c then (if cur = [] then strtok_all d [] cs else rev cur # strtok_all d [] cs)
      else strtok_all d (c # cur) cs)"

definition starts_with :: "string \<Rightarrow> string \<Rightarrow> bool" where
  "starts_with p s \<longleftrightarrow> take (length p) s = p"

text \<open>\<open>strrchr(s, c)\<close>: the part before the last \<open>c\<close> and the part after it.\<close>

fun split_last :: "char \<Rightarrow> string \<Rightarrow> (string \<times> string) option" where
  "split_last d [] = None"
| "split_last d (c # cs) =
     (case split_last d cs of
        Some (a, b) \<Rightarrow> Some (c # a, b)
      | None \<Rightarrow> if c = d then Some ([], cs) else None)"

text \<open>\<open>strchr(s, c)\<close>: the part before the first \<open>c\<close> and the part after it.\<close>

definition split_first :: "char \<Rightarrow> string \<Rightarrow> (string \<times> string) option" where
  "split_first d s =
     (if d \<in> set s then Some (takeWhile (\<lambda>c. c \<noteq> d) s, tl (dropWhile (\<lambda>c. c \<noteq> d) s)) else None)"

text \<open>\<open>strstr(s, p)\<close>: the part before the first occurrence of \<open>p\<close> and the part behind it.\<close>

fun strstr :: "string \<Rightarrow> string \<Rightarrow> (string \<times> string) option" where
  "strstr p [] = (if p = [] then Some ([], []) else None)"
| "strstr p (c # cs) =
     (if starts_with p (c # cs) then Some ([], drop (length p) (c # cs))
      else map_option (\<lambda>(a, b). (c # a, b)) (strstr p cs))"

text \<open>The loops that cut off white space at the end of a string.\<close>

definition rtrim :: "string \<Rightarrow> string" where
  "rtrim s = rev (dropWhile isspace (rev s))"

section \<open>Reading back what printf wrote\<close>

lemma digit_val_hexdig: "d < 16 \<Longrightarrow> digit_val (hexdig d) = Some d"
  by (auto simp: digit_val_def hexdig_def Let_def)

lemma is_base_digit_hexdig: "d < 16 \<Longrightarrow> d < b \<Longrightarrow> is_base_digit b (hexdig d)"
  by (simp add: is_base_digit_def digit_val_hexdig)

lemma base_digit_not_space: "is_base_digit b c \<Longrightarrow> \<not> isspace c"
  by (auto simp: is_base_digit_def digit_val_def isspace_def)

lemma base_digit_not_sign: "is_base_digit b c \<Longrightarrow> c \<noteq> CHR ''-'' \<and> c \<noteq> CHR ''+'' \<and> c \<noteq> NUL"
  by (auto simp: is_base_digit_def digit_val_def)

lemma hex_digit_not_x: "is_base_digit 16 c \<Longrightarrow> c \<noteq> CHR ''x'' \<and> c \<noteq> CHR ''X''"
  by (auto simp: is_base_digit_def digit_val_def)

lemma base_val_append: "base_val b (s @ [c]) = base_val b s * b + (case digit_val c of None \<Rightarrow> 0 | Some d \<Rightarrow> d)"
  by (simp add: base_val_def)

lemma base_val_zeros: "base_val b (replicate n (CHR ''0'') @ s) = base_val b s"
  by (induction n) (simp_all add: base_val_def digit_val_def)

lemma hex_digits_all: "list_all (is_base_digit 16) (hex_digits n)"
  by (induction n rule: hex_digits.induct)
    (subst hex_digits.simps, auto simp: is_base_digit_hexdig)

lemma hex_digits_val: "base_val 16 (hex_digits n) = n"
proof (induction n rule: hex_digits.induct)
  case (1 n)
  show ?case
  proof (cases "n < 16")
    case True
    then show ?thesis
      by (simp add: hex_digits.simps [of n] base_val_def digit_val_hexdig)
  next
    case False
    with 1 show ?thesis
      by (simp add: hex_digits.simps [of n] base_val_append digit_val_hexdig)
  qed
qed

lemma hex_digits_length: "n < 16 ^ k \<Longrightarrow> 0 < k \<Longrightarrow> length (hex_digits n) \<le> k"
proof (induction k arbitrary: n)
  case (Suc k)
  show ?case
  proof (cases "n < 16")
    case False
    with Suc.prems have "n div 16 < 16 ^ k" and "0 < k"
      by (auto simp: less_mult_imp_div_less mult.commute intro: Nat.gr0I)
    with Suc.IH [of "n div 16"] False show ?thesis
      by (simp add: hex_digits.simps [of n])
  qed (simp add: hex_digits.simps)
qed simp

lemma hex_digits_nonempty: "hex_digits n \<noteq> []"
  by (subst hex_digits.simps) simp

lemma strtoul_hex:
  assumes "list_all (is_base_digit 16) ds" and "ds \<noteq> []" and "base_val 16 ds < 2 ^ 64"
  shows "strtoul (ds @ [NUL]) 16 = (of_nat (base_val 16 ds), [NUL], False)"
proof -
  from assms obtain c cs where ds: "ds = c # cs" and c: "is_base_digit 16 c"
    by (cases ds) auto
  have "dropWhile isspace (ds @ [NUL]) = ds @ [NUL]"
    using c by (simp add: ds base_digit_not_space)
  moreover have "strip_sign (ds @ [NUL]) = (False, ds @ [NUL])"
    using base_digit_not_sign [OF c] by (simp add: ds strip_sign_def)
  moreover have "\<not> has_hex_prefix (ds @ [NUL])"
    using assms(1) by (cases cs) (auto simp: ds has_hex_prefix_def dest: hex_digit_not_x split: list.splits)
  then have "strip_prefix 16 (ds @ [NUL]) = (16, ds @ [NUL])"
    by (simp add: strip_prefix_def)
  moreover have "takeWhile (is_base_digit 16) (ds @ [NUL]) = ds"
    using assms(1) by (simp add: list_all_iff is_base_digit_def digit_val_def takeWhile_append)
  ultimately show ?thesis
    using assms(2,3) by (simp add: strtoul_def)
qed

lemma pad_zero_hex:
  assumes "n < 2 ^ 32"
  shows "length (pad_zero 8 (hex_digits n)) = 8"
    and "strtoul (pad_zero 8 (hex_digits n) @ [NUL]) 16 = (of_nat n, [NUL], False)"
proof -
  have "n < 16 ^ 8" using assms by simp
  then have "length (hex_digits n) \<le> 8" by (rule hex_digits_length) simp
  then show "length (pad_zero 8 (hex_digits n)) = 8" by (simp add: pad_zero_def)
  have "list_all (is_base_digit 16) (pad_zero 8 (hex_digits n))"
    using hex_digits_all [of n]
    by (auto simp: pad_zero_def list_all_iff is_base_digit_def digit_val_def)
  moreover have "base_val 16 (pad_zero 8 (hex_digits n)) = n"
    by (simp add: pad_zero_def base_val_zeros hex_digits_val)
  ultimately show "strtoul (pad_zero 8 (hex_digits n) @ [NUL]) 16 = (of_nat n, [NUL], False)"
    using strtoul_hex [of "pad_zero 8 (hex_digits n)"] assms
    by (simp add: pad_zero_def hex_digits_nonempty)
qed

lemma fmt_08lX_read:
  assumes "unat w < 2 ^ 32"
  shows "length (fmt_08lX w) = 8" and "strtoul_val (fmt_08lX w @ [NUL]) 16 = w"
  using pad_zero_hex [OF assms] by (simp_all add: fmt_08lX_def)

lemma fmt_08X_read:
  shows "length (fmt_08X w) = 8" and "strtoul_val (fmt_08X w @ [NUL]) 16 = ucast w"
  using pad_zero_hex [of "unat w"] unat_u32_lt [of w]
  by (simp_all add: fmt_08X_def of_nat_unat)

end
