(* ===== verification/Cpio.thy ===== *)
theory Cpio
  imports CLib
begin

unbundle bit_operations_syntax

text \<open>
  The cpio reader and writer of \<open>utils/initrd-cpio.c\<close>. A header is the record
  \<open>cpio_header\<close>; its pointers \<open>h_name\<close> and \<open>h_body\<close> are 64-bit offsets from the start of the
  archive (\<open>a->raw\<close>), computed with the wrap-around of the pointer arithmetic. Calls of
  \<open>errx\<close> are values of \<open>cpio_error\<close>; \<open>Oob\<close> is an access outside the mapped memory.
  The reader's loop is a \<open>partial_function\<close>, because it need not end: \<open>None\<close> is a run
  that never returns. Memory allocation is assumed to succeed.
\<close>

section \<open>Data\<close>

record cpio_header =
  h_ino :: u64
  h_major :: u64
  h_minor :: u64
  h_rmajor :: u64
  h_rminor :: u64
  h_nlink :: u64
  h_mode :: u32
  h_mtime :: u64
  h_body_len :: u64
  h_name_len :: u64
  h_uid :: u32
  h_gid :: u32
  h_rdev :: u32
  h_name :: u64
  h_body :: u64

datatype cpio_error =
    ArchiveLessThanHeader
  | IncorrectMethod
  | NoMagic
  | HeaderExceeds
  | InvalidNameLength
  | EntryExceeds
  | Oob

definition CPIO_HEADER_SIZE :: nat where "CPIO_HEADER_SIZE = 110"
definition CPIO_TRAILER :: string where "CPIO_TRAILER = ''TRAILER!!!''"
definition CPIO_FORMAT_NEWASCII :: string where "CPIO_FORMAT_NEWASCII = ''070701''"
definition CPIO_FORMAT_OLDASCII :: string where "CPIO_FORMAT_OLDASCII = ''070707''"
definition CPIO_FORMAT_LENGTH :: nat where "CPIO_FORMAT_LENGTH = 6"
definition CPIO_HDR_FIELD_SIZE :: nat where "CPIO_HDR_FIELD_SIZE = 8"
definition CPIO_HDR_N_FIELDS :: nat where "CPIO_HDR_N_FIELDS = 13"

lemmas cpio_consts =
  CPIO_HEADER_SIZE_def CPIO_TRAILER_def CPIO_FORMAT_NEWASCII_def CPIO_FORMAT_OLDASCII_def
  CPIO_FORMAT_LENGTH_def CPIO_HDR_FIELD_SIZE_def CPIO_HDR_N_FIELDS_def

text \<open>The macros \<open>MKDEV\<close>, \<open>MAJOR\<close>, \<open>MINOR\<close> and \<open>N_ALIGN\<close>.\<close>

definition MKDEV :: "u64 \<Rightarrow> u64 \<Rightarrow> u64" where
  "MKDEV ma mi = push_bit 20 ma OR mi"

definition MAJOR :: "u64 \<Rightarrow> u32" where
  "MAJOR dev = ucast (drop_bit 20 dev)"

definition MINOR :: "u64 \<Rightarrow> u32" where
  "MINOR dev = ucast (dev AND mask 20)"

definition N_ALIGN :: "u64 \<Rightarrow> u64" where
  "N_ALIGN len = ((len + 1) AND NOT 3) + 2"

definition new_encode_dev :: "u64 \<Rightarrow> u32" where
  "new_encode_dev dev =
     (let v = 0xff; ma = MAJOR dev; mi = MINOR dev
      in (mi AND 0xff) OR push_bit 8 ma OR push_bit 12 (mi AND NOT v))"

section \<open>Reading\<close>

text \<open>Field \<open>i\<close> of the header at offset \<open>s\<close>: eight bytes and a NUL, read as hexadecimal.\<close>

definition hdr_field :: "mem \<Rightarrow> nat \<Rightarrow> nat \<Rightarrow> u64" where
  "hdr_field raw s i =
     strtoul_val
       (take CPIO_HDR_FIELD_SIZE (drop (s + CPIO_FORMAT_LENGTH + i * CPIO_HDR_FIELD_SIZE) raw) @ [NUL])
       16"

definition parse_header :: "mem \<Rightarrow> u64 \<Rightarrow> cpio_error + cpio_header" where
  "parse_header raw s =
     (if unat s + CPIO_FORMAT_LENGTH + CPIO_HDR_N_FIELDS * CPIO_HDR_FIELD_SIZE > length raw then Inl Oob
      else
        let parsed = hdr_field raw (unat s);
            p = s + of_nat (CPIO_FORMAT_LENGTH + CPIO_HDR_N_FIELDS * CPIO_HDR_FIELD_SIZE)
        in Inr \<lparr>h_ino = parsed 0, h_major = parsed 7, h_minor = parsed 8, h_rmajor = parsed 9,
                h_rminor = parsed 10, h_nlink = parsed 4, h_mode = ucast (parsed 1),
                h_mtime = parsed 5, h_body_len = parsed 6, h_name_len = parsed 11,
                h_uid = ucast (parsed 2), h_gid = ucast (parsed 3),
                h_rdev = new_encode_dev (MKDEV (parsed 9) (parsed 10)),
                h_name = p, h_body = p + N_ALIGN (parsed 11)\<rparr>)"

text \<open>\<open>memcmp\<close> of \<open>length p\<close> bytes at \<open>off\<close> with \<open>p\<close>: are they equal?\<close>

definition memcmp_at :: "mem \<Rightarrow> u64 \<Rightarrow> string \<Rightarrow> cpio_error + bool" where
  "memcmp_at raw off p =
     (case rd raw (unat off) (length p) of None \<Rightarrow> Inl Oob | Some s \<Rightarrow> Inr (s = p))"

text \<open>The loop \<open>while (offset % 512) offset++\<close>.\<close>

lemma pad512_decreases:
  assumes "(x :: u64) mod 512 \<noteq> 0"
  shows "(512 - unat (x + 1) mod 512) mod 512 < (512 - unat x mod 512) mod 512"
proof -
  from assms have "unat x mod 512 \<noteq> 0"
    by (auto simp: unat_mod word_unat_eq_iff)
  moreover have "unat (x + 1) mod 512 = Suc (unat x) mod 512"
    by (simp add: unat_word_ariths mod_mod_cancel)
  ultimately show ?thesis using pad_decreases [of "unat x" 512] by simp
qed

function align512 :: "u64 \<Rightarrow> u64" where
  "align512 off = (if off mod 512 = 0 then off else align512 (off + 1))"
  by pat_completeness auto
termination
  by (relation "measure (\<lambda>x. (512 - unat x mod 512) mod 512)") (simp_all add: pad512_decreases)

declare align512.simps [simp del]

text \<open>Is the name of \<open>h\<close> the end marker? The test compares ten bytes of a longer name.\<close>

definition is_trailer :: "mem \<Rightarrow> cpio_header \<Rightarrow> cpio_error + bool" where
  "is_trailer raw h =
     (if unat (h_name_len h) \<ge> length CPIO_TRAILER + 1 then memcmp_at raw (h_name h) CPIO_TRAILER
      else Inr False)"

text \<open>
  One turn of the loop of \<open>read_cpio\<close> at \<open>offset\<close>: the new offset, the headers so far, and
  whether the loop is left. \<open>list_append\<close> comes before the check of the header size, so the
  header is in the list in every later branch; \<open>list_shift\<close> takes the trailer off again.
\<close>

definition read_cpio_turn ::
  "mem \<Rightarrow> u64 \<Rightarrow> u64 \<Rightarrow> cpio_header list \<Rightarrow> cpio_error + u64 \<times> cpio_header list \<times> bool" where
  "read_cpio_turn raw sz offset hs =
     (if sz < of_nat (CPIO_FORMAT_LENGTH + CPIO_HEADER_SIZE) then Inl ArchiveLessThanHeader
      else bind_res (memcmp_at raw offset CPIO_FORMAT_OLDASCII) (\<lambda>old.
        if old then Inl IncorrectMethod
        else bind_res (memcmp_at raw offset CPIO_FORMAT_NEWASCII) (\<lambda>new.
          if \<not> new then Inl NoMagic
          else if offset + of_nat CPIO_HEADER_SIZE > sz then Inl HeaderExceeds
          else bind_res (parse_header raw offset) (\<lambda>h.
            if h_name_len h = 0 then Inl InvalidNameLength
            else
              let offset1 = offset + of_nat CPIO_HEADER_SIZE in
              if offset1 + N_ALIGN (h_name_len h) + h_body_len h > sz then Inl EntryExceeds
              else
                let offset2 = offset1 + (N_ALIGN (h_name_len h) + h_body_len h);
                    offset3 = (offset2 + 3) AND NOT 3
                in if offset3 > sz then Inl EntryExceeds
                   else bind_res (is_trailer raw h) (\<lambda>t.
                     if t then Inr (align512 offset3, butlast (hs @ [h]), True)
                     else Inr (offset3, hs @ [h], False))))))"

partial_function (option) read_cpio_loop ::
  "mem \<Rightarrow> u64 \<Rightarrow> u64 \<Rightarrow> cpio_header list \<Rightarrow> (cpio_error + u64 \<times> cpio_header list) option" where
  "read_cpio_loop raw sz offset hs =
     (if offset < sz then
        (case read_cpio_turn raw sz offset hs of
           Inl e \<Rightarrow> Some (Inl e)
         | Inr (offset', hs', left) \<Rightarrow>
             if left then Some (Inr (offset', hs')) else read_cpio_loop raw sz offset' hs')
      else Some (Inr (offset, hs)))"

definition read_cpio :: "mem \<Rightarrow> u64 \<Rightarrow> (cpio_error + u64 \<times> cpio_header list) option" where
  "read_cpio raw sz = read_cpio_loop raw sz 0 []"

section \<open>Writing\<close>

text \<open>
  The output stream is the bytes written so far, and \<open>offset\<close> is counted beside it, as in
  the code. The functions return the new offset and the new stream.
\<close>

type_synonym out = "u64 \<times> string"

definition push_hdr :: "string \<Rightarrow> out \<Rightarrow> out" where
  "push_hdr s st = (case st of (offset, output) \<Rightarrow>
     (offset + of_nat CPIO_HEADER_SIZE, output @ take CPIO_HEADER_SIZE s))"

lemma pad4_decreases:
  assumes "(x :: u64) AND 3 \<noteq> 0"
  shows "(4 - unat (x + 1) mod 4) mod 4 < (4 - unat x mod 4) mod 4"
proof -
  from assms have "unat x mod 4 \<noteq> 0"
    by (auto simp: u64_and_3 unat_mod word_unat_eq_iff)
  moreover have "unat (x + 1) mod 4 = Suc (unat x) mod 4"
    by (simp add: unat_word_ariths mod_mod_cancel)
  ultimately show ?thesis using pad_decreases [of "unat x" 4] by simp
qed

text \<open>\<open>push_pad\<close>: zero bytes until the offset is a multiple of four.\<close>

function push_pad :: "u64 \<Rightarrow> string \<Rightarrow> out" where
  "push_pad offset output =
     (if offset AND 3 = 0 then (offset, output) else push_pad (offset + 1) (output @ [NUL]))"
  by pat_completeness auto
termination
  by (relation "measure (\<lambda>(x, _). (4 - unat x mod 4) mod 4)") (simp_all add: pad4_decreases)

declare push_pad.simps [simp del]

definition push_string :: "string \<Rightarrow> out \<Rightarrow> out" where
  "push_string nm st = (case st of (offset, output) \<Rightarrow>
     (offset + of_nat (length nm + 1), output @ nm @ [NUL]))"

text \<open>\<open>push_rest\<close>: the name, and padding counted from the start of the header.\<close>

function rest_pad :: "u64 \<Rightarrow> u64 \<Rightarrow> string \<Rightarrow> out" where
  "rest_pad tmp offset output =
     (if tmp AND 3 = 0 then (offset, output) else rest_pad (tmp + 1) (offset + 1) (output @ [NUL]))"
  by pat_completeness auto
termination
  by (relation "measure (\<lambda>(x, _). (4 - unat x mod 4) mod 4)") (simp_all add: pad4_decreases)

declare rest_pad.simps [simp del]

definition push_rest :: "string \<Rightarrow> out \<Rightarrow> out" where
  "push_rest nm st = (case push_string nm st of (offset, output) \<Rightarrow>
     rest_pad (of_nat (CPIO_HEADER_SIZE + (length nm + 1))) offset output)"

definition S_IFMT :: u32 where "S_IFMT = 0xF000"
definition S_IFSOCK :: u32 where "S_IFSOCK = 0xC000"
definition S_IFLNK :: u32 where "S_IFLNK = 0xA000"
definition S_IFREG :: u32 where "S_IFREG = 0x8000"
definition S_IFBLK :: u32 where "S_IFBLK = 0x6000"
definition S_IFDIR :: u32 where "S_IFDIR = 0x4000"
definition S_IFCHR :: u32 where "S_IFCHR = 0x2000"
definition S_IFIFO :: u32 where "S_IFIFO = 0x1000"

text \<open>The text \<open>snprintf\<close> makes of a header: the magic and thirteen numbers.\<close>

definition header_text :: "cpio_header \<Rightarrow> string" where
  "header_text h =
     CPIO_FORMAT_NEWASCII @ fmt_08lX (h_ino h) @ fmt_08X (h_mode h) @ fmt_08lX (ucast (h_uid h)) @
     fmt_08lX (ucast (h_gid h)) @ fmt_08lX (h_nlink h) @ fmt_08lX (h_mtime h) @
     fmt_08lX (h_body_len h) @ fmt_08lX (h_major h) @ fmt_08lX (h_minor h) @
     fmt_08lX (h_rmajor h) @ fmt_08lX (h_rminor h) @ fmt_08lX (h_name_len h) @ fmt_08X 0"

definition is_special :: "u32 \<Rightarrow> bool" where
  "is_special m \<longleftrightarrow> m AND S_IFMT \<in> set [S_IFBLK, S_IFCHR, S_IFDIR, S_IFIFO, S_IFSOCK]"

definition write_cpio :: "mem \<Rightarrow> cpio_header \<Rightarrow> out \<Rightarrow> cpio_error + out" where
  "write_cpio raw h st =
     (let st1 = push_hdr (header_text h) st in
      case cstr raw (unat (h_name h)) of
        None \<Rightarrow> Inl Oob
      | Some nm \<Rightarrow>
          if is_special (h_mode h) then Inr (push_rest nm st1)
          else
            let (offset, output) = push_string nm st1;
                (offset, output) = push_pad offset output
            in if h_body_len h \<noteq> 0 then
                 (case rd raw (unat (h_body h)) (unat (h_body_len h)) of
                    None \<Rightarrow> Inl Oob
                  | Some b \<Rightarrow> Inr (push_pad (offset + h_body_len h) (output @ b)))
               else Inr (offset, output))"

text \<open>The loop at the end of \<open>write_trailer\<close>: zero bytes up to a multiple of 512.\<close>

function pad512 :: "u64 \<Rightarrow> string \<Rightarrow> out" where
  "pad512 offset output =
     (if offset mod 512 = 0 then (offset, output) else pad512 (offset + 1) (output @ [NUL]))"
  by pat_completeness auto
termination
  by (relation "measure (\<lambda>(x, _). (512 - unat x mod 512) mod 512)") (simp_all add: pad512_decreases)

declare pad512.simps [simp del]

definition trailer_header :: cpio_header where
  "trailer_header =
     \<lparr>h_ino = 0, h_major = 0, h_minor = 0, h_rmajor = 0, h_rminor = 0, h_nlink = 1, h_mode = 0,
      h_mtime = 0, h_body_len = 0, h_name_len = of_nat (length CPIO_TRAILER + 1), h_uid = 0,
      h_gid = 0, h_rdev = 0, h_name = 0, h_body = 0\<rparr>"

definition write_trailer :: "out \<Rightarrow> out" where
  "write_trailer st =
     (let (offset, output) = push_rest CPIO_TRAILER (push_hdr (header_text trailer_header) st)
      in pad512 offset output)"

section \<open>Arithmetic of offsets\<close>

text \<open>The size of a name of \<open>n\<close> bytes with its padding, and the distance to a multiple.\<close>

definition name_room :: "nat \<Rightarrow> nat" where
  "name_room n = (n + 1) - (n + 1) mod 4 + 2"

abbreviation gap :: "nat \<Rightarrow> nat \<Rightarrow> nat" where
  "gap k n \<equiv> (k - n mod k) mod k"

lemma N_ALIGN_of_nat: "n < 2 ^ 63 \<Longrightarrow> N_ALIGN (of_nat n) = of_nat (name_room n)"
  using u64_and_not_3_of_nat [of "n + 1"] by (simp add: N_ALIGN_def name_room_def ac_simps)

lemma unat_N_ALIGN: "unat n < 2 ^ 63 \<Longrightarrow> unat (N_ALIGN n) = name_room (unat n)"
  using N_ALIGN_of_nat [of "unat n"] unat_of_nat_u64 [of "name_room (unat n)"]
  by (simp add: name_room_def)

lemma name_room_ge: "n \<le> name_room n"
  unfolding name_room_def using mod_less_divisor [of 4 "n + 1"] by linarith

lemma name_room_le: "name_room n \<le> n + 3"
  by (simp add: name_room_def)

lemma name_room_gap: "(110 + n) + gap 4 (110 + n) = 110 + name_room n"
proof -
  obtain q r where n: "n = 4 * q + r" and "r < 4"
    by (metis mod_less_divisor mult_div_mod_eq zero_less_numeral)
  then have "r \<in> {0, 1, 2, 3}" by auto
  then show ?thesis by (elim insertE) (simp_all add: n name_room_def mod_simps mod_Suc)
qed

lemma gap_pos: "n mod k \<noteq> 0 \<Longrightarrow> 0 < k \<Longrightarrow> gap k n = k - n mod k"
  by simp

lemma gap_Suc: "n mod k \<noteq> 0 \<Longrightarrow> 0 < k \<Longrightarrow> Suc (gap k (Suc n)) = gap k n"
  by (auto simp: mod_Suc Suc_diff_Suc)

lemma gap_add:
  assumes "0 < k"
  shows "(n + gap k n) mod k = (0::nat)"
proof (cases "n mod k = 0")
  case False
  have "n + gap k n = k * (n div k) + n mod k + (k - n mod k)"
    using gap_pos [OF False assms] by simp
  also have "\<dots> = k * (n div k) + k"
    using mod_less_divisor [OF assms, of n] by linarith
  finally show ?thesis by simp
qed simp

lemma align512_of_nat: "align512 (of_nat n) = of_nat (n + gap 512 n)"
proof (induction "gap 512 n" arbitrary: n rule: less_induct)
  case less
  show ?case
  proof (cases "n mod 512 = 0")
    case True
    then show ?thesis
      using u64_mod_of_nat_eq_0 [of 512 n] by (subst align512.simps) simp
  next
    case False
    then have "gap 512 (Suc n) < gap 512 n" by (rule pad_decreases) simp
    from less [OF this] have IH: "align512 (of_nat (Suc n)) = of_nat (Suc n + gap 512 (Suc n))" .
    have "align512 (of_nat n) = align512 (of_nat (Suc n))"
      using False u64_mod_of_nat_eq_0 [of 512 n] by (subst align512.simps) (simp add: add.commute)
    moreover have "Suc n + gap 512 (Suc n) = n + gap 512 n"
      using gap_Suc [OF False] by linarith
    ultimately show ?thesis using IH by (simp only:)
  qed
qed

section \<open>What a turn of the reader does\<close>

definition offset_after :: "u64 \<Rightarrow> cpio_header \<Rightarrow> u64" where
  "offset_after off h = (off + 110 + N_ALIGN (h_name_len h) + h_body_len h + 3) AND NOT 3"

lemma read_cpio_turn_InrE:
  assumes "read_cpio_turn raw sz off hs = Inr (off', hs', left)"
  obtains h where "parse_header raw off = Inr h" and "h_name_len h \<noteq> 0" and "off + 110 \<le> sz"
    and "off + 110 + N_ALIGN (h_name_len h) + h_body_len h \<le> sz" and "offset_after off h \<le> sz"
    and "is_trailer raw h = Inr left"
    and "memcmp_at raw off CPIO_FORMAT_NEWASCII = Inr True"
    and "if left then off' = align512 (offset_after off h) \<and> hs' = hs
         else off' = offset_after off h \<and> hs' = hs @ [h]"
  using assms
  by (auto simp: read_cpio_turn_def bind_res_Inr_iff offset_after_def CPIO_HEADER_SIZE_def Let_def
      not_less add.assoc split: if_splits)

lemma read_cpio_turn_accepts:
  assumes "\<not> sz < 116" and "memcmp_at raw off CPIO_FORMAT_OLDASCII = Inr False"
    and "memcmp_at raw off CPIO_FORMAT_NEWASCII = Inr True" and "\<not> sz < off + 110"
    and "parse_header raw off = Inr h" and "h_name_len h \<noteq> 0"
    and "\<not> sz < off + 110 + N_ALIGN (h_name_len h) + h_body_len h" and "\<not> sz < offset_after off h"
    and "is_trailer raw h = Inr t"
  shows "read_cpio_turn raw sz off hs =
           (if t then Inr (align512 (offset_after off h), hs, True)
            else Inr (offset_after off h, hs @ [h], False))"
proof -
  have sizes: "of_nat (CPIO_FORMAT_LENGTH + CPIO_HEADER_SIZE) = (116 :: u64)" "of_nat CPIO_HEADER_SIZE = (110 :: u64)"
    by (simp_all add: CPIO_HEADER_SIZE_def CPIO_FORMAT_LENGTH_def)
  have after: "(off + 110 + (N_ALIGN (h_name_len h) + h_body_len h) + 3) AND NOT 3 = offset_after off h"
    by (simp only: offset_after_def add.assoc)
  show ?thesis
    by (simp only: read_cpio_turn_def Let_def sizes after bind_res.simps assms if_False if_True
        simp_thms butlast_snoc)
qed

lemma parse_header_places:
  assumes "parse_header raw off = Inr h"
  shows "h_name h = off + 110" and "h_body h = off + 110 + N_ALIGN (h_name_len h)"
    and "h_name_len h = hdr_field raw (unat off) 11" and "h_body_len h = hdr_field raw (unat off) 6"
    and "unat off + 110 \<le> length raw"
  using assms by (auto simp: parse_header_def cpio_consts Let_def split: if_splits)

text \<open>A header whose two lengths fit eight hexadecimal digits, as the format intends.\<close>

definition plain_lengths :: "cpio_header \<Rightarrow> bool" where
  "plain_lengths h \<longleftrightarrow> unat (h_name_len h) < 2 ^ 32 \<and> unat (h_body_len h) < 2 ^ 32"

lemma unat_add_u64: "unat a + unat b < 2 ^ 64 \<Longrightarrow> unat ((a :: u64) + b) = unat a + unat b"
  by (simp add: unat_word_ariths)

lemma plain_turn:
  assumes "off < sz" and "unat sz < 2 ^ 63" and "plain_lengths h"
    and "off + 110 + N_ALIGN (h_name_len h) + h_body_len h \<le> sz"
  shows "unat (off + 110) = unat off + 110"
    and "unat (off + 110 + N_ALIGN (h_name_len h)) = unat off + 110 + name_room (unat (h_name_len h))"
    and "unat off + 110 + name_room (unat (h_name_len h)) + unat (h_body_len h) \<le> unat sz"
    and "unat off < unat (offset_after off h)"
proof -
  let ?n = "unat (h_name_len h)" and ?b = "unat (h_body_len h)"
  have small: "unat off < 2 ^ 63" "?n < 2 ^ 32" "?b < 2 ^ 32" "name_room ?n < 2 ^ 33"
    using assms name_room_le [of ?n] by (auto simp: word_less_nat_alt plain_lengths_def)
  show 1: "unat (off + 110) = unat off + 110"
    using small by (subst unat_add_u64) simp_all
  have N: "unat (N_ALIGN (h_name_len h)) = name_room ?n"
    using small by (intro unat_N_ALIGN) simp
  show 2: "unat (off + 110 + N_ALIGN (h_name_len h)) = unat off + 110 + name_room ?n"
    using small 1 N by (subst unat_add_u64) simp_all
  have 3: "unat (off + 110 + N_ALIGN (h_name_len h) + h_body_len h) = unat off + 110 + name_room ?n + ?b"
    using small 2 by (subst unat_add_u64) simp_all
  then show "unat off + 110 + name_room ?n + ?b \<le> unat sz"
    using assms(4) by (simp add: word_le_nat_alt)
  have "unat (off + 110 + N_ALIGN (h_name_len h) + h_body_len h + 3) = unat off + 113 + name_room ?n + ?b"
    using small 3 by (subst unat_add_u64) simp_all
  then show "unat off < unat (offset_after off h)"
    unfolding offset_after_def unat_and_not_3 by linarith
qed

section \<open>What the reader accepts\<close>

text \<open>The name and the body of a header lie in the archive, the name before the body.\<close>

definition header_inside :: "u64 \<Rightarrow> cpio_header \<Rightarrow> bool" where
  "header_inside sz h \<longleftrightarrow>
     CPIO_HEADER_SIZE \<le> unat (h_name h) \<and>
     unat (h_name h) + unat (h_name_len h) \<le> unat (h_body h) \<and>
     unat (h_body h) + unat (h_body_len h) \<le> unat sz"

lemma turn_header_inside:
  assumes "off < sz" and "unat sz < 2 ^ 63" and "plain_lengths h" and "parse_header raw off = Inr h"
    and "off + 110 + N_ALIGN (h_name_len h) + h_body_len h \<le> sz"
  shows "header_inside sz h"
  using plain_turn [OF assms(1-3,5)] name_room_ge [of "unat (h_name_len h)"]
  by (simp add: header_inside_def parse_header_places(1,2) [OF assms(4)] CPIO_HEADER_SIZE_def)

text \<open>Induction over the turns of a run that returns.\<close>

lemma read_cpio_loop_induct [consumes 1, case_names stop error leave again]:
  assumes run: "read_cpio_loop raw sz off hs = Some r"
    and stop: "\<And>off hs. \<not> off < sz \<Longrightarrow> P off hs (Inr (off, hs))"
    and error: "\<And>off hs e. off < sz \<Longrightarrow> read_cpio_turn raw sz off hs = Inl e \<Longrightarrow> P off hs (Inl e)"
    and leave: "\<And>off hs off' hs'. off < sz \<Longrightarrow> read_cpio_turn raw sz off hs = Inr (off', hs', True) \<Longrightarrow>
                  P off hs (Inr (off', hs'))"
    and again: "\<And>off hs off' hs' r. off < sz \<Longrightarrow> read_cpio_turn raw sz off hs = Inr (off', hs', False) \<Longrightarrow>
                  P off' hs' r \<Longrightarrow> P off hs r"
  shows "P off hs r"
proof -
  have "raw = raw \<longrightarrow> sz = sz \<longrightarrow> P off hs r"
  proof (rule read_cpio_loop.raw_induct
      [where P = "\<lambda>raw' sz' off hs r. raw' = raw \<longrightarrow> sz' = sz \<longrightarrow> P off hs r", OF _ run], intro impI)
    fix loop raw' sz' off hs r
    assume "\<And>raw' sz' off hs r. loop raw' sz' off hs = Some r \<Longrightarrow> raw' = raw \<longrightarrow> sz' = sz \<longrightarrow> P off hs r"
      and "(if off < sz' then case read_cpio_turn raw' sz' off hs of Inl e \<Rightarrow> Some (Inl e)
              | Inr (offset', hs', left) \<Rightarrow> if left then Some (Inr (offset', hs')) else loop raw' sz' offset' hs'
            else Some (Inr (off, hs))) = Some r"
      and "raw' = raw" and "sz' = sz"
    then show "P off hs r"
      by (auto intro: stop error leave again split: if_splits sum.splits prod.splits)
  qed
  then show ?thesis by simp
qed

lemma read_cpio_loop_inside:
  assumes "read_cpio_loop raw sz off hs = Some (Inr (off', hs'))" and "unat sz < 2 ^ 63"
    and "\<forall>h \<in> set hs. plain_lengths h \<longrightarrow> header_inside sz h"
  shows "\<forall>h \<in> set hs'. plain_lengths h \<longrightarrow> header_inside sz h"
proof -
  have "\<forall>off' hs'. r = Inr (off', hs') \<longrightarrow> (\<forall>h \<in> set hs'. plain_lengths h \<longrightarrow> header_inside sz h)"
    if "read_cpio_loop raw sz off hs = Some r" for r
    using that assms(3)
  proof (induction rule: read_cpio_loop_induct)
    case (leave off hs off' hs')
    then show ?case by (auto elim!: read_cpio_turn_InrE)
  next
    case (again off hs off' hs' r)
    then have "\<forall>h \<in> set hs'. plain_lengths h \<longrightarrow> header_inside sz h"
      by (auto elim!: read_cpio_turn_InrE intro: turn_header_inside [OF _ assms(2)])
    with again show ?case by blast
  qed simp_all
  with assms(1) show ?thesis by blast
qed

text \<open>The two length fields of every place of the archive that has the magic are plain.\<close>

definition plain_archive :: "mem \<Rightarrow> bool" where
  "plain_archive raw \<longleftrightarrow>
     list_all (\<lambda>i. rd raw i CPIO_FORMAT_LENGTH = Some CPIO_FORMAT_NEWASCII \<longrightarrow>
                   unat (hdr_field raw i 11) < 2 ^ 32 \<and> unat (hdr_field raw i 6) < 2 ^ 32)
       [0..<length raw]"

lemma plain_archive_lengths:
  assumes "plain_archive raw" and "parse_header raw off = Inr h"
    and "memcmp_at raw off CPIO_FORMAT_NEWASCII = Inr True"
  shows "plain_lengths h"
proof -
  note places = parse_header_places [OF assms(2)]
  have "rd raw (unat off) CPIO_FORMAT_LENGTH = Some CPIO_FORMAT_NEWASCII"
    using assms(3) by (auto simp: memcmp_at_def cpio_consts eval_nat_numeral split: option.splits)
  moreover have "unat off < length raw" using places(5) by linarith
  ultimately show ?thesis
    using assms(1) by (simp add: plain_archive_def list_all_iff plain_lengths_def places)
qed

lemma read_cpio_loop_returns:
  assumes "plain_archive raw" and "unat sz < 2 ^ 63"
  shows "\<exists>r. read_cpio_loop raw sz off hs = Some r"
proof (induction "unat sz - unat off" arbitrary: off hs rule: less_induct)
  case less
  show ?case
  proof (cases "off < sz \<and> (\<exists>x hs1. read_cpio_turn raw sz off hs = Inr (x, hs1, False))")
    case True
    then obtain x hs1 where off: "off < sz" and turn: "read_cpio_turn raw sz off hs = Inr (x, hs1, False)"
      by auto
    from turn obtain h where h: "parse_header raw off = Inr h" "x = offset_after off h"
        "memcmp_at raw off CPIO_FORMAT_NEWASCII = Inr True"
        "off + 110 + N_ALIGN (h_name_len h) + h_body_len h \<le> sz"
      by (elim read_cpio_turn_InrE) simp
    have "unat off < unat x"
      using plain_turn(4) [OF off assms(2) plain_archive_lengths [OF assms(1) h(1,3)] h(4)] h(2) by simp
    with off have "unat sz - unat x < unat sz - unat off" by (simp add: word_less_nat_alt)
    from less [OF this, of hs1] show ?thesis
      using off turn by (subst read_cpio_loop.simps) simp
  next
    case False
    then show ?thesis
      by (subst read_cpio_loop.simps) (auto split: sum.splits prod.splits)
  qed
qed

text \<open>A turn that leaves the offset where it was is repeated for ever.\<close>

lemma read_cpio_loop_diverges:
  assumes "off < sz" and "\<And>hs. \<exists>hs'. read_cpio_turn raw sz off hs = Inr (off, hs', False)"
  shows "read_cpio_loop raw sz off hs = None"
proof -
  have "x \<noteq> off" if "read_cpio_loop raw sz x hs = Some r" for x hs r
    using that
  proof (induction rule: read_cpio_loop_induct)
    case (error x hs e)
    then show ?case using assms(2) [of hs] by auto
  next
    case (leave x hs off' hs')
    then show ?case using assms(2) [of hs] by auto
  next
    case (again x hs off' hs' r)
    then show ?case using assms(2) [of hs] by auto
  qed (use assms(1) in auto)
  then show ?thesis by (cases "read_cpio_loop raw sz off hs") auto
qed

text \<open>Fields of eight bytes after the magic number.\<close>

lemma concat_length8: "list_all (\<lambda>f. length f = 8) fs \<Longrightarrow> length (concat fs) = 8 * length fs"
  by (induction fs) auto

lemma nth_field:
  assumes "list_all (\<lambda>f. length f = 8) fs" and "i < length fs"
  shows "take 8 (drop (i * 8) (concat fs @ C)) = fs ! i"
  using assms
proof (induction fs arbitrary: i)
  case (Cons f fs)
  then show ?case by (cases i) simp_all
qed simp

lemma hdr_field_fields:
  assumes "list_all (\<lambda>f. length f = 8) fs" and "i < length fs"
  shows "hdr_field (A @ CPIO_FORMAT_NEWASCII @ concat fs @ C) (length A) i = strtoul_val (fs ! i @ [NUL]) 16"
proof -
  have "drop (length A + 6 + i * 8) (A @ CPIO_FORMAT_NEWASCII @ X) = drop (i * 8) X" for X
    using drop_drop [of "i * 8" 6 "CPIO_FORMAT_NEWASCII @ X"]
    by (simp add: CPIO_FORMAT_NEWASCII_def add.commute)
  with nth_field [OF assms, of C] show ?thesis
    by (simp only: hdr_field_def CPIO_FORMAT_LENGTH_def CPIO_HDR_FIELD_SIZE_def)
qed

section \<open>What the writer produces\<close>

lemma push_pad_of_nat: "push_pad (of_nat n) out = (of_nat (n + gap 4 n), out @ replicate (gap 4 n) NUL)"
proof (induction "gap 4 n" arbitrary: n out rule: less_induct)
  case less
  show ?case
  proof (cases "n mod 4 = 0")
    case True
    then show ?thesis
      using u64_mod_of_nat_eq_0 [of 4 n] by (subst push_pad.simps) (simp add: u64_and_3)
  next
    case False
    then have "gap 4 (Suc n) < gap 4 n" by (rule pad_decreases) simp
    note IH = less [OF this, of "out @ [NUL]"]
    have "push_pad (of_nat n) out = push_pad (of_nat (Suc n)) (out @ [NUL])"
      using False u64_mod_of_nat_eq_0 [of 4 n]
      by (subst push_pad.simps) (simp add: u64_and_3 add.commute)
    moreover have "gap 4 n = Suc (gap 4 (Suc n))" using gap_Suc [OF False] by simp
    ultimately show ?thesis using IH by simp
  qed
qed

lemma pad512_of_nat: "pad512 (of_nat n) out = (of_nat (n + gap 512 n), out @ replicate (gap 512 n) NUL)"
proof (induction "gap 512 n" arbitrary: n out rule: less_induct)
  case less
  show ?case
  proof (cases "n mod 512 = 0")
    case True
    then show ?thesis
      using u64_mod_of_nat_eq_0 [of 512 n] by (subst pad512.simps) simp
  next
    case False
    then have "gap 512 (Suc n) < gap 512 n" by (rule pad_decreases) simp
    note IH = less [OF this, of "out @ [NUL]"]
    have "pad512 (of_nat n) out = pad512 (of_nat (Suc n)) (out @ [NUL])"
      using False u64_mod_of_nat_eq_0 [of 512 n] by (subst pad512.simps) (simp add: add.commute)
    moreover have "gap 512 n = Suc (gap 512 (Suc n))" using gap_Suc [OF False] by simp
    ultimately show ?thesis using IH by simp
  qed
qed

text \<open>\<open>push_rest\<close> counts its padding from the header, which is the same when that is aligned.\<close>

lemma rest_pad_push_pad:
  "t mod 4 = n mod 4 \<Longrightarrow> rest_pad (of_nat t) (of_nat n) out = push_pad (of_nat n) out"
proof (induction "gap 4 n" arbitrary: t n out rule: less_induct)
  case less
  have zero: "(of_nat t :: u64) AND 3 = 0 \<longleftrightarrow> n mod 4 = 0" "(of_nat n :: u64) AND 3 = 0 \<longleftrightarrow> n mod 4 = 0"
    using u64_mod_of_nat_eq_0 [of 4 t] u64_mod_of_nat_eq_0 [of 4 n] less(2) by (simp_all add: u64_and_3)
  show ?case
  proof (cases "n mod 4 = 0")
    case True
    then show ?thesis using zero by (simp add: rest_pad.simps push_pad.simps)
  next
    case False
    then have "gap 4 (Suc n) < gap 4 n" by (rule pad_decreases) simp
    moreover have "Suc t mod 4 = Suc n mod 4" using less(2) by (simp add: mod_Suc)
    ultimately have "rest_pad (of_nat (Suc t)) (of_nat (Suc n)) (out @ [NUL]) =
      push_pad (of_nat (Suc n)) (out @ [NUL])" by (rule less(1))
    with False zero show ?thesis
      by (subst rest_pad.simps, subst push_pad.simps) (simp add: add.commute)
  qed
qed

section \<open>An archive the reader never leaves\<close>

text \<open>A header whose body length is written \<open>-70\<close>, that is \<open>-112\<close>: the size of header and name.\<close>

definition zero_field :: string where "zero_field = ''00000000''"

definition looping_fields :: "string list" where
  "looping_fields = replicate 6 zero_field @ ''     -70'' # replicate 4 zero_field @ [''00000001'', zero_field]"

definition looping_archive :: mem where
  "looping_archive = CPIO_FORMAT_NEWASCII @ concat looping_fields @ replicate 18 NUL"

lemmas strtoul_eval =
  strtoul_def strip_sign_def strip_prefix_def has_hex_prefix_def isspace_def is_base_digit_def
  digit_val_def base_val_def

lemma looping_fields_values:
  "strtoul_val (zero_field @ [NUL]) 16 = 0" "strtoul_val (''     -70'' @ [NUL]) 16 = - 112"
  "strtoul_val (''00000001'' @ [NUL]) 16 = 1"
  by (simp_all add: zero_field_def strtoul_eval)

lemma looping_fields8: "list_all (\<lambda>f. length f = 8) looping_fields" "length looping_fields = 13"
  by (simp_all add: looping_fields_def zero_field_def list_all_iff)

lemma looping_archive_length: "length looping_archive = 128"
  using concat_length8 [OF looping_fields8(1)] looping_fields8(2)
  by (simp add: looping_archive_def CPIO_FORMAT_NEWASCII_def)

lemma looping_archive_field:
  "i < 13 \<Longrightarrow> hdr_field looping_archive 0 i = strtoul_val (looping_fields ! i @ [NUL]) 16"
  using hdr_field_fields [OF looping_fields8(1), of i "[]"] looping_fields8(2)
  by (simp add: looping_archive_def)

lemma looping_archive_parse:
  "\<exists>h. parse_header looping_archive 0 = Inr h \<and> h_name_len h = 1 \<and> h_body_len h = - 112"
  by (simp add: parse_header_def cpio_consts looping_archive_length looping_archive_field Let_def)
    (use looping_fields_values in \<open>simp add: looping_fields_def nth_append\<close>)

lemma looping_archive_magic:
  "memcmp_at looping_archive 0 CPIO_FORMAT_OLDASCII = Inr False"
  "memcmp_at looping_archive 0 CPIO_FORMAT_NEWASCII = Inr True"
  by (simp_all add: memcmp_at_def rd_def looping_archive_length)
    (simp_all add: looping_archive_def cpio_consts)

text \<open>
  C25: \<open>read_cpio\<close> does not return on every input. The fields go through \<open>strtoul\<close>, which takes
  blanks and a sign, and the sums that are compared with the size of the archive wrap around: a body
  length of \<open>-112\<close> sends the loop back to the offset it started from, for ever.
\<close>

theorem read_cpio_may_not_return: "read_cpio looping_archive 128 = None"
proof -
  obtain h where h: "parse_header looping_archive 0 = Inr h" "h_name_len h = 1" "h_body_len h = - 112"
    using looping_archive_parse by auto
  have N: "N_ALIGN 1 = 2" by (simp add: N_ALIGN_def)
  have after: "offset_after 0 h = 0" by (simp add: offset_after_def h N)
  have "is_trailer looping_archive h = Inr False" by (simp add: is_trailer_def h CPIO_TRAILER_def)
  from read_cpio_turn_accepts [OF _ looping_archive_magic _ h(1) _ _ _ this, of 128]
  have "\<exists>hs'. read_cpio_turn looping_archive 128 0 hs = Inr (0, hs', False)" for hs
    by (simp add: h(2,3) N after)
  then show ?thesis unfolding read_cpio_def by (intro read_cpio_loop_diverges) simp
qed

section \<open>Device numbers\<close>

lemma bit_unat_less:
  assumes "unat (w :: 'a :: len word) < 2 ^ n" and "bit w k"
  shows "k < n"
proof (rule ccontr)
  assume "\<not> k < n"
  then have "unat w < 2 ^ k"
    using assms(1) power_increasing [of n k "2::nat"] by (simp add: less_le_trans)
  moreover have "bit (unat w) k" using assms(2) by (simp add: bit_unsigned_iff bit_imp_le_length)
  ultimately show False by (simp add: bit_iff_odd)
qed

lemma MAJOR_MKDEV: "unat mi < 2 ^ 20 \<Longrightarrow> MAJOR (MKDEV ma mi) = ucast ma"
  using bit_unat_less [of mi 20] by (intro bit_word_eqI) (fastforce simp: MAJOR_def MKDEV_def bit_simps)

lemma MINOR_MKDEV: "unat mi < 2 ^ 20 \<Longrightarrow> MINOR (MKDEV ma mi) = ucast mi"
  using bit_unat_less [of mi 20] by (intro bit_word_eqI) (auto simp: MINOR_def MKDEV_def bit_simps)

lemma bit_new_encode_dev:
  "bit (new_encode_dev dev) n \<longleftrightarrow>
     n < 32 \<and> (n < 8 \<and> bit (MINOR dev) n \<or> 8 \<le> n \<and> bit (MAJOR dev) (n - 8) \<or>
               20 \<le> n \<and> bit (MINOR dev) (n - 12))"
proof -
  have "(0xff :: u32) = mask 8" by (simp add: mask_eq_exp_minus_1)
  then have "new_encode_dev dev =
      (MINOR dev AND mask 8) OR push_bit 8 (MAJOR dev) OR push_bit 12 (MINOR dev AND NOT (mask 8))"
    by (simp only: new_encode_dev_def Let_def)
  then show ?thesis by (auto simp: bit_simps)
qed

end
