(* ===== verification/CpioRoundtrip.thy ===== *)
theory CpioRoundtrip
  imports Cpio
begin

unbundle bit_operations_syntax

text \<open>
  The writer against the reader: the bytes \<open>write_cpio\<close> makes of a header are an entry
  with one layout (\<open>entry_bytes\<close>), the reader accepts that layout at every aligned offset, and
  so an archive of written entries and a trailer is read back entry by entry.
\<close>

section \<open>The layout of an entry\<close>

definition entry_bytes :: "cpio_header \<Rightarrow> string \<Rightarrow> string \<Rightarrow> string" where
  "entry_bytes h nm b =
     header_text h @ nm @ NUL # replicate (gap 4 (110 + (length nm + 1))) NUL @
     b @ replicate (gap 4 (length b)) NUL"

text \<open>Every number of the header fits the eight digits the format has for it.\<close>

definition fields_fit :: "cpio_header \<Rightarrow> bool" where
  "fields_fit h \<longleftrightarrow>
     list_all (\<lambda>w. unat w < 2 ^ 32)
       [h_ino h, h_nlink h, h_mtime h, h_body_len h, h_major h, h_minor h, h_rmajor h, h_rminor h,
        h_name_len h]"

text \<open>
  A header of the memory \<open>raw\<close> with its name and body, as the reader leaves it: the lengths
  are those of the name and the body, and special files have no body.
\<close>

definition entry_fits :: "mem \<Rightarrow> cpio_header \<Rightarrow> string \<Rightarrow> string \<Rightarrow> bool" where
  "entry_fits raw h nm b \<longleftrightarrow>
     fields_fit h \<and>
     cstr raw (unat (h_name h)) = Some nm \<and> unat (h_name_len h) = length nm + 1 \<and>
     unat (h_body_len h) = length b \<and>
     (b \<noteq> [] \<longrightarrow> rd raw (unat (h_body h)) (length b) = Some b) \<and>
     (is_special (h_mode h) \<longrightarrow> b = []) \<and>
     \<not> starts_with CPIO_TRAILER nm"

definition header_fields :: "cpio_header \<Rightarrow> string list" where
  "header_fields h =
     [fmt_08lX (h_ino h), fmt_08X (h_mode h), fmt_08lX (ucast (h_uid h)), fmt_08lX (ucast (h_gid h)),
      fmt_08lX (h_nlink h), fmt_08lX (h_mtime h), fmt_08lX (h_body_len h), fmt_08lX (h_major h),
      fmt_08lX (h_minor h), fmt_08lX (h_rmajor h), fmt_08lX (h_rminor h), fmt_08lX (h_name_len h),
      fmt_08X 0]"

lemma header_text_fields: "header_text h = CPIO_FORMAT_NEWASCII @ concat (header_fields h)"
  by (simp add: header_text_def header_fields_def)

lemma unat_ucast_u32: "unat (ucast (w :: u32) :: u64) < 2 ^ 32"
  using unat_u32_lt [of w] by (simp add: unsigned_ucast_eq take_bit_nat_eq_self)

lemma header_fields_length8:
  assumes "fields_fit h"
  shows "list_all (\<lambda>f. length f = 8) (header_fields h)"
  using assms unat_ucast_u32 [of "h_uid h"] unat_ucast_u32 [of "h_gid h"]
  by (simp add: fields_fit_def header_fields_def fmt_08lX_read(1) fmt_08X_read(1))

lemma header_text_length:
  assumes "fields_fit h"
  shows "length (header_text h) = 110"
  using concat_length8 [OF header_fields_length8 [OF assms]]
  by (simp add: header_text_fields header_fields_def CPIO_FORMAT_NEWASCII_def)

lemma hdr_field_header_text:
  assumes "fields_fit h" and "i < 13"
  shows "hdr_field (A @ header_text h @ C) (length A) i = strtoul_val (header_fields h ! i @ [NUL]) 16"
  using hdr_field_fields [OF header_fields_length8 [OF assms(1)], of i A C] assms(2)
  by (simp add: header_text_fields header_fields_def)

text \<open>The header the reader makes of an entry at offset \<open>n\<close>.\<close>

definition placed :: "nat \<Rightarrow> cpio_header \<Rightarrow> cpio_header" where
  "placed n h = h\<lparr>h_rdev := new_encode_dev (MKDEV (h_rmajor h) (h_rminor h)),
                  h_name := of_nat (n + 110),
                  h_body := of_nat (n + 110 + name_room (unat (h_name_len h)))\<rparr>"

lemma ucast_ucast_u32: "ucast (ucast (w :: u32) :: u64) = w"
  by (rule bit_word_eqI) (simp add: bit_simps)

lemma parse_header_text:
  assumes "fields_fit h" and "length A + 110 < 2 ^ 63"
  shows "parse_header (A @ header_text h @ C) (of_nat (length A)) = Inr (placed (length A) h)"
proof -
  have n: "unat (of_nat (length A) :: u64) = length A"
    using assms(2) by (intro unat_of_nat_u64) simp
  have N: "N_ALIGN (h_name_len h) = of_nat (name_room (unat (h_name_len h)))"
    using N_ALIGN_of_nat [of "unat (h_name_len h)"] assms(1) by (simp add: fields_fit_def)
  show ?thesis
    using assms(1) unat_ucast_u32 [of "h_uid h"] unat_ucast_u32 [of "h_gid h"]
    by (simp add: parse_header_def n Let_def cpio_consts header_text_length [OF assms(1)]
        hdr_field_header_text [OF assms(1)] header_fields_def fmt_08lX_read(2) fmt_08X_read(2)
        fields_fit_def ucast_ucast_u32 placed_def N add.commute)
qed

section \<open>Writing an entry\<close>

lemma mod4_shift: "n mod 4 = 0 \<Longrightarrow> (n + k) mod 4 = k mod (4 :: nat)"
  using mod_add_left_eq [of n 4 k] by simp

lemma gap_shift: "n mod 4 = 0 \<Longrightarrow> gap 4 (n + k) = gap 4 (k :: nat)"
  by (simp add: mod4_shift)

lemma name_room_mod: "(110 + name_room n) mod 4 = 0"
  using gap_add [of 4 "110 + n"] by (simp only: name_room_gap)

lemma length_entry_bytes:
  assumes "fields_fit h"
  shows "length (entry_bytes h nm b) = 110 + name_room (length nm + 1) + (length b + gap 4 (length b))"
    and "length (entry_bytes h nm b) mod 4 = 0"
proof -
  show 1: "length (entry_bytes h nm b) = 110 + name_room (length nm + 1) + (length b + gap 4 (length b))"
    using name_room_gap [of "length nm + 1"] header_text_length [OF assms] by (simp add: entry_bytes_def)
  show "length (entry_bytes h nm b) mod 4 = 0"
    unfolding 1 using name_room_mod [of "length nm + 1"] gap_add [of 4 "length b"]
    by (simp only: mod4_shift zero_less_numeral)
qed

lemma push_hdr_entry:
  assumes "fields_fit h"
  shows "push_hdr (header_text h) (of_nat n, out) = (of_nat (n + 110), out @ header_text h)"
  using header_text_length [OF assms] by (simp add: push_hdr_def CPIO_HEADER_SIZE_def)

text \<open>Header, name and padding: the same bytes on the path of special files and on the other.\<close>

lemma push_name:
  assumes "n mod 4 = 0"
  shows "push_rest nm (of_nat (n + 110), out) =
           (of_nat (n + 110 + name_room (length nm + 1)),
            out @ nm @ NUL # replicate (gap 4 (110 + (length nm + 1))) NUL)" (is ?rest)
    and "case push_string nm (of_nat (n + 110), out) of (x, y) \<Rightarrow> push_pad x y =
           (of_nat (n + 110 + name_room (length nm + 1)),
            out @ nm @ NUL # replicate (gap 4 (110 + (length nm + 1))) NUL)" (is ?plain)
proof -
  let ?m = "n + (110 + (length nm + 1))"
  have gap: "gap 4 ?m = gap 4 (110 + (length nm + 1))" by (rule gap_shift [OF assms])
  have len: "?m + gap 4 ?m = n + 110 + name_room (length nm + 1)"
    unfolding gap using name_room_gap [of "length nm + 1"] by linarith
  have str: "push_string nm (of_nat (n + 110), out) = (of_nat ?m, out @ nm @ [NUL])"
    by (simp add: push_string_def)
  have pad: "push_pad (of_nat ?m) (out @ nm @ [NUL]) =
      (of_nat (n + 110 + name_room (length nm + 1)),
       out @ nm @ NUL # replicate (gap 4 (110 + (length nm + 1))) NUL)"
    unfolding push_pad_of_nat len unfolding gap by simp
  show ?plain using str pad by (simp only: prod.case)
  have "(110 + (length nm + 1)) mod 4 = ?m mod 4" using mod4_shift [OF assms] by metis
  then show ?rest
    using rest_pad_push_pad [of "110 + (length nm + 1)" ?m "out @ nm @ [NUL]"] pad
    by (simp only: push_rest_def str prod.case CPIO_HEADER_SIZE_def)
qed

lemma write_cpio_entry:
  assumes "entry_fits raw h nm b" and "n mod 4 = 0"
  shows "write_cpio raw h (of_nat n, out) =
           Inr (of_nat (n + length (entry_bytes h nm b)), out @ entry_bytes h nm b)"
proof -
  have fit: "fields_fit h" using assms(1) by (simp add: entry_fits_def)
  let ?m = "n + 110 + name_room (length nm + 1)"
  let ?o = "out @ header_text h @ nm @ NUL # replicate (gap 4 (110 + (length nm + 1))) NUL"
  have m: "?m mod 4 = 0" using mod4_shift [OF assms(2)] name_room_mod [of "length nm + 1"]
    by (simp only: add.assoc)
  have len: "of_nat ?m + h_body_len h = of_nat (?m + length b)"
    using assms(1) u64_eq_of_nat [of "h_body_len h" "length b"] by (simp add: entry_fits_def)
  have body: "push_pad (of_nat ?m + h_body_len h) (?o @ b) =
      (of_nat (n + length (entry_bytes h nm b)), out @ entry_bytes h nm b)"
    unfolding len push_pad_of_nat using gap_shift [OF m, of "length b"]
    by (simp only: length_entry_bytes(1) [OF fit]) (simp add: entry_bytes_def)
  have empty: "(of_nat ?m :: u64, ?o) = (of_nat (n + length (entry_bytes h nm b)), out @ entry_bytes h nm b)"
    if "b = []"
    using that by (simp only: length_entry_bytes(1) [OF fit]) (simp add: entry_bytes_def add.assoc)
  have b0: "h_body_len h = 0 \<longleftrightarrow> b = []"
    using assms(1) by (auto simp: entry_fits_def unat_eq_0 [symmetric] simp del: unat_eq_0)
  note push = push_hdr_entry [OF fit] push_name(1) [OF assms(2), of nm "out @ header_text h"]
  obtain x y where str: "push_string nm (of_nat (n + 110), out @ header_text h) = (x, y)"
    by (metis surj_pair)
  have pad: "push_pad x y = (of_nat ?m, ?o)"
    using push_name(2) [OF assms(2), of nm "out @ header_text h"] str by simp
  have name: "cstr raw (unat (h_name h)) = Some nm" using assms(1) by (simp add: entry_fits_def)
  consider "is_special (h_mode h)" "b = []" | "\<not> is_special (h_mode h)" "b = []"
    | "\<not> is_special (h_mode h)" "b \<noteq> []" "rd raw (unat (h_body h)) (unat (h_body_len h)) = Some b"
    using assms(1) by (auto simp: entry_fits_def)
  then show ?thesis
  proof cases
    case 1
    then show ?thesis
      unfolding write_cpio_def Let_def push(1) name using empty [OF 1(2)]
      by (simp only: option.case if_True push(2) append_assoc)
  next
    case 2
    then show ?thesis
      unfolding write_cpio_def Let_def push name option.case str prod.case pad
      using b0 empty by (simp only: if_False simp_thms not_True_eq_False)
  next
    case 3
    then show ?thesis
      unfolding write_cpio_def Let_def push name option.case str prod.case pad
      using b0 body by (simp only: if_False if_True simp_thms option.case)
  qed
qed

section \<open>Reading an entry\<close>

lemma starts_with_length: "starts_with p s \<Longrightarrow> length p \<le> length s"
  unfolding starts_with_def by (metis length_take min.cobounded1)

lemma memcmp_at_of_nat:
  assumes "length A < 2 ^ 64"
  shows "memcmp_at (A @ C) (of_nat (length A)) p =
           (if length p \<le> length C then Inr (starts_with p C) else Inl Oob)"
  by (simp add: memcmp_at_def rd_def unat_of_nat_u64 [OF assms] starts_with_def)

lemma round_up4: "k + 3 - (k + 3) mod 4 = k + gap 4 (k :: nat)"
proof -
  obtain q r where k: "k = 4 * q + r" and "r < 4"
    by (metis mod_less_divisor mult_div_mod_eq zero_less_numeral)
  then have "r \<in> {0, 1, 2, 3}" by auto
  then show ?thesis by (elim insertE) (simp_all add: k mod_simps mod_Suc)
qed

lemma offset_after_placed:
  assumes "fields_fit h" and "n mod 4 = 0" and "n + length (entry_bytes h nm b) < 2 ^ 63"
    and "unat (h_name_len h) = length nm + 1" and "unat (h_body_len h) = length b"
  shows "of_nat n + 110 + N_ALIGN (h_name_len (placed n h)) + h_body_len (placed n h) =
           of_nat (n + 110 + name_room (length nm + 1) + length b)"
    and "offset_after (of_nat n) (placed n h) = of_nat (n + length (entry_bytes h nm b))"
proof -
  let ?m = "n + (110 + name_room (length nm + 1))"
  have N: "N_ALIGN (h_name_len h) = of_nat (name_room (length nm + 1))"
    using N_ALIGN_of_nat [of "length nm + 1"] u64_eq_of_nat [OF assms(4)] assms(1,4)
    by (simp add: fields_fit_def)
  show 1: "of_nat n + 110 + N_ALIGN (h_name_len (placed n h)) + h_body_len (placed n h) =
      of_nat (n + 110 + name_room (length nm + 1) + length b)"
    using N u64_eq_of_nat [OF assms(5)] by (simp add: placed_def)
  have m: "?m mod 4 = 0" using mod4_shift [OF assms(2)] name_room_mod by metis
  have up: "?m + length b + 3 - (?m + length b + 3) mod 4 = ?m + (length b + gap 4 (length b))"
    using round_up4 [of "?m + length b"] gap_shift [OF m, of "length b"] by (simp only: add.assoc)
  have "offset_after (of_nat n) (placed n h) = (of_nat (?m + length b + 3) :: u64) AND NOT 3"
    unfolding offset_after_def 1 by (simp add: add.assoc)
  also have "\<dots> = of_nat (?m + length b + 3 - (?m + length b + 3) mod 4)"
    using assms(3) length_entry_bytes(1) [OF assms(1), of nm b] by (intro u64_and_not_3_of_nat) simp
  also have "\<dots> = of_nat (n + length (entry_bytes h nm b))"
    unfolding up length_entry_bytes(1) [OF assms(1)] by (simp only: add.assoc)
  finally show "offset_after (of_nat n) (placed n h) = of_nat (n + length (entry_bytes h nm b))" .
qed

text \<open>The reader at the start of an entry, up to the test for the trailer.\<close>

lemma read_cpio_turn_entry:
  assumes fit: "fields_fit h" and A: "length A mod 4 = 0"
    and len: "unat (h_name_len h) = length nm + 1" "unat (h_body_len h) = length b"
    and raw: "raw = A @ entry_bytes h nm b @ C" "length raw < 2 ^ 63" "116 \<le> length raw"
  shows "read_cpio_turn raw (of_nat (length raw)) (of_nat (length A)) hs =
           (if starts_with CPIO_TRAILER nm
            then Inr (align512 (of_nat (length A + length (entry_bytes h nm b))), hs, True)
            else Inr (of_nat (length A + length (entry_bytes h nm b)), hs @ [placed (length A) h], False))"
proof -
  let ?n = "length A" and ?h = "placed (length A) h" and ?sz = "of_nat (length raw) :: u64"
  let ?e = "?n + 110 + name_room (length nm + 1) + length b"
  have total: "?n + length (entry_bytes h nm b) \<le> length raw" using raw(1) by simp
  then have e: "?e \<le> length raw" "?n + 110 \<le> length raw"
    unfolding length_entry_bytes(1) [OF fit] by linarith+
  have magic: "memcmp_at raw (of_nat ?n) CPIO_FORMAT_OLDASCII = Inr False"
    "memcmp_at raw (of_nat ?n) CPIO_FORMAT_NEWASCII = Inr True"
    using raw(1,2) by (simp_all add: memcmp_at_of_nat starts_with_def entry_bytes_def header_text_fields cpio_consts)
  have parse: "parse_header raw (of_nat ?n) = Inr ?h"
    using parse_header_text [OF fit, of A] e(2) raw(1,2) by (simp add: entry_bytes_def)
  note place = offset_after_placed [OF fit A _ len]
  have off: "of_nat ?n + 110 + N_ALIGN (h_name_len ?h) + h_body_len ?h = of_nat ?e"
    "offset_after (of_nat ?n) ?h = of_nat (?n + length (entry_bytes h nm b))"
    using place total raw(2) by simp_all
  have bound: "\<not> ?sz < of_nat k" if "k \<le> length raw" for k
    using u64_of_nat_less [of "length raw" k] that raw(2) by simp
  have checks: "\<not> ?sz < 116" "\<not> ?sz < of_nat ?n + 110"
    using bound [OF raw(3)] bound [OF e(2)] by simp_all
  have name0: "h_name_len ?h \<noteq> 0" using len(1) by (auto simp: placed_def)
  have trailer: "is_trailer raw ?h = Inr (starts_with CPIO_TRAILER nm)"
  proof -
    have "memcmp_at ((A @ header_text h) @ nm @ X) (of_nat (length (A @ header_text h))) CPIO_TRAILER =
        Inr (starts_with CPIO_TRAILER nm)" if "length CPIO_TRAILER \<le> length nm" for X
      using that e(2) raw(2) header_text_length [OF fit]
      by (subst memcmp_at_of_nat) (simp_all add: starts_with_def)
    moreover have "h_name ?h = of_nat (length (A @ header_text h))"
      using header_text_length [OF fit] by (simp add: placed_def)
    moreover have "unat (h_name_len ?h) = length nm + 1" using len(1) by (simp add: placed_def)
    ultimately show ?thesis
      using starts_with_length [of CPIO_TRAILER nm]
      by (auto simp: is_trailer_def raw(1) entry_bytes_def)
  qed
  show ?thesis
    using read_cpio_turn_accepts [OF checks(1) magic checks(2) parse name0 _ _ trailer, of hs]
      bound [OF e(1)] bound [OF total] by (simp only: off simp_thms)
qed

section \<open>Whole archives\<close>

type_synonym entry = "cpio_header \<times> string \<times> string"

abbreviation entry_ok :: "mem \<Rightarrow> entry \<Rightarrow> bool" where
  "entry_ok raw e \<equiv> (case e of (h, nm, b) \<Rightarrow> entry_fits raw h nm b)"

abbreviation entries_bytes :: "entry list \<Rightarrow> string" where
  "entries_bytes es \<equiv> concat (map (\<lambda>(h, nm, b). entry_bytes h nm b) es)"

lemma entries_bytes_mod: "list_all (entry_ok raw) es \<Longrightarrow> length (entries_bytes es) mod 4 = 0"
proof (induction es)
  case (Cons e es)
  then show ?case
    by (cases e) (auto simp: entry_fits_def mod4_shift length_entry_bytes(2))
qed simp

lemma write_entries:
  assumes "list_all (entry_ok raw) es" and "n mod 4 = 0"
  shows "fold_res (write_cpio raw) (map fst es) (of_nat n, out) =
           Inr (of_nat (n + length (entries_bytes es)), out @ entries_bytes es)"
  using assms
proof (induction es arbitrary: n out)
  case (Cons e es)
  obtain h nm b where e: "e = (h, nm, b)" by (cases e)
  with Cons.prems have fit: "entry_fits raw h nm b" and es: "list_all (entry_ok raw) es" by simp_all
  have "(n + length (entry_bytes h nm b)) mod 4 = 0"
    using fit Cons.prems(2) by (simp add: mod4_shift length_entry_bytes(2) entry_fits_def)
  from Cons.IH [OF es this, of "out @ entry_bytes h nm b"] show ?case
    unfolding e by (simp only: list.map fst_conv fold_res.simps bind_res.simps
        write_cpio_entry [OF fit Cons.prems(2)] concat.simps prod.case length_append append_assoc add.assoc)
qed simp

text \<open>The trailer is an entry too, followed by zeros.\<close>

lemma trailer_entry:
  "fields_fit trailer_header" "unat (h_name_len trailer_header) = length CPIO_TRAILER + 1"
  "unat (h_body_len trailer_header) = length ([] :: string)"
  by (simp_all add: fields_fit_def trailer_header_def CPIO_TRAILER_def)

lemma length_trailer_entry: "length (entry_bytes trailer_header CPIO_TRAILER []) = 124"
  by (simp add: length_entry_bytes(1) [OF trailer_entry(1)] CPIO_TRAILER_def name_room_def)

lemma write_trailer_bytes:
  assumes "n mod 4 = 0"
  shows "write_trailer (of_nat n, out) =
           (of_nat (n + 124 + gap 512 (n + 124)),
            out @ entry_bytes trailer_header CPIO_TRAILER [] @ replicate (gap 512 (n + 124)) NUL)"
proof -
  have "n + 110 + name_room (length CPIO_TRAILER + 1) = n + 124"
    by (simp add: CPIO_TRAILER_def name_room_def)
  then have "push_rest CPIO_TRAILER (push_hdr (header_text trailer_header) (of_nat n, out)) =
      (of_nat (n + 124), out @ entry_bytes trailer_header CPIO_TRAILER [])"
    by (simp only: push_hdr_entry [OF trailer_entry(1)] push_name(1) [OF assms])
      (simp add: entry_bytes_def)
  then show ?thesis by (simp only: write_trailer_def Let_def prod.case pad512_of_nat append_assoc)
qed

text \<open>The headers the reader lists for entries that start at offset \<open>n\<close>.\<close>

fun places :: "nat \<Rightarrow> entry list \<Rightarrow> cpio_header list" where
  "places n [] = []"
| "places n ((h, nm, b) # es) = placed n h # places (n + length (entry_bytes h nm b)) es"

text \<open>The header \<open>h'\<close> of the archive \<open>out\<close> has the numbers, the name and the body of an entry.\<close>

definition reads_back :: "mem \<Rightarrow> entry \<Rightarrow> cpio_header \<Rightarrow> bool" where
  "reads_back out e h' \<longleftrightarrow> (case e of (h, nm, b) \<Rightarrow>
     h' = h\<lparr>h_rdev := new_encode_dev (MKDEV (h_rmajor h) (h_rminor h)),
            h_name := h_name h', h_body := h_body h'\<rparr> \<and>
     cstr out (unat (h_name h')) = Some nm \<and> rd out (unat (h_body h')) (unat (h_body_len h')) = Some b)"

lemma placed_reads_back:
  assumes "entry_fits raw h nm b" and "out = A @ entry_bytes h nm b @ C" and "length out < 2 ^ 63"
  shows "reads_back out (h, nm, b) (placed (length A) h)"
proof -
  have fit: "fields_fit h" and len: "unat (h_name_len h) = length nm + 1" "unat (h_body_len h) = length b"
    and nul: "NUL \<notin> set nm"
    using assms(1) cstr_no_NUL by (auto simp: entry_fits_def)
  have size: "length A + 110 + name_room (length nm + 1) + length b \<le> length out"
    unfolding assms(2) using length_entry_bytes(1) [OF fit, of nm b] by simp
  let ?g = "gap 4 (110 + (length nm + 1))"
  have start: "unat (of_nat (length A + 110) :: u64) = length (A @ header_text h)"
    "unat (of_nat (length A + 110 + name_room (length nm + 1)) :: u64) =
       length (A @ header_text h @ nm @ NUL # replicate ?g NUL)"
    using size assms(3) header_text_length [OF fit] name_room_gap [of "length nm + 1"]
    by (subst unat_of_nat_u64; simp)+
  have out: "out = (A @ header_text h) @ nm @ NUL # (replicate ?g NUL @ b @ replicate (gap 4 (length b)) NUL @ C)"
    "out = (A @ header_text h @ nm @ NUL # replicate ?g NUL) @ b @ (replicate (gap 4 (length b)) NUL @ C)"
    using assms(2) by (simp_all add: entry_bytes_def)
  have "cstr out (unat (of_nat (length A + 110) :: u64)) = Some nm"
    by (subst out(1)) (rule cstr_append_middle [OF start(1) nul])
  moreover have "rd out (unat (of_nat (length A + 110 + name_room (length nm + 1)) :: u64)) (length b) = Some b"
    by (subst out(2)) (rule rd_append_middle [OF start(2) refl])
  ultimately show ?thesis unfolding reads_back_def placed_def prod.case len by (simp add: len)
qed

lemma places_read_back:
  assumes "list_all (entry_ok raw) es" and "out = A @ entries_bytes es @ C" and "length out < 2 ^ 63"
  shows "list_all2 (reads_back out) es (places (length A) es)"
  using assms
proof (induction es arbitrary: A)
  case (Cons e es)
  obtain h nm b where e: "e = (h, nm, b)" by (cases e)
  from Cons.prems have "reads_back out (h, nm, b) (placed (length A) h)"
    by (intro placed_reads_back [where raw = raw and C = "entries_bytes es @ C"]) (simp_all add: e)
  moreover have "list_all2 (reads_back out) es (places (length (A @ entry_bytes h nm b)) es)"
    using Cons.prems by (intro Cons.IH) (simp_all add: e)
  ultimately show ?case by (simp add: e)
qed simp

lemma read_entries:
  assumes "list_all (entry_ok raw) es" and "length A mod 4 = 0"
    and "out = A @ entries_bytes es @ entry_bytes trailer_header CPIO_TRAILER [] @ C"
    and "length out < 2 ^ 63" and "116 \<le> length out"
  shows "read_cpio_loop out (of_nat (length out)) (of_nat (length A)) hs =
           Some (Inr (align512 (of_nat (length (A @ entries_bytes es) + 124)), hs @ places (length A) es))"
  using assms
proof (induction es arbitrary: A hs)
  case Nil
  have turn: "read_cpio_turn out (of_nat (length out)) (of_nat (length A)) hs =
      Inr (align512 (of_nat (length A + 124)), hs, True)"
    using read_cpio_turn_entry [OF trailer_entry(1) Nil.prems(2) trailer_entry(2,3) _ Nil.prems(4,5)]
      Nil.prems(3) by (simp add: length_trailer_entry starts_with_def)
  have "(of_nat (length A) :: u64) < of_nat (length out)"
    using Nil.prems(3,4) length_trailer_entry by (subst u64_of_nat_less) simp_all
  then show ?case by (subst read_cpio_loop.simps) (simp add: turn)
next
  case (Cons e es)
  obtain h nm b where e: "e = (h, nm, b)" by (cases e)
  let ?B = "entry_bytes h nm b"
  from Cons.prems(1) have fits: "entry_fits raw h nm b" by (simp add: e)
  then have fit: "fields_fit h" and len: "unat (h_name_len h) = length nm + 1" "unat (h_body_len h) = length b"
    and nt: "\<not> starts_with CPIO_TRAILER nm" by (auto simp: entry_fits_def)
  have "out = A @ ?B @ (entries_bytes es @ entry_bytes trailer_header CPIO_TRAILER [] @ C)"
    using Cons.prems(3) by (simp add: e)
  from read_cpio_turn_entry [OF fit Cons.prems(2) len this Cons.prems(4,5)] nt
  have turn: "read_cpio_turn out (of_nat (length out)) (of_nat (length A)) hs =
      Inr (of_nat (length (A @ ?B)), hs @ [placed (length A) h], False)"
    by (simp only: if_False length_append)
  have "(of_nat (length A) :: u64) < of_nat (length out)"
    using Cons.prems(3,4) length_trailer_entry by (subst u64_of_nat_less) simp_all
  moreover have "length (A @ ?B) mod 4 = 0"
    using Cons.prems(2) length_entry_bytes(2) [OF fit] by (simp add: mod4_shift)
  then have "read_cpio_loop out (of_nat (length out)) (of_nat (length (A @ ?B))) (hs @ [placed (length A) h]) =
      Some (Inr (align512 (of_nat (length ((A @ ?B) @ entries_bytes es) + 124)),
                 (hs @ [placed (length A) h]) @ places (length (A @ ?B)) es))"
    using Cons.prems by (intro Cons.IH) (simp_all add: e)
  ultimately show ?case
    by (subst read_cpio_loop.simps) (simp only: turn if_True if_False sum.case prod.case, simp add: e add.assoc)
qed

lemma length_entry_bytes_le:
  "entry_fits raw h nm b \<Longrightarrow> length (entry_bytes h nm b) \<le> 117 + length nm + length b"
  using length_entry_bytes(1) [of h nm b] name_room_le [of "length nm + 1"]
    mod_less_divisor [of 4 "4 - length b mod 4"]
  unfolding entry_fits_def by linarith

lemma length_entries_bytes_le:
  "list_all (entry_ok raw) es \<Longrightarrow>
     length (entries_bytes es) \<le> sum_list (map (\<lambda>(h, nm, b). 117 + length nm + length b) es)"
proof (induction es)
  case (Cons e es)
  then show ?case using length_entry_bytes_le by (cases e) fastforce
qed simp

text \<open>An archive with the entries \<open>es\<close>: what writing them and the trailer produces.\<close>

definition archive_of :: "entry list \<Rightarrow> string" where
  "archive_of es =
     entries_bytes es @ entry_bytes trailer_header CPIO_TRAILER [] @
     replicate (gap 512 (length (entries_bytes es) + 124)) NUL"

lemma archive_of_length:
  "length (archive_of es) = length (entries_bytes es) + 124 + gap 512 (length (entries_bytes es) + 124)"
  by (simp only: archive_of_def length_append length_trailer_entry length_replicate)

lemma archive_of_length_mod: "length (archive_of es) mod 512 = 0"
  unfolding archive_of_length by (rule gap_add) simp

lemma write_archive:
  assumes "list_all (entry_ok raw) es"
  shows "fold_res (write_cpio raw) (map fst es) (0, []) = Inr (of_nat (length (entries_bytes es)), entries_bytes es)"
    and "write_trailer (of_nat (length (entries_bytes es)), entries_bytes es) =
           (of_nat (length (archive_of es)), archive_of es)"
  using write_entries [OF assms, of 0 "[]"]
    write_trailer_bytes [OF entries_bytes_mod [OF assms], of "entries_bytes es"]
  by (simp_all only: archive_of_length) (simp_all add: archive_of_def)

lemma read_archive:
  assumes "list_all (entry_ok raw) es" and "length (archive_of es @ rest) < 2 ^ 63"
  shows "read_cpio (archive_of es @ rest) (of_nat (length (archive_of es @ rest))) =
           Some (Inr (of_nat (length (archive_of es)), places 0 es))"
proof -
  let ?out = "archive_of es @ rest"
  have "116 \<le> length ?out" by (simp only: length_append archive_of_length)
  then have "read_cpio_loop ?out (of_nat (length ?out)) (of_nat (length ([] :: string))) [] =
      Some (Inr (align512 (of_nat (length ([] @ entries_bytes es) + 124)), [] @ places (length ([] :: string)) es))"
    using assms(2) by (intro read_entries [OF assms(1)]) (simp_all add: archive_of_def)
  then show ?thesis
    by (simp only: read_cpio_def append_Nil align512_of_nat archive_of_length list.size semiring_1_class.of_nat_0)
qed

lemma archive_reads_back:
  assumes "list_all (entry_ok raw) es" and "length (archive_of es @ rest) < 2 ^ 63"
  shows "list_all2 (reads_back (archive_of es @ rest)) es (places 0 es)"
  using places_read_back [OF assms(1), of "archive_of es @ rest" "[]"] assms(2)
  by (simp add: archive_of_def)

lemma archive_of_length_le:
  "list_all (entry_ok raw) es \<Longrightarrow>
     length (archive_of es) < sum_list (map (\<lambda>(h, nm, b). 117 + length nm + length b) es) + 1024"
  using length_entries_bytes_le [of raw es] mod_less_divisor [of 512 "512 - (length (entries_bytes es) + 124) mod 512"]
  unfolding archive_of_length by linarith

text \<open>A one-entry archive: the file \<open>a\<close> with the body \<open>bc\<close>.\<close>

definition sample_entry :: entry where
  "sample_entry =
     (trailer_header\<lparr>h_mode := 0x81A4, h_name_len := 2, h_body_len := 2, h_body := 2\<rparr>, ''a'', ''bc'')"

lemma sample_entry_ok: "list_all (entry_ok (''a'' @ NUL # ''bc'')) [sample_entry]"
  by (simp add: sample_entry_def trailer_header_def entry_fits_def fields_fit_def cstr_def rd_def
      starts_with_def CPIO_TRAILER_def is_special_def S_IFMT_def S_IFBLK_def S_IFCHR_def S_IFDIR_def
      S_IFIFO_def S_IFSOCK_def)

text \<open>
  C1: the writer and the reader agree. For headers with a name and a body in memory whose
  numbers fit the eight digits of a field, and whose names do not begin with the end marker,
  \<open>write_cpio\<close> on each and then \<open>write_trailer\<close> succeed, keep \<open>offset\<close> equal to the number
  of bytes written and end on a multiple of 512; and \<open>read_cpio\<close> on those bytes returns after the last
  one, with one header per entry, in order, whose numbers are those written and whose name and body
  offsets lead to the name and the body.
\<close>

theorem cpio_write_read:
  assumes "list_all (\<lambda>(h, nm, b). entry_fits raw h nm b) es"
    and "sum_list (map (\<lambda>(h, nm, b). 117 + length nm + length b) es) + 1024 < (2 ^ 63 :: nat)"
  shows "\<exists>st out hs.
           fold_res (write_cpio raw) (map fst es) (0, []) = Inr st \<and>
           write_trailer st = (of_nat (length out), out) \<and> length out mod 512 = 0 \<and>
           read_cpio out (of_nat (length out)) = Some (Inr (of_nat (length out), hs)) \<and>
           list_all2 (reads_back out) es hs"
proof (intro exI conjI)
  have small: "length (archive_of es @ []) < 2 ^ 63"
    using archive_of_length_le [OF assms(1)] assms(2) by simp
  show "read_cpio (archive_of es) (of_nat (length (archive_of es))) =
      Some (Inr (of_nat (length (archive_of es)), places 0 es))"
    using read_archive [OF assms(1) small] by simp
  show "list_all2 (reads_back (archive_of es)) es (places 0 es)"
    using archive_reads_back [OF assms(1) small] by simp
qed (rule write_archive [OF assms(1)] archive_of_length_mod)+

theorem cpio_write_read_witness:
  "\<exists>st out hs.
     fold_res (write_cpio (''a'' @ NUL # ''bc'')) (map fst [sample_entry]) (0, []) = Inr st \<and>
     write_trailer st = (of_nat (length out), out) \<and> length out mod 512 = 0 \<and>
     read_cpio out (of_nat (length out)) = Some (Inr (of_nat (length out), hs)) \<and>
     list_all2 (reads_back out) [sample_entry] hs"
  by (rule cpio_write_read [OF sample_entry_ok]) (simp add: sample_entry_def)

section \<open>Properties of the reader\<close>

text \<open>
  C3: in an archive of less than \<open>2^63\<close> bytes, each header \<open>read_cpio\<close> accepts whose two lengths fit
  eight hexadecimal digits has its name after a header, the whole name before its body, and the
  whole body inside the archive: the offsets handed to the later passes stay in the mapping.
\<close>

theorem read_cpio_headers_inside:
  assumes "read_cpio raw sz = Some (Inr (off, hs))" and "unat sz < 2 ^ 63"
    and "h \<in> set hs" and "plain_lengths h"
  shows "header_inside sz h"
  using read_cpio_loop_inside [OF assms(1) [unfolded read_cpio_def] assms(2)] assms(3,4) by simp

definition sample_archive :: mem where
  "sample_archive =
     entries_bytes [sample_entry] @ entry_bytes trailer_header CPIO_TRAILER [] @ replicate 272 NUL"

lemma sample_archive_length: "length sample_archive = 512"
  using sample_entry_ok length_entry_bytes(1) [of "fst sample_entry" "''a''" "''bc''"] length_trailer_entry
  by (simp add: sample_archive_def sample_entry_def entry_fits_def name_room_def)

lemma sample_archive_read:
  "read_cpio sample_archive 512 = Some (Inr (align512 240, [placed 0 (fst sample_entry)]))"
  using read_entries [OF sample_entry_ok, of "[]" sample_archive "replicate 272 NUL" "[]"]
    length_entry_bytes(1) [of "fst sample_entry" "''a''" "''bc''"] sample_entry_ok
  by (simp add: read_cpio_def sample_archive_length sample_archive_def [symmetric])
    (simp add: sample_archive_def sample_entry_def entry_fits_def name_room_def)

theorem read_cpio_headers_inside_witness:
  "header_inside 512 (placed 0 (fst sample_entry))"
  by (rule read_cpio_headers_inside [OF sample_archive_read])
    (simp_all add: plain_lengths_def placed_def sample_entry_def trailer_header_def)

text \<open>
  C5: \<open>read_cpio\<close> returns on every archive of less than \<open>2^63\<close> bytes in which the two
  length fields behind each magic number have plain values (below \<open>2^32\<close>), whatever else it holds.
\<close>

theorem read_cpio_returns:
  assumes "plain_archive raw" and "unat sz < 2 ^ 63"
  shows "\<exists>r. read_cpio raw sz = Some r"
  unfolding read_cpio_def by (rule read_cpio_loop_returns [OF assms])

definition bare_fields :: "string list" where
  "bare_fields = replicate 11 zero_field @ [''00000001'', zero_field]"

definition bare_header :: mem where
  "bare_header = CPIO_FORMAT_NEWASCII @ concat bare_fields @ replicate 18 NUL"

lemma bare_header_magic:
  "filter (\<lambda>i. rd bare_header i CPIO_FORMAT_LENGTH = Some CPIO_FORMAT_NEWASCII) [0..<length bare_header] = [0]"
  by code_simp

lemma bare_header_plain: "plain_archive bare_header"
proof -
  have "set (filter (\<lambda>i. rd bare_header i CPIO_FORMAT_LENGTH = Some CPIO_FORMAT_NEWASCII)
      [0..<length bare_header]) = {0}" by (simp only: bare_header_magic) simp
  then have only: "i = 0" if "i < length bare_header"
      "rd bare_header i CPIO_FORMAT_LENGTH = Some CPIO_FORMAT_NEWASCII" for i
    using that by auto
  have "hdr_field bare_header 0 i = strtoul_val (bare_fields ! i @ [NUL]) 16" if "i < 13" for i
    using hdr_field_fields [of bare_fields i "[]"] that
    by (simp add: bare_header_def bare_fields_def zero_field_def list_all_iff)
  then have "hdr_field bare_header 0 11 = 1" "hdr_field bare_header 0 6 = 0"
    using looping_fields_values by (simp_all add: bare_fields_def nth_append)
  then show ?thesis using only by (fastforce simp: plain_archive_def list_all_iff)
qed

theorem read_cpio_returns_witness: "\<exists>r. read_cpio bare_header 128 = Some r"
  by (rule read_cpio_returns [OF bare_header_plain]) simp

end
