(* ===== verification/Decompress.thy ===== *)
theory Decompress
  imports CLib
begin

unbundle bit_operations_syntax

text \<open>
  The decompressors of \<open>utils/initrd-decompress*.c\<close>: the table of formats with
  \<open>decompress_method\<close>, and the four wrappers \<open>gunzip\<close>, \<open>bunzip2\<close>, \<open>unlzma\<close> and \<open>unzstd\<close>
  around the compression libraries. The libraries are parameters: a stream state of any type, and the
  function that codes one buffer. A wrapper returns \<open>None\<close> when its loop does not end; \<open>realloc\<close> is
  assumed to succeed. Callers pass an empty output and \<open>*inread = 0\<close>.
\<close>

section \<open>The table of formats\<close>

datatype decompress_fn = Gunzip | Bunzip2 | Unlzma | Unzstd

text \<open>Which libraries the program was built with (\<open>HAVE_GZIP\<close> and the others).\<close>

record build_config =
  have_gzip :: bool
  have_bzip2 :: bool
  have_lzma :: bool
  have_zstd :: bool

record compress_format =
  cf_magic :: "string"
  cf_name :: string
  cf_decompressor :: "decompress_fn option"

definition cf :: "string \<Rightarrow> string \<Rightarrow> decompress_fn option \<Rightarrow> compress_format" where
  "cf mg nm d = \<lparr>cf_magic = mg, cf_name = nm, cf_decompressor = d\<rparr>"

definition compressed_formats :: "build_config \<Rightarrow> compress_format list" where
  "compressed_formats c =
     (if have_gzip c then
        [cf [CHR 0x1F, CHR 0x8B] ''gzip'' (Some Gunzip), cf [CHR 0x1F, CHR 0x9E] ''gzip'' (Some Gunzip)]
      else []) @
     (if have_bzip2 c then [cf [CHR 0x42, CHR 0x5A] ''bzip2'' (Some Bunzip2)] else []) @
     (if have_lzma c then
        [cf [CHR 0x5D, CHR 0x00] ''lzma'' None, cf [CHR 0xFD, CHR 0x37] ''xz'' (Some Unlzma)]
      else []) @
     (if have_zstd c then [cf [CHR 0x28, CHR 0xB5] ''zstd'' (Some Unzstd)] else []) @
     [cf [CHR 0x89, CHR 0x4C] ''lzo'' None, cf [CHR 0x02, CHR 0x21] ''lz4'' None]"

text \<open>
  \<open>decompress_method\<close>: the decompressor and the name of the format of the first two bytes;
  no name when the loop runs to the end of the table. \<open>len\<close> is the size of \<open>inbuf\<close>.
\<close>

definition decompress_method ::
  "build_config \<Rightarrow> string \<Rightarrow> u64 \<Rightarrow> decompress_fn option \<times> string option" where
  "decompress_method c inbuf len =
     (if len < 2 then (None, None)
      else (case List.find (\<lambda>f. take 2 inbuf = cf_magic f) (compressed_formats c) of
              None \<Rightarrow> (None, None)
            | Some f \<Rightarrow> (cf_decompressor f, Some (cf_name f))))"

section \<open>The chunk loop of gzip, bzip2 and lzma\<close>

datatype code_ret = RetOk | RetStreamEnd | RetError

datatype decomp_status = DECOMP_OK | DECOMP_FAIL

definition CHUNK :: nat where "CHUNK = 0x4000"

text \<open>
  The loop \<open>do ... while (!strm.avail_out)\<close>: each turn gives the library a buffer of \<open>CHUNK\<close> bytes
  and appends what it wrote there. The result is the last return code, the output and the stream state.
\<close>

partial_function (option) unpack_loop ::
  "('s \<Rightarrow> nat \<Rightarrow> code_ret \<times> string \<times> 's) \<Rightarrow> 's \<Rightarrow> string \<Rightarrow> (code_ret \<times> string \<times> 's) option" where
  "unpack_loop code s out =
     (case code s CHUNK of (ret, obuf, s') \<Rightarrow>
        if ret = RetError then Some (ret, out, s')
        else if CHUNK - length obuf = 0 then unpack_loop code s' (out @ obuf)
        else Some (ret, out @ obuf, s'))"

text \<open>
  A wrapper: \<open>init\<close> is the library's initialisation on the input (\<open>None\<close> when it fails), and
  \<open>total_in\<close> reads the number of bytes consumed. The result is the status, the output and \<open>*inread\<close>.
\<close>

definition unpack_with ::
  "(string \<Rightarrow> 's option) \<Rightarrow> ('s \<Rightarrow> nat \<Rightarrow> code_ret \<times> string \<times> 's) \<Rightarrow> ('s \<Rightarrow> u64) \<Rightarrow> string \<Rightarrow>
   (decomp_status \<times> string \<times> u64) option" where
  "unpack_with init code total_in inp =
     (case init inp of
        None \<Rightarrow> Some (DECOMP_FAIL, [], 0)
      | Some s \<Rightarrow>
          map_option
            (\<lambda>(ret, out, s'). (if ret = RetStreamEnd then DECOMP_OK else DECOMP_FAIL, out, total_in s'))
            (unpack_loop code s []))"

text \<open>\<open>avail_in\<close> of zlib and bzip2 is an \<open>unsigned int\<close>: the length of the input is cut to 32 bits.\<close>

definition avail_in_u32 :: "string \<Rightarrow> string" where
  "avail_in_u32 inp = take (length inp mod 2 ^ 32) inp"

definition gunzip ::
  "(string \<Rightarrow> 's option) \<Rightarrow> ('s \<Rightarrow> nat \<Rightarrow> code_ret \<times> string \<times> 's) \<Rightarrow> ('s \<Rightarrow> u64) \<Rightarrow> string \<Rightarrow>
   (decomp_status \<times> string \<times> u64) option" where
  "gunzip inflateInit2 inflate total_in inp = unpack_with inflateInit2 inflate total_in (avail_in_u32 inp)"


definition unlzma ::
  "(string \<Rightarrow> 's option) \<Rightarrow> ('s \<Rightarrow> nat \<Rightarrow> code_ret \<times> string \<times> 's) \<Rightarrow> ('s \<Rightarrow> u64) \<Rightarrow> string \<Rightarrow>
   (decomp_status \<times> string \<times> u64) option" where
  "unlzma lzma_stream_decoder lzma_code total_in inp = unpack_with lzma_stream_decoder lzma_code total_in inp"

section \<open>The loop of zstd\<close>





section \<open>The chunk loop delivers the stream\<close>

text \<open>
  The documented behaviour of a library: \<open>plain s\<close> is what is still to come from the state \<open>s\<close>. A
  call writes as much of it as the buffer takes; it reports the end of the stream when there
  was less than a buffer left, also in a call after the end, and no error before.
\<close>

definition codec_serves :: "('s \<Rightarrow> nat \<Rightarrow> code_ret \<times> string \<times> 's) \<Rightarrow> ('s \<Rightarrow> string) \<Rightarrow> bool" where
  "codec_serves code plain \<longleftrightarrow>
     (\<forall>s. case code s CHUNK of (r, obuf, s') \<Rightarrow>
            obuf = take CHUNK (plain s) \<and> plain s' = drop CHUNK (plain s) \<and>
            (if length (plain s) < CHUNK then r = RetStreamEnd else r \<noteq> RetError))"

lemma unpack_loop_serves:
  assumes "codec_serves code plain"
  shows "\<exists>s'. unpack_loop code s out = Some (RetStreamEnd, out @ plain s, s')"
proof (induction "length (plain s)" arbitrary: s out rule: less_induct)
  case less
  obtain r obuf s' where code: "code s CHUNK = (r, obuf, s')" by (cases "code s CHUNK")
  with assms have serves: "obuf = take CHUNK (plain s)" "plain s' = drop CHUNK (plain s)"
      "if length (plain s) < CHUNK then r = RetStreamEnd else r \<noteq> RetError"
    unfolding codec_serves_def by (auto dest!: spec [of _ s])
  show ?case
  proof (cases "length (plain s) < CHUNK")
    case True
    then show ?thesis using serves by (subst unpack_loop.simps) (simp add: code)
  next
    case False
    then have "length (plain s') < length (plain s)"
      using serves(2) by (simp add: CHUNK_def)
    from less [OF this, of "out @ obuf"] show ?thesis
      using serves False by (subst unpack_loop.simps) (simp add: code)
  qed
qed

text \<open>
  C20: \<open>gunzip\<close> and \<open>unlzma\<close> return the whole stream and success, whatever its length, when the
  library behaves as documented and the input of \<open>gunzip\<close> is below \<open>2^32\<close> bytes: no output of a
  chunk is lost, also when the stream ends exactly at the end of a chunk.
\<close>

theorem unpack_delivers:
  assumes "codec_serves code plain" and "init inp = Some s" and "length inp < 2 ^ 32"
  shows "(\<exists>n. gunzip init code total_in inp = Some (DECOMP_OK, plain s, n)) \<and>
         (\<exists>n. unlzma init code total_in inp = Some (DECOMP_OK, plain s, n))"
  using unpack_loop_serves [OF assms(1), of s "[]"] assms(2,3)
  by (auto simp: gunzip_def unlzma_def unpack_with_def avail_in_u32_def)

text \<open>A stored stream: the state is what is left of it.\<close>

definition stored :: "string \<Rightarrow> nat \<Rightarrow> code_ret \<times> string \<times> string" where
  "stored s n = (if length s < n then RetStreamEnd else RetOk, take n s, drop n s)"

theorem unpack_delivers_witness:
  "(\<exists>n. gunzip Some stored (\<lambda>_. 3) ''abc'' = Some (DECOMP_OK, ''abc'', n)) \<and>
   (\<exists>n. unlzma Some stored (\<lambda>_. 3) ''abc'' = Some (DECOMP_OK, ''abc'', n))"
  using unpack_delivers [of stored "\<lambda>s. s" Some "''abc''" "''abc''" "\<lambda>_. 3"]
  by (simp add: codec_serves_def stored_def)

section \<open>Two ends of stream the wrappers miss\<close>







end
