(* ===== verification/InitrdParse.thy ===== *)
theory InitrdParse
  imports CpioRoundtrip Decompress
begin

unbundle bit_operations_syntax

text \<open>
  The parser of a whole initrd, \<open>read_stream\<close> of \<open>utils/initrd-parse.c\<close>: an initrd is a sequence of
  cpio archives and compressed streams, which are unpacked and parsed in turn, with an optional
  boot configuration at the end. A stream is its memory \<open>buf\<close> and its size; a pointer into it is
  an offset. The decompressors are the parameter \<open>unpack\<close>, whose values the theory of the
  decompressors describes; \<open>None\<close> is a run that does not return.
\<close>

section \<open>Data\<close>

datatype cpio_type = CPIO_UNKNOWN | CPIO_ARCHIVE | CPIO_BOOTCONFIG

text \<open>\<open>struct cpio\<close>: \<open>c_mem\<close> is the memory from the pointer \<open>raw\<close> on.\<close>

record cpio =
  c_type :: cpio_type
  c_compress :: "string option"
  c_mem :: mem
  c_size :: u64
  c_headers :: "cpio_header list"

record parse_result =
  r_streams :: "string list"
  r_cpios :: "cpio list"

datatype parse_error =
    DecompressorFailed
  | BootconfigTooBig
  | CpioFailed cpio_error
  | ParseOob

definition BOOTCONFIG_MAGIC :: string where "BOOTCONFIG_MAGIC = ''#BOOTCONFIG'' @ [CHR 0x0A]"
definition BOOTCONFIG_MAGIC_LEN :: nat where "BOOTCONFIG_MAGIC_LEN = 12"

section \<open>The boot configuration\<close>

text \<open>\<open>memcmp\<close> of the magic at \<open>addr + size - BOOTCONFIG_MAGIC_LEN - i\<close>.\<close>

definition magic_at :: "mem \<Rightarrow> u64 \<Rightarrow> nat \<Rightarrow> parse_error + bool" where
  "magic_at buf sz i =
     (if unat sz < BOOTCONFIG_MAGIC_LEN + i then Inl ParseOob
      else (case rd buf (unat sz - BOOTCONFIG_MAGIC_LEN - i) BOOTCONFIG_MAGIC_LEN of
              None \<Rightarrow> Inl ParseOob
            | Some s \<Rightarrow> Inr (s = BOOTCONFIG_MAGIC)))"

text \<open>The \<open>for\<close> loop over the last places the magic may be at.\<close>

fun find_bootconfig :: "mem \<Rightarrow> u64 \<Rightarrow> nat list \<Rightarrow> parse_error + nat option" where
  "find_bootconfig buf sz [] = Inr None"
| "find_bootconfig buf sz (i # is) =
     bind_res (magic_at buf sz i) (\<lambda>t.
       if t then Inr (Some (unat sz - BOOTCONFIG_MAGIC_LEN - i)) else find_bootconfig buf sz is)"

definition le32_at :: "mem \<Rightarrow> nat \<Rightarrow> u32 option" where
  "le32_at buf off =
     (case rd buf off 4 of
        None \<Rightarrow> None
      | Some bs \<Rightarrow> Some (of_nat (foldr (\<lambda>c n. of_char c + 256 * n) bs 0)))"

text \<open>
  The code at \<open>bootconfig:\<close> for a magic at offset \<open>data\<close>: the new size of the stream, which is the
  start of the configuration, and the size of the configuration.
\<close>

definition bootconfig :: "mem \<Rightarrow> u64 \<Rightarrow> nat \<Rightarrow> parse_error + u64 \<times> u32" where
  "bootconfig buf sz data =
     (if data < 8 then Inl ParseOob
      else (case le32_at buf (data - 8) of
              None \<Rightarrow> Inl ParseOob
            | Some bsize \<Rightarrow>
                if ucast bsize > sz then Inl BootconfigTooBig
                else Inr (of_nat (data - 8) - ucast bsize, bsize)))"

text \<open>
  What \<open>read_stream\<close> does before its loop: at the first level it looks for a boot configuration. The
  result is the size of the stream and the configuration as offset and size.
\<close>

definition stream_start :: "nat \<Rightarrow> mem \<Rightarrow> u64 \<Rightarrow> parse_error + u64 \<times> (u64 \<times> u32) option" where
  "stream_start stream_level buf sz =
     (if stream_level = 1 then
        bind_res (find_bootconfig buf sz [0, 1, 2, 3]) (\<lambda>found.
          case found of
            None \<Rightarrow> Inr (sz, None)
          | Some data \<Rightarrow> bind_res (bootconfig buf sz data) (\<lambda>(sz', bsize). Inr (sz', Some (sz', bsize))))
      else Inr (sz, None))"

definition bootconfig_cpio :: "mem \<Rightarrow> u64 \<times> u32 \<Rightarrow> cpio" where
  "bootconfig_cpio buf bc =
     \<lparr>c_type = CPIO_BOOTCONFIG, c_compress = None, c_mem = drop (unat (fst bc)) buf,
      c_size = ucast (snd bc), c_headers = []\<rparr>"

section \<open>The streams\<close>

text \<open>
  The loop of \<open>read_stream\<close> and what follows it. A decompressed stream is parsed by the same code one
  level down, before the loop goes on behind the compressed data.
\<close>

partial_function (option) stream_loop ::
  "(decompress_fn \<Rightarrow> string \<Rightarrow> (decomp_status \<times> string \<times> u64) option) \<Rightarrow> build_config \<Rightarrow> nat \<Rightarrow>
   string option \<Rightarrow> mem \<Rightarrow> u64 \<Rightarrow> (u64 \<times> u32) option \<Rightarrow> u64 \<Rightarrow> parse_result \<Rightarrow>
   (parse_error + parse_result) option" where
  "stream_loop unpack cfg stream_level compress buf sz bc offset res =
     (if offset < sz then
        if sz - offset \<ge> 2 \<and> rd buf (unat offset) 2 = None then Some (Inl ParseOob)
        else (case decompress_method cfg (drop (unat offset) buf) (sz - offset) of
          (Some d, compress_name) \<Rightarrow>
            (case rd buf (unat offset) (unat (sz - offset)) of
               None \<Rightarrow> Some (Inl ParseOob)
             | Some inp \<Rightarrow>
                 Option.bind (unpack d inp) (\<lambda>(st, out, readed).
                   if st \<noteq> DECOMP_OK then Some (Inl DecompressorFailed)
                   else
                     (case stream_start (stream_level + 1) out (of_nat (length out)) of
                        Inl e \<Rightarrow> Some (Inl e)
                      | Inr (sz', bc') \<Rightarrow>
                          Option.bind
                            (stream_loop unpack cfg (stream_level + 1) compress_name out sz' bc' 0
                               (res\<lparr>r_streams := r_streams res @ [out]\<rparr>))
                            (\<lambda>r. case r of
                                   Inl e \<Rightarrow> Some (Inl e)
                                 | Inr res' \<Rightarrow>
                                     stream_loop unpack cfg stream_level compress buf sz bc
                                       (offset + readed) res'))))
        | (None, _) \<Rightarrow>
            Option.bind (read_cpio (drop (unat offset) buf) (sz - offset)) (\<lambda>r.
              case r of
                Inl e \<Rightarrow> Some (Inl (CpioFailed e))
              | Inr (n, hs) \<Rightarrow>
                  stream_loop unpack cfg stream_level compress buf sz bc (offset + n)
                    (res\<lparr>r_cpios := r_cpios res @
                       [\<lparr>c_type = CPIO_ARCHIVE, c_compress = compress, c_mem = drop (unat offset) buf,
                         c_size = sz - offset, c_headers = hs\<rparr>]\<rparr>)))
      else
        Some (Inr (case bc of
                     None \<Rightarrow> res
                   | Some b \<Rightarrow> res\<lparr>r_cpios := r_cpios res @ [bootconfig_cpio buf b]\<rparr>)))"

text \<open>\<open>read_stream\<close> as the programs call it, with \<open>stream_level\<close> 0 before the call.\<close>

definition read_stream ::
  "(decompress_fn \<Rightarrow> string \<Rightarrow> (decomp_status \<times> string \<times> u64) option) \<Rightarrow> build_config \<Rightarrow>
   string \<Rightarrow> mem \<Rightarrow> parse_result \<Rightarrow> (parse_error + parse_result) option" where
  "read_stream unpack cfg compress buf res =
     (case stream_start 1 buf (of_nat (length buf)) of
        Inl e \<Rightarrow> Some (Inl e)
      | Inr (sz, bc) \<Rightarrow> stream_loop unpack cfg 1 (Some compress) buf sz bc 0 res)"

section \<open>The boot configuration is found and cut off\<close>

definition le32_bytes :: "nat \<Rightarrow> string" where
  "le32_bytes n = map char_of [n mod 256, n div 256 mod 256, n div 65536 mod 256, n div 16777216 mod 256]"

lemma le32_bytes_value:
  assumes "n < 2 ^ 32"
  shows "foldr (\<lambda>c k. of_char c + 256 * k) (le32_bytes n) 0 = n"
proof -
  have "foldr (\<lambda>c k. of_char c + 256 * k) (le32_bytes n) 0 =
      n mod 256 + 256 * (n div 256 mod 256 + 256 * (n div 65536 mod 256 + 256 * (n div 16777216 mod 256)))"
    by (simp add: le32_bytes_def)
  moreover have "n div 65536 = n div 256 div 256" "n div 16777216 = n div 256 div 256 div 256"
    by (simp_all add: div_mult2_eq [symmetric])
  moreover have "n div 256 div 256 div 256 mod 256 = n div 256 div 256 div 256"
    using assms by (simp add: div_mult2_eq [symmetric] less_mult_imp_div_less)
  ultimately show ?thesis by (simp only: mod_mult_div_eq)
qed

lemma le32_at_bytes:
  assumes "n < 2 ^ 32"
  shows "le32_at (a @ le32_bytes n @ r) (length a) = Some (of_nat n)"
proof -
  have "rd (a @ le32_bytes n @ r) (length a) 4 = Some (le32_bytes n)"
    by (rule rd_append_middle) (simp_all add: le32_bytes_def)
  then show ?thesis by (simp only: le32_at_def option.case le32_bytes_value [OF assms])
qed

lemma magic_shifted:
  assumes "length t = 12" and "t = drop k BOOTCONFIG_MAGIC @ u" and "0 < k" and "k \<le> 3"
  shows "t \<noteq> BOOTCONFIG_MAGIC"
proof -
  have "k \<in> {1, 2, 3}" using assms(3,4) by auto
  then show ?thesis using assms(2) by (auto simp: BOOTCONFIG_MAGIC_def)
qed

lemma magic_length: "length BOOTCONFIG_MAGIC = 12" "BOOTCONFIG_MAGIC_LEN = 12"
  by (simp_all add: BOOTCONFIG_MAGIC_def BOOTCONFIG_MAGIC_LEN_def)

text \<open>Behind the magic are \<open>k\<close> bytes of padding: only the place \<open>k\<close> matches.\<close>

lemma magic_at_padded:
  assumes "buf = a @ BOOTCONFIG_MAGIC @ pad" and "length buf < 2 ^ 64" and "i \<le> length pad" and "length pad \<le> 3"
  shows "magic_at buf (of_nat (length buf)) i = Inr (i = length pad)"
proof -
  let ?k = "length pad - i"
  have "length buf - 12 - i = length a + ?k" and "12 + i \<le> length buf"
    using assms(1,3) magic_length by simp_all
  moreover have "rd buf (length a + ?k) 12 =
      Some (drop ?k BOOTCONFIG_MAGIC @ take ?k pad)"
  proof -
    have "a @ BOOTCONFIG_MAGIC @ pad =
        (a @ take ?k BOOTCONFIG_MAGIC) @ (drop ?k BOOTCONFIG_MAGIC @ take ?k pad) @ drop ?k pad"
      by (simp only: append_assoc append_take_drop_id) (simp only: append_assoc [symmetric] append_take_drop_id)
    moreover have "length (a @ take ?k BOOTCONFIG_MAGIC) = length a + ?k"
      "length (drop ?k BOOTCONFIG_MAGIC @ take ?k pad) = 12"
      using assms(3,4) magic_length(1) by auto
    ultimately show ?thesis unfolding assms(1) by (metis rd_append_middle)
  qed
  moreover have "drop ?k BOOTCONFIG_MAGIC @ take ?k pad = BOOTCONFIG_MAGIC \<longleftrightarrow> i = length pad"
    using magic_shifted [of "drop ?k BOOTCONFIG_MAGIC @ take ?k pad" ?k] assms(3,4) magic_length(1)
    by (cases "?k = 0") auto
  ultimately show ?thesis
    using assms(2) by (simp add: magic_at_def unat_of_nat_u64 magic_length(2))
qed

lemma find_bootconfig_padded:
  assumes "buf = a @ BOOTCONFIG_MAGIC @ pad" and "length buf < 2 ^ 64" and "length pad \<le> 3"
  shows "find_bootconfig buf (of_nat (length buf)) [0, 1, 2, 3] = Inr (Some (length a))"
proof -
  note at = magic_at_padded [OF assms(1,2) _ assms(3)]
  have len: "unat (of_nat (length buf) :: u64) = length a + 12 + length pad"
    unfolding unat_of_nat_u64 [OF assms(2)] using assms(1) magic_length(1) by simp
  consider "length pad = 0" | "length pad = 1" | "length pad = 2" | "length pad = 3"
    using assms(3) by linarith
  then show ?thesis
    by cases (simp_all add: at len magic_length(2))
qed

text \<open>
  C14: a boot configuration behind an initrd is found and cut off. When the initrd is followed by the
  bytes of the configuration, its length, a checksum, the magic and up to three bytes of
  alignment, \<open>read_stream\<close> keeps exactly the initrd as the stream to parse, and the entry it adds to
  the list of archives holds exactly the bytes of the configuration.
\<close>

theorem bootconfig_cut_off:
  assumes "buf = initrd @ conf @ le32_bytes (length conf) @ csum @ BOOTCONFIG_MAGIC @ pad"
    and "length csum = 4" and "length pad \<le> 3" and "length conf < 2 ^ 32" and "length buf < 2 ^ 63"
  shows "\<exists>bc. stream_start 1 buf (of_nat (length buf)) = Inr (of_nat (length initrd), Some bc) \<and>
           c_type (bootconfig_cpio buf bc) = CPIO_BOOTCONFIG \<and>
           rd (c_mem (bootconfig_cpio buf bc)) 0 (unat (c_size (bootconfig_cpio buf bc))) = Some conf"
proof -
  let ?a = "initrd @ conf @ le32_bytes (length conf) @ csum"
  have le4: "length (le32_bytes (length conf)) = 4" by (simp add: le32_bytes_def)
  have find: "find_bootconfig buf (of_nat (length buf)) [0, 1, 2, 3] = Inr (Some (length ?a))"
    using assms by (intro find_bootconfig_padded [where pad = pad]) simp_all
  have at: "le32_at buf (length ?a - 8) = Some (of_nat (length conf))"
    using le32_at_bytes [OF assms(4), of "initrd @ conf" "csum @ BOOTCONFIG_MAGIC @ pad"] assms(1,2) le4
    by simp
  have uc: "ucast (of_nat (length conf) :: u32) = (of_nat (length conf) :: u64)"
    using unat_of_nat_u32 [OF assms(4)] assms(4)
    by (intro u64_eq_of_nat) (simp add: unsigned_ucast_eq take_bit_nat_eq_self)
  have "bootconfig buf (of_nat (length buf)) (length ?a) =
      Inr (of_nat (length initrd), of_nat (length conf))"
    using at assms(1,2,5) le4 uc u64_of_nat_less [of "length buf" "length conf"]
    by (simp add: bootconfig_def)
  with find have start: "stream_start 1 buf (of_nat (length buf)) =
      Inr (of_nat (length initrd), Some (of_nat (length initrd), of_nat (length conf)))"
    by (simp add: stream_start_def)
  have "length initrd < 2 ^ 64" "length conf < 2 ^ 64" using assms(1,5) by auto
  then have "rd (drop (unat (of_nat (length initrd) :: u64)) buf) 0 (unat (ucast (of_nat (length conf) :: u32) :: u64)) =
      Some conf"
    using assms(1) unfolding uc by (simp add: rd_def unat_of_nat_u64)
  with start show ?thesis by (auto simp: bootconfig_cpio_def)
qed

theorem bootconfig_cut_off_witness:
  "\<exists>bc. stream_start 1 (''initrd'' @ ''k=v'' @ le32_bytes (length ''k=v'') @ ''csum'' @ BOOTCONFIG_MAGIC @ [NUL])
          (of_nat (length (''initrd'' @ ''k=v'' @ le32_bytes (length ''k=v'') @ ''csum'' @ BOOTCONFIG_MAGIC @ [NUL]))) =
            Inr (of_nat (length ''initrd''), Some bc) \<and>
     c_type (bootconfig_cpio (''initrd'' @ ''k=v'' @ le32_bytes (length ''k=v'') @ ''csum'' @ BOOTCONFIG_MAGIC @ [NUL]) bc) =
       CPIO_BOOTCONFIG \<and>
     rd (c_mem (bootconfig_cpio (''initrd'' @ ''k=v'' @ le32_bytes (length ''k=v'') @ ''csum'' @ BOOTCONFIG_MAGIC @ [NUL]) bc)) 0
       (unat (c_size (bootconfig_cpio (''initrd'' @ ''k=v'' @ le32_bytes (length ''k=v'') @ ''csum'' @ BOOTCONFIG_MAGIC @ [NUL]) bc))) =
       Some ''k=v''"
  by (rule bootconfig_cut_off [OF refl]) (simp_all add: le32_bytes_def BOOTCONFIG_MAGIC_def)

section \<open>What the checks of the boot configuration miss\<close>

text \<open>A configuration of 20 bytes announced in a file of 20 bytes, which has no room for it.\<close>

definition short_bootconfig :: mem where
  "short_bootconfig = le32_bytes 20 @ ''csum'' @ BOOTCONFIG_MAGIC"

text \<open>
  C29: the boot configuration code leaves the file on short input. A file of fewer than twelve bytes is
  read before its start; and since the announced size is compared with the size of the file alone, not
  counting the 20 bytes of length, checksum and magic, a file may get through the check with a
  configuration that starts before it, after which the size of the stream is \<open>2^64 - 20\<close>.
\<close>

theorem bootconfig_checks_miss:
  "(length buf < 12 \<longrightarrow> stream_start 1 buf (of_nat (length buf)) = Inl ParseOob) \<and>
   stream_start 1 short_bootconfig (of_nat (length short_bootconfig)) = Inr (- 20, Some (- 20, 20))"
proof
  show "length buf < 12 \<longrightarrow> stream_start 1 buf (of_nat (length buf)) = Inl ParseOob"
    by (simp add: stream_start_def magic_at_def unat_of_nat_u64 magic_length(2))
  have len: "length short_bootconfig = 20"
    by (simp add: short_bootconfig_def le32_bytes_def BOOTCONFIG_MAGIC_def)
  have "find_bootconfig short_bootconfig (of_nat (length short_bootconfig)) [0, 1, 2, 3] =
      Inr (Some (length (le32_bytes 20 @ ''csum'')))"
    using len by (intro find_bootconfig_padded [where pad = "[]"]) (simp_all add: short_bootconfig_def)
  moreover have "length (le32_bytes 20 @ ''csum'') = 8" by (simp add: le32_bytes_def)
  moreover have "le32_at short_bootconfig 0 = Some 20"
    using le32_at_bytes [of 20 "[]" "''csum'' @ BOOTCONFIG_MAGIC"] by (simp add: short_bootconfig_def)
  ultimately show "stream_start 1 short_bootconfig (of_nat (length short_bootconfig)) =
      Inr (- 20, Some (- 20, 20))"
    by (simp add: stream_start_def bootconfig_def len)
qed

theorem bootconfig_checks_miss_witness:
  "stream_start 1 ''0707'' (of_nat (length ''0707'')) = Inl ParseOob \<and>
   stream_start 1 short_bootconfig (of_nat (length short_bootconfig)) = Inr (- 20, Some (- 20, 20))"
  using bootconfig_checks_miss [of "''0707''"] by simp

section \<open>Every archive stays inside its stream\<close>

text \<open>The headers of an archive can be followed: name and body are in the memory behind \<open>raw\<close>.\<close>

definition cpio_inside :: "cpio \<Rightarrow> bool" where
  "cpio_inside c \<longleftrightarrow>
     c_type c = CPIO_ARCHIVE \<longrightarrow>
       list_all (\<lambda>h. plain_lengths h \<longrightarrow>
          rd (c_mem c) (unat (h_name h)) (unat (h_name_len h)) \<noteq> None \<and>
          rd (c_mem c) (unat (h_body h)) (unat (h_body_len h)) \<noteq> None) (c_headers c)"

lemma archive_inside:
  assumes "read_cpio m sz = Some (Inr (n, hs))" and "unat sz \<le> length m" and "length m < 2 ^ 63"
  shows "cpio_inside \<lparr>c_type = CPIO_ARCHIVE, c_compress = cn, c_mem = m, c_size = sz, c_headers = hs\<rparr>"
proof -
  have "\<forall>h \<in> set hs. plain_lengths h \<longrightarrow> header_inside sz h"
    using read_cpio_loop_inside [OF assms(1) [unfolded read_cpio_def]] assms(2,3) by simp
  then show ?thesis
    using assms(2) by (fastforce simp: cpio_inside_def list_all_iff header_inside_def rd_def)
qed

lemma bootconfig_inside: "cpio_inside (bootconfig_cpio buf b)"
  by (simp add: cpio_inside_def bootconfig_cpio_def)

lemma stream_loop_inside:
  assumes "stream_loop unpack cfg lvl compress buf sz bc off res = Some r" and "r = Inr res'"
    and "1 \<le> lvl" and "\<forall>d inp st out n. unpack d inp = Some (st, out, n) \<longrightarrow> length out < 2 ^ 63"
    and "unat sz \<le> length buf" and "length buf < 2 ^ 63" and "list_all cpio_inside (r_cpios res)"
  shows "list_all cpio_inside (r_cpios res')"
proof -
  let ?P = "\<lambda>unpack cfg lvl compress buf sz bc off res r.
    1 \<le> lvl \<longrightarrow> (\<forall>d inp st out n. unpack d inp = Some (st, out, n) \<longrightarrow> length out < 2 ^ 63) \<longrightarrow>
    unat sz \<le> length buf \<longrightarrow> length buf < 2 ^ 63 \<longrightarrow> list_all cpio_inside (r_cpios res) \<longrightarrow>
    (\<forall>res'. r = Inr res' \<longrightarrow> list_all cpio_inside (r_cpios res'))"
  have "?P unpack cfg lvl compress buf sz bc off res r"
  proof (rule stream_loop.raw_induct [where P = ?P, OF _ assms(1)], goal_cases)
    case (1 loop unpack cfg lvl compress buf sz bc off res r)
    note IH = 1(1) and turn = 1(2)
    show ?case
    proof (intro impI allI)
      fix res'
      assume lvl: "1 \<le> lvl" and un: "\<forall>d inp st out n. unpack d inp = Some (st, out, n) \<longrightarrow> length out < 2 ^ 63"
        and sz: "unat sz \<le> length buf" and buf: "length buf < 2 ^ 63"
        and res: "list_all cpio_inside (r_cpios res)" and r: "r = Inr res'"
      show "list_all cpio_inside (r_cpios res')"
      proof (cases "off < sz")
        case False
        with turn r res show ?thesis by (auto simp: bootconfig_inside split: option.splits)
      next
        case True
        obtain md nm where md: "decompress_method cfg (drop (unat off) buf) (sz - off) = (md, nm)" by fastforce
        have minus: "unat (sz - off) = unat sz - unat off"
          using True by (simp add: unat_sub word_less_nat_alt order.strict_implies_order word_le_nat_alt)
        show ?thesis
        proof (cases md)
          case None
          with turn r True md obtain n hs where
            rc: "read_cpio (drop (unat off) buf) (sz - off) = Some (Inr (n, hs))" and
            next': "loop unpack cfg lvl compress buf sz bc (off + n)
              (res\<lparr>r_cpios := r_cpios res @
                 [\<lparr>c_type = CPIO_ARCHIVE, c_compress = compress, c_mem = drop (unat off) buf,
                   c_size = sz - off, c_headers = hs\<rparr>]\<rparr>) = Some r"
            by (cases "read_cpio (drop (unat off) buf) (sz - off)")
              (auto split: if_split_asm sum.split_asm)
          from archive_inside [OF rc] minus sz buf have
            "cpio_inside \<lparr>c_type = CPIO_ARCHIVE, c_compress = compress, c_mem = drop (unat off) buf,
                   c_size = sz - off, c_headers = hs\<rparr>" by simp
          with IH [OF next'] lvl un sz buf res r show ?thesis by simp
        next
          case (Some d)
          with turn r True md obtain inp out rn res1 where
            un1: "unpack d inp = Some (DECOMP_OK, out, rn)" and
            rec: "loop unpack cfg (lvl + 1) nm out (of_nat (length out)) None 0
              (res\<lparr>r_streams := r_streams res @ [out]\<rparr>) = Some (Inr res1)" and
            next': "loop unpack cfg lvl compress buf sz bc (off + rn) res1 = Some r"
            using lvl
            by (auto split: if_split_asm sum.split_asm option.split_asm simp: bind_eq_Some_conv stream_start_def)
              (metis sum.exhaust)+
          from un un1 have "length out < 2 ^ 63" by blast
          with IH [OF rec] lvl un res have "list_all cpio_inside (r_cpios res1)"
            by (simp add: unat_of_nat_u64)
          with IH [OF next'] lvl un sz buf r show ?thesis by simp
        qed
      qed
    qed
  qed
  with assms(2-) show ?thesis by blast
qed

section \<open>An initrd of several segments\<close>

text \<open>
  An initrd as it is put together: archives as they are, and compressed data with the archives
  inside. A segment of compressed data has the decompressor and the format name of its first bytes.
\<close>

datatype segment = Plain "entry list" | Packed decompress_fn string string "entry list list"

fun segment_bytes :: "segment \<Rightarrow> string" where
  "segment_bytes (Plain es) = archive_of es"
| "segment_bytes (Packed d nm blob ess) = blob"

text \<open>The archives of a segment with the name of their compression.\<close>

fun segment_archives :: "string \<Rightarrow> segment \<Rightarrow> (string \<times> entry list) list" where
  "segment_archives cn (Plain es) = [(cn, es)]"
| "segment_archives cn (Packed d nm blob ess) = map (\<lambda>es. (nm, es)) ess"

fun segment_ok ::
  "(decompress_fn \<Rightarrow> string \<Rightarrow> (decomp_status \<times> string \<times> u64) option) \<Rightarrow> build_config \<Rightarrow> mem \<Rightarrow> segment \<Rightarrow> bool" where
  "segment_ok unpack cfg raw (Plain es) \<longleftrightarrow> list_all (entry_ok raw) es"
| "segment_ok unpack cfg raw (Packed d nm blob ess) \<longleftrightarrow>
     2 \<le> length blob \<and> decompress_method cfg blob 2 = (Some d, Some nm) \<and>
     (\<forall>rest. unpack d (blob @ rest) =
        Some (DECOMP_OK, concat (map archive_of ess), of_nat (length blob))) \<and>
     length (concat (map archive_of ess)) < 2 ^ 63 \<and> list_all (list_all (entry_ok raw)) ess"

text \<open>The parsed archive \<open>c\<close> has the entries \<open>es\<close> and came from compression \<open>cn\<close>.\<close>

definition holds_archive :: "string \<times> entry list \<Rightarrow> cpio \<Rightarrow> bool" where
  "holds_archive a c \<longleftrightarrow>
     c_type c = CPIO_ARCHIVE \<and> c_compress c = Some (fst a) \<and>
     list_all2 (reads_back (c_mem c)) (snd a) (c_headers c)"

lemma archive_of_magic: "take 2 (archive_of es @ rest) = ''07''"
proof (cases es)
  case (Cons e es')
  then show ?thesis
    by (cases e) (simp add: archive_of_def entry_bytes_def header_text_def CPIO_FORMAT_NEWASCII_def)
qed (simp add: archive_of_def entry_bytes_def header_text_def CPIO_FORMAT_NEWASCII_def)

lemma decompress_method_archive: "decompress_method cfg (archive_of es @ rest) len = (None, None)"
  by (simp add: decompress_method_def archive_of_magic compressed_formats_def cf_def del: take_append)

lemma decompress_method_blob:
  "2 \<le> length blob \<Longrightarrow> 2 \<le> len \<Longrightarrow> decompress_method cfg (blob @ rest) len = decompress_method cfg blob 2"
  using leD [of 2 len] by (simp add: decompress_method_def)

text \<open>The remaining size at an offset is the length of what is left.\<close>

lemma u64_diff_of_nat: "(of_nat (length (A @ B)) :: u64) - of_nat (length A) = of_nat (length B)"
  by simp

lemma stream_loop_archive:
  assumes "list_all (entry_ok raw) es" and "length (A @ archive_of es @ rest) < 2 ^ 63"
  shows "\<exists>c. holds_archive (cn, es) c \<and>
     stream_loop unpack cfg lvl (Some cn) (A @ archive_of es @ rest) (of_nat (length (A @ archive_of es @ rest))) bc
       (of_nat (length A)) res =
     stream_loop unpack cfg lvl (Some cn) (A @ archive_of es @ rest) (of_nat (length (A @ archive_of es @ rest))) bc
       (of_nat (length (A @ archive_of es))) (res\<lparr>r_cpios := r_cpios res @ [c]\<rparr>)"
proof -
  let ?B = "archive_of es @ rest" and ?buf = "A @ archive_of es @ rest"
  let ?c = "\<lparr>c_type = CPIO_ARCHIVE, c_compress = Some cn, c_mem = ?B, c_size = of_nat (length ?B),
             c_headers = places 0 es\<rparr>"
  have len: "124 \<le> length (archive_of es)" by (simp only: archive_of_length)
  have small: "length ?B < 2 ^ 63" "length A < 2 ^ 64" "length ?buf < 2 ^ 64" using assms(2) by simp_all
  have off: "unat (of_nat (length A) :: u64) = length A" using small(2) by (rule unat_of_nat_u64)
  have "(of_nat (length A) :: u64) < of_nat (length ?buf)"
    using small(2,3) len by (subst u64_of_nat_less) auto
  moreover have "rd ?buf (length A) 2 \<noteq> None" using len by (simp add: rd_def)
  moreover have "holds_archive (cn, es) ?c"
    using archive_reads_back [OF assms(1) small(1)] by (simp add: holds_archive_def)
  moreover have "of_nat (length A) + of_nat (length (archive_of es)) = (of_nat (length (A @ archive_of es)) :: u64)"
    by simp
  ultimately show ?thesis
    using read_archive [OF assms(1) small(1)]
    by (subst stream_loop.simps)
      (auto simp only: off if_True if_False u64_diff_of_nat append_eq_append_conv_if drop_append diff_self_eq_0 drop0
         decompress_method_archive prod.case option.case sum.case bind.bind_lunit simp_thms append_Nil
         drop_all order_refl intro!: exI [of _ ?c])
qed

lemma stream_loop_archives:
  assumes "list_all (list_all (entry_ok raw)) ess" and "buf = A @ concat (map archive_of ess) @ rest"
    and "length buf < 2 ^ 63"
  shows "\<exists>cs. list_all2 holds_archive (map (\<lambda>es. (cn, es)) ess) cs \<and>
     stream_loop unpack cfg lvl (Some cn) buf (of_nat (length buf)) bc (of_nat (length A)) res =
     stream_loop unpack cfg lvl (Some cn) buf (of_nat (length buf)) bc
       (of_nat (length (A @ concat (map archive_of ess)))) (res\<lparr>r_cpios := r_cpios res @ cs\<rparr>)"
  using assms
proof (induction ess arbitrary: A res)
  case (Cons es ess)
  have buf: "buf = A @ archive_of es @ (concat (map archive_of ess) @ rest)" using Cons.prems(2) by simp
  have "list_all (entry_ok raw) es" using Cons.prems(1) by simp
  from stream_loop_archive [OF this, of A "concat (map archive_of ess) @ rest"] Cons.prems(3) buf
  obtain c where c: "holds_archive (cn, es) c"
    "stream_loop unpack cfg lvl (Some cn) buf (of_nat (length buf)) bc (of_nat (length A)) res =
     stream_loop unpack cfg lvl (Some cn) buf (of_nat (length buf)) bc
       (of_nat (length (A @ archive_of es))) (res\<lparr>r_cpios := r_cpios res @ [c]\<rparr>)"
    by metis
  have "buf = (A @ archive_of es) @ concat (map archive_of ess) @ rest" using buf by simp
  with Cons.IH [of "A @ archive_of es" "res\<lparr>r_cpios := r_cpios res @ [c]\<rparr>"] Cons.prems(1,3)
  obtain cs where "list_all2 holds_archive (map (\<lambda>es. (cn, es)) ess) cs"
    "stream_loop unpack cfg lvl (Some cn) buf (of_nat (length buf)) bc
       (of_nat (length (A @ archive_of es))) (res\<lparr>r_cpios := r_cpios res @ [c]\<rparr>) =
     stream_loop unpack cfg lvl (Some cn) buf (of_nat (length buf)) bc
       (of_nat (length ((A @ archive_of es) @ concat (map archive_of ess))))
       (res\<lparr>r_cpios := r_cpios res @ [c] @ cs\<rparr>)"
    by auto
  with c show ?case by (intro exI [of _ "c # cs"]) simp
qed auto

lemma stream_loop_end:
  "stream_loop unpack cfg lvl cn buf sz None sz res = Some (Inr res)"
  by (subst stream_loop.simps) simp

lemma stream_loop_packed:
  assumes "segment_ok unpack cfg raw (Packed d nm blob ess)" and "buf = A @ blob @ rest"
    and "length buf < 2 ^ 63" and "1 \<le> lvl"
  shows "\<exists>cs ss. list_all2 holds_archive (map (\<lambda>es. (nm, es)) ess) cs \<and>
     stream_loop unpack cfg lvl (Some cn) buf (of_nat (length buf)) bc (of_nat (length A)) res =
     stream_loop unpack cfg lvl (Some cn) buf (of_nat (length buf)) bc (of_nat (length (A @ blob)))
       (res\<lparr>r_streams := ss, r_cpios := r_cpios res @ cs\<rparr>)"
proof -
  let ?plain = "concat (map archive_of ess)"
  let ?ss = "r_streams res @ [?plain]"
  from assms(1) have blob: "2 \<le> length blob" "decompress_method cfg blob 2 = (Some d, Some nm)"
    "unpack d (blob @ rest) = Some (DECOMP_OK, ?plain, of_nat (length blob))"
    "length ?plain < 2 ^ 63" "list_all (list_all (entry_ok raw)) ess" by auto
  obtain cs where cs: "list_all2 holds_archive (map (\<lambda>es. (nm, es)) ess) cs"
    "stream_loop unpack cfg (lvl + 1) (Some nm) ?plain (of_nat (length ?plain)) None (of_nat (length ([] :: string)))
       (res\<lparr>r_streams := ?ss\<rparr>) =
     stream_loop unpack cfg (lvl + 1) (Some nm) ?plain (of_nat (length ?plain)) None
       (of_nat (length ([] @ ?plain))) (res\<lparr>r_streams := ?ss, r_cpios := r_cpios res @ cs\<rparr>)"
    using stream_loop_archives [OF blob(5), of ?plain "[]" "[]" nm unpack cfg "lvl + 1" None
        "res\<lparr>r_streams := ?ss\<rparr>"] blob(4) by auto
  then have inner: "stream_loop unpack cfg (lvl + 1) (Some nm) ?plain (of_nat (length ?plain)) None 0
      (res\<lparr>r_streams := ?ss\<rparr>) = Some (Inr (res\<lparr>r_streams := ?ss, r_cpios := r_cpios res @ cs\<rparr>))"
    by (simp only: append_Nil stream_loop_end list.size semiring_1_class.of_nat_0)
  have off: "unat (of_nat (length A) :: u64) = length A" "unat (of_nat (length (blob @ rest)) :: u64) = length (blob @ rest)"
    using assms(2,3) by (intro unat_of_nat_u64; simp)+
  have lt: "(of_nat (length A) :: u64) < of_nat (length buf)"
    using assms(2,3) blob(1) by (subst u64_of_nat_less) auto
  have diff: "of_nat (length buf) - of_nat (length A) = (of_nat (length (blob @ rest)) :: u64)"
    using assms(2) by simp
  have "(2 :: u64) \<le> of_nat (length (blob @ rest))"
    using off(2) blob(1) by (simp only: word_le_nat_alt) simp
  then have meth: "decompress_method cfg (blob @ rest) (of_nat (length (blob @ rest))) = (Some d, Some nm)"
    using decompress_method_blob [OF blob(1)] blob(2) by simp
  have rds: "rd buf (length A) 2 \<noteq> None" "rd buf (length A) (length (blob @ rest)) = Some (blob @ rest)"
    "drop (length A) buf = blob @ rest"
    using assms(2) blob(1) by (simp_all add: rd_def)
  have start: "stream_start (lvl + 1) ?plain (of_nat (length ?plain)) = Inr (of_nat (length ?plain), None)"
    using assms(4) by (simp add: stream_start_def)
  have add: "of_nat (length A) + of_nat (length blob) = (of_nat (length (A @ blob)) :: u64)" by simp
  have "stream_loop unpack cfg lvl (Some cn) buf (of_nat (length buf)) bc (of_nat (length A)) res =
     stream_loop unpack cfg lvl (Some cn) buf (of_nat (length buf)) bc (of_nat (length (A @ blob)))
       (res\<lparr>r_streams := ?ss, r_cpios := r_cpios res @ cs\<rparr>)"
    by (subst stream_loop.simps)
      (simp only: lt if_True off diff rds simp_thms if_False meth prod.case option.case blob(3)
        bind.bind_lunit start sum.case inner add)
  with cs(1) show ?thesis by blast
qed

lemma stream_loop_segments:
  assumes "list_all (segment_ok unpack cfg raw) segs" and "buf = A @ concat (map segment_bytes segs)"
    and "length buf < 2 ^ 63" and "1 \<le> lvl"
  shows "\<exists>cs ss. list_all2 holds_archive (concat (map (segment_archives cn) segs)) cs \<and>
     stream_loop unpack cfg lvl (Some cn) buf (of_nat (length buf)) None (of_nat (length A)) res =
     Some (Inr (res\<lparr>r_streams := ss, r_cpios := r_cpios res @ cs\<rparr>))"
  using assms
proof (induction segs arbitrary: A res)
  case Nil
  then show ?case
    by (intro exI [of _ "[]"] exI [of _ "r_streams res"]) (simp add: stream_loop_end)
next
  case (Cons seg segs)
  let ?rest = "concat (map segment_bytes segs)"
  have buf: "buf = A @ segment_bytes seg @ ?rest" using Cons.prems(2) by simp
  obtain cs1 ss1 where first: "list_all2 holds_archive (segment_archives cn seg) cs1"
    "stream_loop unpack cfg lvl (Some cn) buf (of_nat (length buf)) None (of_nat (length A)) res =
     stream_loop unpack cfg lvl (Some cn) buf (of_nat (length buf)) None (of_nat (length (A @ segment_bytes seg)))
       (res\<lparr>r_streams := ss1, r_cpios := r_cpios res @ cs1\<rparr>)"
  proof (cases seg)
    case (Plain es)
    have "list_all (list_all (entry_ok raw)) [es]" using Cons.prems(1) Plain by simp
    from stream_loop_archives [OF this, of buf A ?rest cn unpack cfg lvl None res]
    obtain cs where "list_all2 holds_archive [(cn, es)] cs"
      "stream_loop unpack cfg lvl (Some cn) buf (of_nat (length buf)) None (of_nat (length A)) res =
       stream_loop unpack cfg lvl (Some cn) buf (of_nat (length buf)) None (of_nat (length (A @ segment_bytes seg)))
         (res\<lparr>r_cpios := r_cpios res @ cs\<rparr>)"
      using buf Cons.prems(3) Plain by auto
    then show ?thesis using that [of cs "r_streams res"] Plain by simp
  next
    case (Packed d nm blob ess)
    then show ?thesis
      using stream_loop_packed [of unpack cfg raw d nm blob ess buf A ?rest lvl cn None res]
        Cons.prems(1,3,4) buf that by auto
  qed
  have "buf = (A @ segment_bytes seg) @ ?rest" using buf by simp
  with Cons.IH [of "A @ segment_bytes seg" "res\<lparr>r_streams := ss1, r_cpios := r_cpios res @ cs1\<rparr>"] Cons.prems(1,3,4)
  obtain cs2 ss2 where "list_all2 holds_archive (concat (map (segment_archives cn) segs)) cs2"
    "stream_loop unpack cfg lvl (Some cn) buf (of_nat (length buf)) None (of_nat (length (A @ segment_bytes seg)))
       (res\<lparr>r_streams := ss1, r_cpios := r_cpios res @ cs1\<rparr>) =
     Some (Inr (res\<lparr>r_streams := ss2, r_cpios := (r_cpios res @ cs1) @ cs2\<rparr>))"
    by auto
  with first show ?case
    by (intro exI [of _ "cs1 @ cs2"] exI [of _ ss2]) (simp add: list_all2_appendI)
qed

lemma read_stream_segments:
  assumes "list_all (segment_ok unpack cfg raw) segs" and "length (concat (map segment_bytes segs)) < 2 ^ 63"
    and "find_bootconfig (concat (map segment_bytes segs)) (of_nat (length (concat (map segment_bytes segs)))) [0, 1, 2, 3] = Inr None"
  shows "\<exists>res. read_stream unpack cfg cn (concat (map segment_bytes segs)) \<lparr>r_streams = [], r_cpios = []\<rparr> = Some (Inr res) \<and>
     list_all2 holds_archive (concat (map (segment_archives cn) segs)) (r_cpios res)"
  using stream_loop_segments [OF assms(1), of "concat (map segment_bytes segs)" "[]" 1 cn "\<lparr>r_streams = [], r_cpios = []\<rparr>"] assms(2,3)
  by (auto simp: read_stream_def stream_start_def)

text \<open>An archive ends with four zero bytes at least, so it does not end with a boot configuration.\<close>

lemma no_bootconfig:
  assumes "buf = a @ replicate 4 NUL" and "12 \<le> length a" and "length buf < 2 ^ 64"
  shows "find_bootconfig buf (of_nat (length buf)) [0, 1, 2, 3] = Inr None"
proof -
  have "magic_at buf (of_nat (length buf)) i = Inr False" if "i < 4" for i
  proof -
    let ?s = "take 12 (drop (length buf - 12 - i) buf)"
    have len: "length buf = length a + 4" using assms(1) by simp
    have "?s ! 11 = buf ! (length buf - 12 - i + 11)"
      using len assms(2) that by (simp add: nth_take)
    also have "length buf - 12 - i + 11 = length a + (3 - i)" using len assms(2) that by linarith
    also have "buf ! (length a + (3 - i)) = NUL"
      using that unfolding assms(1) nth_append_length_plus by (intro nth_replicate) simp
    finally have "?s ! 11 = NUL" .
    moreover have "BOOTCONFIG_MAGIC ! 11 \<noteq> NUL" by (simp add: BOOTCONFIG_MAGIC_def)
    ultimately have "?s \<noteq> BOOTCONFIG_MAGIC" by metis
    moreover have "12 + i \<le> length buf" using len assms(2) that by simp
    ultimately show ?thesis
      unfolding magic_at_def unat_of_nat_u64 [OF assms(3)] magic_length(2) by (simp add: rd_def)
  qed
  then show ?thesis by simp
qed

lemma archive_no_bootconfig:
  assumes "length (pre @ archive_of es) < 2 ^ 63"
  shows "find_bootconfig (pre @ archive_of es) (of_nat (length (pre @ archive_of es))) [0, 1, 2, 3] = Inr None"
proof -
  have "replicate 4 NUL = NUL # replicate 3 NUL" by (simp add: numeral_eq_Suc)
  then have "entry_bytes trailer_header CPIO_TRAILER [] = (header_text trailer_header @ CPIO_TRAILER) @ replicate 4 NUL"
    by (simp add: entry_bytes_def CPIO_TRAILER_def)
  moreover have "replicate 4 NUL @ replicate n NUL = replicate n NUL @ replicate 4 NUL" for n
    using replicate_add [of 4 n NUL] replicate_add [of n 4 NUL] by (simp add: add.commute)
  ultimately have "pre @ archive_of es =
      (pre @ entries_bytes es @ (header_text trailer_header @ CPIO_TRAILER) @
       replicate (gap 512 (length (entries_bytes es) + 124)) NUL) @ replicate 4 NUL"
    by (simp only: archive_of_def append_assoc)
  then show ?thesis
  proof (rule no_bootconfig)
    show "12 \<le> length (pre @ entries_bytes es @ (header_text trailer_header @ CPIO_TRAILER) @
        replicate (gap 512 (length (entries_bytes es) + 124)) NUL)"
      using header_text_length [OF trailer_entry(1)] by simp
    show "length (pre @ archive_of es) < 2 ^ 64" using assms by simp
  qed
qed

text \<open>
  C7: every archive the parser lists can be followed. When no stream is as long as \<open>2^63\<close> bytes
  and the boot configuration, if any, starts inside the file, then in each archive
  \<open>read_stream\<close> lists, plain or unpacked at any depth, the name and the body of every header with plain lengths
  lie in the memory of the stream the archive is in.
\<close>

theorem read_stream_archives_inside:
  assumes "read_stream unpack cfg cn buf \<lparr>r_streams = [], r_cpios = []\<rparr> = Some (Inr res)"
    and "\<forall>d inp st out n. unpack d inp = Some (st, out, n) \<longrightarrow> length out < 2 ^ 63"
    and "length buf < 2 ^ 63"
    and "stream_start 1 buf (of_nat (length buf)) = Inr (sz, bc)" and "unat sz \<le> length buf"
  shows "list_all cpio_inside (r_cpios res)"
  using stream_loop_inside [of unpack cfg 1 "Some cn" buf sz bc 0 "\<lparr>r_streams = [], r_cpios = []\<rparr>"] assms
  by (auto simp: read_stream_def)

definition plain_build :: build_config where
  "plain_build = \<lparr>have_gzip = False, have_bzip2 = False, have_lzma = False, have_zstd = False\<rparr>"

lemma sample_archive_of: "archive_of [sample_entry] = sample_archive"
  using sample_archive_length
  by (simp add: archive_of_def sample_archive_def length_trailer_entry)

lemma sample_archive_parsed:
  "\<exists>res. read_stream (\<lambda>_ _. None) plain_build ''raw'' sample_archive \<lparr>r_streams = [], r_cpios = []\<rparr> = Some (Inr res) \<and>
     list_all2 holds_archive [(''raw'', [sample_entry])] (r_cpios res)"
  using read_stream_segments [of "\<lambda>_ _. None" plain_build "''a'' @ NUL # ''bc''" "[Plain [sample_entry]]" "''raw''"]
    sample_entry_ok archive_no_bootconfig [of "[]" "[sample_entry]"]
  by (simp add: sample_archive_of sample_archive_length)

theorem read_stream_archives_inside_witness:
  "\<exists>res. read_stream (\<lambda>_ _. None) plain_build ''raw'' sample_archive \<lparr>r_streams = [], r_cpios = []\<rparr> = Some (Inr res) \<and>
     r_cpios res \<noteq> [] \<and> list_all cpio_inside (r_cpios res)"
proof -
  obtain res where res: "read_stream (\<lambda>_ _. None) plain_build ''raw'' sample_archive \<lparr>r_streams = [], r_cpios = []\<rparr> =
      Some (Inr res)" "list_all2 holds_archive [(''raw'', [sample_entry])] (r_cpios res)"
    using sample_archive_parsed by blast
  have "stream_start 1 sample_archive (of_nat (length sample_archive)) = Inr (512, None)"
    using archive_no_bootconfig [of "[]" "[sample_entry]"]
    by (simp add: stream_start_def sample_archive_of sample_archive_length)
  from read_stream_archives_inside [OF res(1) _ _ this] res show ?thesis
    by (auto simp: sample_archive_length)
qed

end
