(* ===== verification/InitrdExtract.thy ===== *)
theory InitrdExtract
  imports InitrdParse
begin

text \<open>
  The program \<open>initrd-extract\<close>: it parses an initrd and writes the entries of all its archives, or
  of the one chosen with \<open>-a\<close>, as one plain archive. \<open>getopt\<close>, the files and \<open>mmap\<close> are not modelled:
  \<open>buf\<close> is the mapped file and the result is what is written to the output.
\<close>

section \<open>The program\<close>

datatype option_error = BadOptionValue

text \<open>\<open>str2int\<close>: decimal digits to the end of the string, cut to an \<open>int\<close>.\<close>

definition str2int :: "string \<Rightarrow> option_error + 32 word" where
  "str2int v =
     (if v = [] then Inl BadOptionValue
      else (case strtoul v 10 of (n, p, _) \<Rightarrow>
              if p \<noteq> [] then Inl BadOptionValue else Inr (ucast n)))"

text \<open>The option \<open>-a\<close>: the number of an archive, from 1.\<close>

definition archive_option :: "string \<Rightarrow> option_error + 32 word" where
  "archive_option v = bind_res (str2int v) (\<lambda>n. if sint n \<le> 0 then Inl BadOptionValue else Inr n)"



section \<open>Entries that were read are written as they were\<close>



section \<open>What is extracted\<close>







end
