(* ===== verification/InitrdLs.thy ===== *)
theory InitrdLs
  imports InitrdParse
begin

unbundle bit_operations_syntax

text \<open>
  The program \<open>initrd-ls\<close>: \<open>preformat\<close> and \<open>show_header\<close> of \<open>utils/initrd-ls/initrd-ls-format.c\<close> and
  the listing of \<open>initrd-ls.c\<close>. The static variables are the record \<open>ls_widths\<close>; what is printed
  is a string. \<open>localtime_r\<close> with \<open>strftime\<close> is the parameter \<open>timbuf\<close>.
\<close>

section \<open>Column widths\<close>

record ls_widths =
  max_nlinks :: nat
  max_size :: nat
  max_uid :: nat
  max_gid :: nat
  max_min :: nat
  max_maj :: nat

definition ls_widths0 :: ls_widths where
  "ls_widths0 = \<lparr>max_nlinks = 1, max_size = 1, max_uid = 1, max_gid = 1, max_min = 1, max_maj = 1\<rparr>"

text \<open>\<open>major\<close> and \<open>minor\<close> of the C library on a 64-bit \<open>dev_t\<close>.\<close>

definition gnu_major :: "u64 \<Rightarrow> u32" where
  "gnu_major dev = ucast ((drop_bit 8 dev AND 0xfff) OR (drop_bit 32 dev AND NOT 0xfff))"

definition gnu_minor :: "u64 \<Rightarrow> u32" where
  "gnu_minor dev = ucast ((dev AND 0xff) OR (drop_bit 12 dev AND NOT 0xff))"

definition is_device :: "cpio_header \<Rightarrow> bool" where
  "is_device h \<longleftrightarrow> h_mode h AND S_IFMT = S_IFCHR \<or> h_mode h AND S_IFMT = S_IFBLK"

abbreviation udec :: "'a :: len word \<Rightarrow> string" where
  "udec w \<equiv> dec_digits (unat w)"

definition dev_major :: "cpio_header \<Rightarrow> string" where "dev_major h = udec (gnu_major (ucast (h_rdev h)))"
definition dev_minor :: "cpio_header \<Rightarrow> string" where "dev_minor h = udec (gnu_minor (ucast (h_rdev h)))"

definition preformat :: "cpio_header \<Rightarrow> ls_widths \<Rightarrow> ls_widths" where
  "preformat h w0 =
     (let w1 = w0\<lparr>max_nlinks := max (max_nlinks w0) (length (udec (h_nlink h)))\<rparr>;
          w2 = w1\<lparr>max_uid := max (max_uid w1) (length (udec (h_uid h)))\<rparr>;
          w3 = w2\<lparr>max_gid := max (max_gid w2) (length (udec (h_gid h)))\<rparr>
      in if is_device h then
           let w4 = w3\<lparr>max_maj := max (max_maj w3) (length (dev_major h))\<rparr>;
               w5 = w4\<lparr>max_min := max (max_min w4) (length (dev_minor h))\<rparr>
           in w5\<lparr>max_size := max (max_size w5) (max_maj w5 + max_min w5 + 1)\<rparr>
         else w3\<lparr>max_size := max (max_size w3) (length (udec (h_body_len h)))\<rparr>)"

section \<open>One line\<close>

text \<open>\<open>%<n>u\<close> with a width: blanks on the left.\<close>

definition pad_left :: "nat \<Rightarrow> string \<Rightarrow> string" where
  "pad_left n s = replicate (n - length s) CHR '' '' @ s"

definition file_type :: "u32 \<Rightarrow> char" where
  "file_type m =
     (if m AND S_IFMT = S_IFBLK then CHR ''b''
      else if m AND S_IFMT = S_IFCHR then CHR ''c''
      else if m AND S_IFMT = S_IFDIR then CHR ''d''
      else if m AND S_IFMT = S_IFIFO then CHR ''p''
      else if m AND S_IFMT = S_IFLNK then CHR ''l''
      else if m AND S_IFMT = S_IFSOCK then CHR ''s''
      else if m AND S_IFMT = S_IFREG then CHR ''-''
      else CHR 0x3F)"

definition stat_isset :: "u32 \<Rightarrow> u32 \<Rightarrow> bool" where
  "stat_isset m b \<longleftrightarrow> m AND b = b"

definition perm_char :: "u32 \<Rightarrow> u32 \<Rightarrow> char \<Rightarrow> char" where
  "perm_char m b c = (if stat_isset m b then c else CHR ''-'')"

text \<open>The ten characters of type and permissions.\<close>

definition mode_chars :: "u32 \<Rightarrow> string" where
  "mode_chars m =
     [file_type m, perm_char m 0x100 CHR ''r'', perm_char m 0x80 CHR ''w'',
      (if \<not> stat_isset m 0x800 then perm_char m 0x40 CHR ''x'' else CHR ''S''),
      perm_char m 0x20 CHR ''r'', perm_char m 0x10 CHR ''w'',
      (if \<not> stat_isset m 0x400 then perm_char m 0x8 CHR ''x'' else CHR ''S''),
      perm_char m 0x4 CHR ''r'', perm_char m 0x2 CHR ''w'',
      (if \<not> stat_isset m 0x200 then perm_char m 0x1 CHR ''x''
       else if m AND S_IFMT = S_IFDIR then CHR ''t'' else CHR ''T'')]"

text \<open>The columns of \<open>show_header\<close> up to the time, and the whole line.\<close>

definition show_columns :: "ls_widths \<Rightarrow> cpio_header \<Rightarrow> string" where
  "show_columns w h =
     mode_chars (h_mode h) @ '' '' @ pad_left (max_nlinks w) (udec (h_nlink h)) @ '' '' @
     pad_left (max_uid w) (udec (h_uid h)) @ '' '' @ pad_left (max_gid w) (udec (h_gid h)) @ '' '' @
     (if is_device h then
        pad_left (max_size w - max_maj w - max_min w) (dev_major h) @ '','' @ pad_left (max_min w) (dev_minor h)
      else pad_left (max_size w) (udec (h_body_len h))) @ '' ''"

text \<open>\<open>%.*s\<close>: at most \<open>n\<close> bytes of a string, which need not end with NUL when it has that many.\<close>

definition prefix_cstr :: "mem \<Rightarrow> nat \<Rightarrow> int \<Rightarrow> string option" where
  "prefix_cstr m off n =
     (if n < 0 then cstr m off
      else
        let s = take (nat n) (drop off m) in
        if NUL \<in> set s \<or> length s = nat n then Some (takeWhile (\<lambda>c. c \<noteq> NUL) s) else None)"

definition show_header :: "(u64 \<Rightarrow> string) \<Rightarrow> bool \<Rightarrow> ls_widths \<Rightarrow> mem \<Rightarrow> cpio_header \<Rightarrow> string option" where
  "show_header timbuf no_mtime w m h =
     (case cstr m (unat (h_name h)) of
        None \<Rightarrow> None
      | Some nm \<Rightarrow>
          let line = show_columns w h @ (if no_mtime then [] else timbuf (h_mtime h)) @ nm in
          if h_mode h AND S_IFMT = S_IFLNK then
            (case prefix_cstr m (unat (h_body h)) (sint (ucast (h_body_len h) :: 32 word)) of
               None \<Rightarrow> None
             | Some b \<Rightarrow> Some (line @ '' -> '' @ b @ [CHR 0x0A]))
          else Some (line @ [CHR 0x0A]))"

section \<open>The listing\<close>

record ls_opts =
  show_compression :: bool
  show_name_only :: bool
  show_no_mtime :: bool
  show_brief :: bool

text \<open>The first loop: the widths over all archives that are listed.\<close>

definition ls_preformat :: "ls_opts \<Rightarrow> cpio list \<Rightarrow> ls_widths" where
  "ls_preformat opts cpios =
     (if show_brief opts then ls_widths0
      else fold preformat (concat (map c_headers (filter (\<lambda>c. c_type c = CPIO_ARCHIVE) cpios))) ls_widths0)"

definition max_compress_name :: "ls_opts \<Rightarrow> cpio list \<Rightarrow> nat" where
  "max_compress_name opts cpios =
     (if show_brief opts \<or> \<not> show_compression opts then 3
      else fold (\<lambda>c n. max n (case c_compress c of None \<Rightarrow> 0 | Some s \<Rightarrow> length s))
             (filter (\<lambda>c. c_type c = CPIO_ARCHIVE) cpios) 3)"

definition ldec :: "u64 \<Rightarrow> string" where
  "ldec w = (if sint w < 0 then CHR ''-'' # dec_digits (nat (- sint w)) else dec_digits (nat (sint w)))"

definition brief_line :: "nat \<Rightarrow> cpio \<Rightarrow> string" where
  "brief_line c p =
     dec_digits c @ [CHR 0x09] @
     (case c_type p of
        CPIO_ARCHIVE \<Rightarrow>
          (case c_compress p of
             None \<Rightarrow> []
           | Some s \<Rightarrow> if s \<noteq> ''raw'' then s @ '' compressed '' else []) @ ''cpio archive''
      | CPIO_BOOTCONFIG \<Rightarrow> ''bootconfig''
      | CPIO_UNKNOWN \<Rightarrow> ''unknown'') @
     '', size '' @ ldec (c_size p) @ '' bytes'' @ [CHR 0x0A]"

definition ls_prefix :: "ls_opts \<Rightarrow> nat \<Rightarrow> nat \<Rightarrow> nat \<Rightarrow> cpio \<Rightarrow> string" where
  "ls_prefix opts bytes mc c p =
     pad_left bytes (dec_digits c) @ '' '' @
     (if show_compression opts then
        pad_left mc (case c_compress p of None \<Rightarrow> [] | Some s \<Rightarrow> s) @ '' ''
      else [])"

fun concat_opt :: "string option list \<Rightarrow> string option" where
  "concat_opt [] = Some []"
| "concat_opt (x # xs) =
     (case x of None \<Rightarrow> None | Some s \<Rightarrow> map_option ((@) s) (concat_opt xs))"

text \<open>The second loop; the counter of the other lines stays where it is at an entry that is no archive.\<close>

fun ls_loop ::
  "(u64 \<Rightarrow> string) \<Rightarrow> ls_opts \<Rightarrow> ls_widths \<Rightarrow> nat \<Rightarrow> nat \<Rightarrow> nat \<Rightarrow> cpio list \<Rightarrow> string option list" where
  "ls_loop timbuf opts w bytes mc c [] = []"
| "ls_loop timbuf opts w bytes mc c (p # ps) =
     (if show_brief opts then Some (brief_line c p) # ls_loop timbuf opts w bytes mc (c + 1) ps
      else if c_type p \<noteq> CPIO_ARCHIVE then ls_loop timbuf opts w bytes mc c ps
      else
        map (\<lambda>h. map_option ((@) (ls_prefix opts bytes mc c p))
                   (if show_name_only opts then
                      map_option (\<lambda>s. s @ [CHR 0x0A]) (cstr (c_mem p) (unat (h_name h)))
                    else show_header timbuf (show_no_mtime opts) w (c_mem p) h)) (c_headers p) @
        ls_loop timbuf opts w bytes mc (c + 1) ps)"

definition initrd_ls :: "(u64 \<Rightarrow> string) \<Rightarrow> ls_opts \<Rightarrow> cpio list \<Rightarrow> string option" where
  "initrd_ls timbuf opts cpios =
     concat_opt (ls_loop timbuf opts (ls_preformat opts cpios) (length (dec_digits (length cpios)))
       (max_compress_name opts cpios) 1 cpios)"

section \<open>The columns line up\<close>

text \<open>Every number of \<open>h\<close> fits its column.\<close>

definition fits_columns :: "ls_widths \<Rightarrow> cpio_header \<Rightarrow> bool" where
  "fits_columns w h \<longleftrightarrow>
     length (udec (h_nlink h)) \<le> max_nlinks w \<and> length (udec (h_uid h)) \<le> max_uid w \<and>
     length (udec (h_gid h)) \<le> max_gid w \<and>
     (if is_device h then
        length (dev_major h) \<le> max_maj w \<and> length (dev_minor h) \<le> max_min w \<and>
        max_maj w + max_min w + 1 \<le> max_size w
      else length (udec (h_body_len h)) \<le> max_size w)"

lemma preformat_fits: "fits_columns (preformat h w) h"
  by (simp add: preformat_def fits_columns_def Let_def)

lemma preformat_keeps: "fits_columns w h' \<Longrightarrow> fits_columns (preformat h w) h'"
  by (auto simp: preformat_def fits_columns_def Let_def split: if_split_asm)

lemma fold_preformat_keeps: "fits_columns w h \<Longrightarrow> fits_columns (fold preformat hs w) h"
  by (induction hs arbitrary: w) (simp_all add: preformat_keeps)

lemma fold_preformat_fits: "h \<in> set hs \<Longrightarrow> fits_columns (fold preformat hs w) h"
proof (induction hs arbitrary: w)
  case (Cons h' hs)
  then show ?case using fold_preformat_keeps [OF preformat_fits] by auto
qed simp

lemma pad_left_length: "length s \<le> n \<Longrightarrow> length (pad_left n s) = n"
  by (simp add: pad_left_def)

text \<open>
  C36: the listing is in columns. After \<open>preformat\<close> of all headers, the part of a line before the time and
  the name is equally long for all of them that are not devices; and for the devices
  too as long as no major number has two digits.
\<close>

theorem ls_columns_align:
  assumes "h \<in> set hs" and "w = fold preformat hs ls_widths0"
    and "is_device h \<longrightarrow> max_maj w = 1"
  shows "length (show_columns w h) = 15 + max_nlinks w + max_uid w + max_gid w + max_size w"
proof -
  have fits: "fits_columns w h" using fold_preformat_fits [OF assms(1)] assms(2) by simp
  have "length (if is_device h
      then pad_left (max_size w - max_maj w - max_min w) (dev_major h) @ '','' @ pad_left (max_min w) (dev_minor h)
      else pad_left (max_size w) (udec (h_body_len h))) = max_size w"
    using fits assms(3) by (auto simp: fits_columns_def pad_left_length)
  then show ?thesis
    using fits by (simp add: show_columns_def mode_chars_def fits_columns_def pad_left_length)
qed

theorem ls_columns_align_witness:
  "length (show_columns (fold preformat [trailer_header, trailer_header\<lparr>h_body_len := 1000\<rparr>] ls_widths0) trailer_header) =
   15 + max_nlinks (fold preformat [trailer_header, trailer_header\<lparr>h_body_len := 1000\<rparr>] ls_widths0) +
   max_uid (fold preformat [trailer_header, trailer_header\<lparr>h_body_len := 1000\<rparr>] ls_widths0) +
   max_gid (fold preformat [trailer_header, trailer_header\<lparr>h_body_len := 1000\<rparr>] ls_widths0) +
   max_size (fold preformat [trailer_header, trailer_header\<lparr>h_body_len := 1000\<rparr>] ls_widths0)"
proof (rule ls_columns_align [OF _ refl])
  have "\<not> is_device trailer_header" by (simp add: is_device_def trailer_header_def S_IFCHR_def S_IFBLK_def)
  then show "is_device trailer_header \<longrightarrow>
      max_maj (fold preformat [trailer_header, trailer_header\<lparr>h_body_len := 1000\<rparr>] ls_widths0) = 1" by simp
qed simp

definition dev_header :: "u64 \<Rightarrow> cpio_header" where
  "dev_header ma = trailer_header\<lparr>h_mode := 0x21B6, h_rmajor := ma, h_rdev := new_encode_dev (MKDEV ma 0)\<rparr>"

section \<open>Device numbers\<close>

lemma bit_gnu_major: "bit (gnu_major (ucast (d :: u32))) n \<longleftrightarrow> n < 12 \<and> bit d (n + 8)"
proof -
  have "(0xfff :: u64) = mask 12" by (simp add: mask_eq_exp_minus_1)
  then have "gnu_major (ucast d) =
      ucast ((drop_bit 8 (ucast d :: u64) AND mask 12) OR (drop_bit 32 (ucast d) AND NOT (mask 12)))"
    by (simp only: gnu_major_def)
  then show ?thesis by (auto simp: bit_simps ac_simps dest: bit_imp_le_length)
qed

lemma bit_gnu_minor:
  "bit (gnu_minor (ucast (d :: u32))) n \<longleftrightarrow> n < 8 \<and> bit d n \<or> 8 \<le> n \<and> bit d (n + 12)"
proof -
  have "(0xff :: u64) = mask 8" by (simp add: mask_eq_exp_minus_1)
  then have "gnu_minor (ucast d) =
      ucast (((ucast d :: u64) AND mask 8) OR (drop_bit 12 (ucast d) AND NOT (mask 8)))"
    by (simp only: gnu_minor_def)
  then show ?thesis by (auto simp: bit_simps ac_simps dest: bit_imp_le_length)
qed

lemma gnu_device:
  assumes "unat ma < 2 ^ 12" and "unat mi < 2 ^ 20"
  shows "gnu_major (ucast (new_encode_dev (MKDEV ma mi))) = ucast ma"
    and "gnu_minor (ucast (new_encode_dev (MKDEV ma mi))) = ucast mi"
proof -
  note bits = bit_simps bit_gnu_major bit_gnu_minor bit_new_encode_dev MAJOR_MKDEV [OF assms(2)] MINOR_MKDEV [OF assms(2)]
  note small = bit_unat_less [OF assms(1)] bit_unat_less [OF assms(2)]
  show "gnu_major (ucast (new_encode_dev (MKDEV ma mi))) = ucast ma"
    by (rule bit_word_eqI) (auto simp: bits dest: small)
  show "gnu_minor (ucast (new_encode_dev (MKDEV ma mi))) = ucast mi"
    by (rule bit_word_eqI) (auto simp: bits dest: small)
qed

text \<open>
  C34: the listing shows the device numbers of the archive. Of a header that was parsed, with a major number
  below \<open>2^12\<close> and a minor number below \<open>2^20\<close>, the macros \<open>major\<close> and \<open>minor\<close> of the C library on the number
  the parser encoded give the two numbers of the archive back.
\<close>

theorem ls_shows_device_numbers:
  assumes "parse_header raw s = Inr h" and "unat (h_rmajor h) < 2 ^ 12" and "unat (h_rminor h) < 2 ^ 20"
  shows "gnu_major (ucast (h_rdev h)) = ucast (h_rmajor h) \<and> gnu_minor (ucast (h_rdev h)) = ucast (h_rminor h) \<and>
         dev_major h = udec (h_rmajor h) \<and> dev_minor h = udec (h_rminor h)"
proof -
  have rdev: "h_rdev h = new_encode_dev (MKDEV (h_rmajor h) (h_rminor h))"
    using assms(1) by (auto simp: parse_header_def Let_def split: if_splits)
  have "unat (ucast (h_rmajor h) :: u32) = unat (h_rmajor h)" "unat (ucast (h_rminor h) :: u32) = unat (h_rminor h)"
    using assms(2,3) by (simp_all add: unsigned_ucast_eq take_bit_nat_eq_self)
  then show ?thesis using gnu_device [OF assms(2,3)] by (simp add: dev_major_def dev_minor_def rdev)
qed

theorem ls_shows_device_numbers_witness:
  "gnu_major (ucast (h_rdev (placed 0 (dev_header 8)))) = ucast (h_rmajor (placed 0 (dev_header 8))) \<and>
   gnu_minor (ucast (h_rdev (placed 0 (dev_header 8)))) = ucast (h_rminor (placed 0 (dev_header 8))) \<and>
   dev_major (placed 0 (dev_header 8)) = udec (h_rmajor (placed 0 (dev_header 8))) \<and>
   dev_minor (placed 0 (dev_header 8)) = udec (h_rminor (placed 0 (dev_header 8)))"
proof (rule ls_shows_device_numbers)
  have "fields_fit (dev_header 8)"
    by (simp add: fields_fit_def dev_header_def trailer_header_def CPIO_TRAILER_def)
  then show "parse_header (header_text (dev_header 8)) 0 = Inr (placed 0 (dev_header 8))"
    using parse_header_text [of "dev_header 8" "[]" "[]"] by simp
qed (simp_all add: placed_def dev_header_def trailer_header_def)


end
