(* ===== verification/SearchTree.thy ===== *)
theory SearchTree
  imports CLib
begin

text \<open>
  The search trees of the C library (\<open>tsearch\<close>, \<open>tfind\<close>, \<open>tdelete\<close>, \<open>twalk\<close>) as the
  programs use them, and \<open>strcmp\<close>. A tree is the list of its elements in the order of a
  comparison function; elements are compared by a key. The locale \<open>comparator\<close> is what a comparison
  function has to promise; each comparison function of the programs is shown to keep it where it is defined.
\<close>

section \<open>Trees as sorted lists\<close>

fun tfind :: "('k \<Rightarrow> 'k \<Rightarrow> int) \<Rightarrow> ('a \<Rightarrow> 'k) \<Rightarrow> 'k \<Rightarrow> 'a list \<Rightarrow> 'a option" where
  "tfind cmp key k [] = None"
| "tfind cmp key k (x # xs) =
     (if cmp k (key x) = 0 then Some x
      else if cmp k (key x) < 0 then None else tfind cmp key k xs)"

text \<open>\<open>tsearch\<close>: the element of the tree with the key of \<open>x\<close>, which is \<open>x\<close> itself when it was added.\<close>

fun tsearch :: "('k \<Rightarrow> 'k \<Rightarrow> int) \<Rightarrow> ('a \<Rightarrow> 'k) \<Rightarrow> 'a \<Rightarrow> 'a list \<Rightarrow> 'a \<times> 'a list" where
  "tsearch cmp key x [] = (x, [x])"
| "tsearch cmp key x (y # ys) =
     (if cmp (key x) (key y) = 0 then (y, y # ys)
      else if cmp (key x) (key y) < 0 then (x, x # y # ys)
      else (case tsearch cmp key x ys of (r, t) \<Rightarrow> (r, y # t)))"

fun tdelete :: "('k \<Rightarrow> 'k \<Rightarrow> int) \<Rightarrow> ('a \<Rightarrow> 'k) \<Rightarrow> 'k \<Rightarrow> 'a list \<Rightarrow> 'a list" where
  "tdelete cmp key k [] = []"
| "tdelete cmp key k (x # xs) =
     (if cmp k (key x) = 0 then xs
      else if cmp k (key x) < 0 then x # xs else x # tdelete cmp key k xs)"

text \<open>\<open>twalk\<close> with an action on postorder and leaf visits: the elements in ascending order.\<close>

definition twalk :: "'a list \<Rightarrow> 'a list" where
  "twalk t = t"

definition tree_sorted :: "('k \<Rightarrow> 'k \<Rightarrow> int) \<Rightarrow> ('a \<Rightarrow> 'k) \<Rightarrow> 'a list \<Rightarrow> bool" where
  "tree_sorted cmp key t \<longleftrightarrow> sorted_wrt (\<lambda>a b. cmp (key a) (key b) < 0) t"

section \<open>The contract of a comparison function\<close>

locale comparator =
  fixes cmp :: "'k \<Rightarrow> 'k \<Rightarrow> int"
  assumes cmp_eq: "cmp a b = 0 \<longleftrightarrow> a = b"
    and cmp_swap: "cmp a b < 0 \<longleftrightarrow> 0 < cmp b a"
    and cmp_trans: "cmp a b < 0 \<Longrightarrow> cmp b c < 0 \<Longrightarrow> cmp a c < 0"
begin

lemma cmp_refl: "cmp a a = 0"
  by (simp add: cmp_eq)

lemma cmp_cases: "cmp a b < 0 \<or> a = b \<or> cmp b a < 0"
  using cmp_swap cmp_eq by (metis linorder_neqE_linordered_idom)

lemma cmp_less_neq: "cmp a b < 0 \<Longrightarrow> a \<noteq> b"
  using cmp_eq [of a b] by auto

lemma tfind_Some:
  assumes "tree_sorted cmp key t"
  shows "tfind cmp key k t = Some x \<longleftrightarrow> x \<in> set t \<and> key x = k"
  using assms
proof (induction t)
  case (Cons y ys)
  then have ys: "tree_sorted cmp key ys" and less: "\<And>z. z \<in> set ys \<Longrightarrow> cmp (key y) (key z) < 0"
    by (auto simp: tree_sorted_def)
  consider "cmp k (key y) < 0" | "k = key y" | "cmp (key y) k < 0" using cmp_cases by blast
  then show ?case
  proof cases
    case 1
    then have "z \<in> set (y # ys) \<Longrightarrow> cmp k (key z) < 0" for z using less cmp_trans by auto
    then have "z \<in> set (y # ys) \<Longrightarrow> key z \<noteq> k" for z using cmp_less_neq by blast
    then show ?thesis using 1 by auto
  next
    case 2
    then have "z \<in> set ys \<Longrightarrow> key z \<noteq> k" for z using less cmp_less_neq by metis
    then show ?thesis using 2 cmp_refl by auto
  next
    case 3
    then have "\<not> cmp k (key y) < 0" "cmp k (key y) \<noteq> 0" "key y \<noteq> k"
      using cmp_swap [of k "key y"] cmp_swap [of "key y" k] cmp_eq [of k "key y"] cmp_less_neq by auto
    then show ?thesis using Cons.IH [OF ys] by auto
  qed
qed simp

lemma tfind_None: "tree_sorted cmp key t \<Longrightarrow> tfind cmp key k t = None \<longleftrightarrow> k \<notin> key ` set t"
  by (cases "tfind cmp key k t") (use tfind_Some [of key t k] in \<open>force+\<close>)

lemma tsearch_set:
  assumes "tree_sorted cmp key t"
  shows "set (snd (tsearch cmp key x t)) = (if key x \<in> key ` set t then set t else insert x (set t))"
  using assms
proof (induction t)
  case (Cons y ys)
  then have ys: "tree_sorted cmp key ys" and less: "\<And>z. z \<in> set ys \<Longrightarrow> cmp (key y) (key z) < 0"
    by (auto simp: tree_sorted_def)
  show ?case
  proof (cases "cmp (key x) (key y) < 0")
    case True
    then have "z \<in> set (y # ys) \<Longrightarrow> cmp (key x) (key z) < 0" for z using less cmp_trans by auto
    then have "key x \<notin> key ` set (y # ys)" using cmp_less_neq by blast
    then show ?thesis using True by simp
  next
    case False
    then show ?thesis using Cons.IH [OF ys] cmp_eq [of "key x" "key y"] by (auto split: prod.splits)
  qed
qed simp

lemma tsearch_sorted:
  assumes "tree_sorted cmp key t"
  shows "tree_sorted cmp key (snd (tsearch cmp key x t))"
  using assms
proof (induction t)
  case (Cons y ys)
  then have ys: "tree_sorted cmp key ys" and less: "\<And>z. z \<in> set ys \<Longrightarrow> cmp (key y) (key z) < 0"
    by (auto simp: tree_sorted_def)
  consider "cmp (key x) (key y) < 0" | "key x = key y" | "cmp (key y) (key x) < 0" using cmp_cases by blast
  then show ?case
  proof cases
    case 1
    then show ?thesis using Cons.prems less cmp_trans by (auto simp: tree_sorted_def)
  next
    case 2
    then show ?thesis using Cons.prems cmp_refl by simp
  next
    case 3
    then have "\<not> cmp (key x) (key y) < 0" "cmp (key x) (key y) \<noteq> 0"
      using cmp_swap [of "key x" "key y"] cmp_swap [of "key y" "key x"] cmp_eq [of "key x" "key y"] cmp_less_neq by auto
    moreover have "z \<in> set (snd (tsearch cmp key x ys)) \<Longrightarrow> cmp (key y) (key z) < 0" for z
      using tsearch_set [OF ys, of x] less 3 by (auto split: if_splits)
    ultimately show ?thesis using Cons.IH [OF ys] by (auto simp: tree_sorted_def split: prod.splits)
  qed
qed (simp add: tree_sorted_def)

lemma tsearch_found:
  assumes "tree_sorted cmp key t" "y \<in> set t" "key y = key x"
  shows "snd (tsearch cmp key x t) = t"
  using assms
proof (induction t)
  case (Cons z zs)
  then have zs: "tree_sorted cmp key zs" and less: "\<And>u. u \<in> set zs \<Longrightarrow> cmp (key z) (key u) < 0"
    by (auto simp: tree_sorted_def)
  show ?case
  proof (cases "key z = key x")
    case True
    then show ?thesis using cmp_refl by simp
  next
    case False
    then have y: "y \<in> set zs" using Cons.prems by auto
    then have "cmp (key z) (key x) < 0" using less Cons.prems(3) by metis
    then have "\<not> cmp (key x) (key z) < 0" "cmp (key x) (key z) \<noteq> 0"
      using cmp_swap [of "key x" "key z"] cmp_swap [of "key z" "key x"] cmp_eq [of "key x" "key z"] False by auto
    then show ?thesis using Cons.IH [OF zs y Cons.prems(3)] by (auto split: prod.splits)
  qed
qed simp

lemma tsearch_result:
  assumes "tree_sorted cmp key t"
  shows "key x \<notin> key ` set t \<Longrightarrow> fst (tsearch cmp key x t) = x"
    and "y \<in> set t \<Longrightarrow> key y = key x \<Longrightarrow> fst (tsearch cmp key x t) = y"
  using assms
proof (induction t)
  case (Cons z zs)
  {
    case 1
    then show ?case using Cons.IH(1) cmp_eq [of "key x" "key z"] by (auto simp: tree_sorted_def split: prod.splits)
  next
    case 2
    then have less: "\<And>u. u \<in> set zs \<Longrightarrow> cmp (key z) (key u) < 0" by (auto simp: tree_sorted_def)
    show ?case
    proof (cases "y = z")
      case True
      then show ?thesis using 2 cmp_refl by simp
    next
      case False
      with 2 have "y \<in> set zs" by simp
      then have "cmp (key z) (key x) < 0" using less 2(2) by metis
      then have "\<not> cmp (key x) (key z) < 0" "cmp (key x) (key z) \<noteq> 0"
        using cmp_swap [of "key x" "key z"] cmp_swap [of "key z" "key x"] cmp_eq [of "key x" "key z"] cmp_less_neq by auto
      then show ?thesis using Cons.IH(2) \<open>y \<in> set zs\<close> 2 by (auto simp: tree_sorted_def split: prod.splits)
    qed
  }
qed simp_all

lemma tdelete_set:
  assumes "tree_sorted cmp key t"
  shows "set (tdelete cmp key k t) = {x \<in> set t. key x \<noteq> k}"
  using assms
proof (induction t)
  case (Cons y ys)
  then have ys: "tree_sorted cmp key ys" and less: "\<And>z. z \<in> set ys \<Longrightarrow> cmp (key y) (key z) < 0"
    by (auto simp: tree_sorted_def)
  show ?case
  proof (cases "cmp k (key y) < 0")
    case True
    then have "z \<in> set (y # ys) \<Longrightarrow> cmp k (key z) < 0" for z using less cmp_trans by auto
    then have "z \<in> set (y # ys) \<Longrightarrow> key z \<noteq> k" for z using cmp_less_neq by blast
    then show ?thesis using True by auto
  next
    case False
    have "z \<in> set ys \<Longrightarrow> key z \<noteq> key y" for z using less cmp_less_neq by metis
    then show ?thesis
      using False Cons.IH [OF ys] cmp_eq [of k "key y"] by (auto simp: cmp_refl)
  qed
qed simp

lemma tdelete_sorted: "tree_sorted cmp key t \<Longrightarrow> tree_sorted cmp key (tdelete cmp key k t)"
proof (induction t)
  case (Cons y ys)
  then show ?case using tdelete_set [of key ys k] by (auto simp: tree_sorted_def)
qed simp

lemma tree_sorted_distinct: "tree_sorted cmp key t \<Longrightarrow> distinct (map key t)"
proof (induction t)
  case (Cons y ys)
  then show ?case using cmp_less_neq by (fastforce simp: tree_sorted_def)
qed simp

end

section \<open>strcmp\<close>

fun strcmp :: "string \<Rightarrow> string \<Rightarrow> int" where
  "strcmp [] [] = 0"
| "strcmp [] (b # bs) = - 1"
| "strcmp (a # as) [] = 1"
| "strcmp (a # as) (b # bs) =
     (if a = b then strcmp as bs else int (of_char a) - int (of_char b))"

interpretation str_order: comparator strcmp
proof
  show "strcmp a b = 0 \<longleftrightarrow> a = b" for a b
    by (induction a b rule: strcmp.induct) auto
  show "strcmp a b < 0 \<longleftrightarrow> 0 < strcmp b a" for a b
    by (induction a b rule: strcmp.induct) auto
  show "strcmp a c < 0" if "strcmp a b < 0" "strcmp b c < 0" for a b c
    using that
  proof (induction a b arbitrary: c rule: strcmp.induct)
    case (4 a as b bs)
    then show ?case by (cases c) (auto split: if_splits)
  next
    case (2 b bs)
    then show ?case by (cases c) auto
  qed auto
qed

end
