(* ===== verification/PutQueue.thy ===== *)
theory PutQueue
  imports SearchTree
begin

text \<open>
  The queue and the tree of files of \<open>initrd-put\<close> (\<open>utils/initrd-put/queue.c\<close> and \<open>tree.c\<close>). A
  \<open>struct file\<close> lives on a heap; the queue is a doubly linked list of such files, newest first,
  with a search tree over their paths beside it, and the files that were processed are in a second
  tree. The state carries the cache of library paths of \<open>enqueue-library.c\<close> along. Allocation takes the address \<open>brk\<close> and succeeds. The exclude patterns are predicates.
\<close>

section \<open>Files and the state\<close>

record stat =
  st_dev :: u64
  st_ino :: u64
  st_rdev :: u64
  st_nlink :: u64
  st_size :: u64
  st_mode :: u32
  st_uid :: u32
  st_gid :: u32

definition stat0 :: stat where
  "stat0 = \<lparr>st_dev = 0, st_ino = 0, st_rdev = 0, st_nlink = 0, st_size = 0, st_mode = 0, st_uid = 0, st_gid = 0\<rparr>"

record put_file =
  f_prev :: "nat option"
  f_next :: "nat option"
  f_stat :: stat
  f_src :: string
  f_dst :: "string option"
  f_symlink :: "string option"
  f_hardlink_target :: "nat option"
  f_recursive :: bool
  f_installed :: bool

definition file0 :: "string \<Rightarrow> put_file" where
  "file0 src = \<lparr>f_prev = None, f_next = None, f_stat = stat0, f_src = src, f_dst = None, f_symlink = None,
                f_hardlink_target = None, f_recursive = False, f_installed = False\<rparr>"

record elf_cache_entry =
  ce_class :: u8
  ce_machine :: u16
  ce_soname :: string
  ce_path :: string

record put_state =
  fheap :: "nat \<rightharpoonup> put_file"
  brk :: nat
  inqueue :: "nat option"
  queue_nr :: nat
  queued_files :: "nat list"
  files :: "nat list"
  tree_files_nr :: nat
  elf_cache :: "elf_cache_entry list"

definition put_init :: put_state where
  "put_init = \<lparr>fheap = Map.empty, brk = 0, inqueue = None, queue_nr = 0, queued_files = [], files = [], tree_files_nr = 0, elf_cache = []\<rparr>"

datatype put_error = BadQueueHead | UseAfterFree | BufferOverflow | PutFailed string

definition src_of :: "(nat \<rightharpoonup> put_file) \<Rightarrow> nat \<Rightarrow> string" where
  "src_of h a = (case h a of None \<Rightarrow> [] | Some f \<Rightarrow> f_src f)"

lemma src_of_Some [simp]: "h a = Some f \<Longrightarrow> src_of h a = f_src f"
  by (simp add: src_of_def)

lemma src_of_upd [simp]: "src_of (h(a \<mapsto> f)) b = (if b = a then f_src f else src_of h b)"
  by (simp add: src_of_def)

definition upd_file :: "nat \<Rightarrow> (put_file \<Rightarrow> put_file) \<Rightarrow> put_state \<Rightarrow> put_state" where
  "upd_file a g st = st\<lparr>fheap := (fheap st)(a := map_option g (fheap st a))\<rparr>"

section \<open>The operations\<close>

definition PATH_MAX :: nat where "PATH_MAX = 4096"

definition queue_find :: "string \<Rightarrow> put_state \<Rightarrow> nat option" where
  "queue_find path st = tfind strcmp (src_of (fheap st)) path (queued_files st)"

definition is_path_queued :: "string \<Rightarrow> put_state \<Rightarrow> bool" where
  "is_path_queued path st \<longleftrightarrow> queue_find path st \<noteq> None"

definition is_path_added :: "string \<Rightarrow> put_state \<Rightarrow> bool" where
  "is_path_added path st \<longleftrightarrow>
     tfind strcmp (src_of (fheap st)) path (files st) \<noteq> None \<or> is_path_queued path st"

text \<open>The first \<open>len\<close> bytes of \<open>str\<close>, at most \<open>PATH_MAX\<close>, or the whole string for a negative \<open>len\<close>.\<close>

definition item_path :: "string \<Rightarrow> int \<Rightarrow> string" where
  "item_path str len = (if len \<ge> 0 then take (min (nat len) PATH_MAX) str else str)"

text \<open>
  \<open>enqueue_item\<close>: NULL for an excluded path and for one that was processed, the queued file when
  there is one, and otherwise a new file at the head of the queue.
\<close>

definition enqueue_item ::
  "(string \<Rightarrow> bool) list \<Rightarrow> string \<Rightarrow> int \<Rightarrow> put_state \<Rightarrow> put_error + nat option \<times> put_state" where
  "enqueue_item exclude_match str len st =
     (let src = item_path str len in
      if list_ex (\<lambda>m. m src) exclude_match then Inr (None, st)
      else (case queue_find src st of
              Some a \<Rightarrow> Inr (Some a, st)
            | None \<Rightarrow>
                if is_path_added src st then Inr (None, st)
                else
                  let new = brk st;
                      h1 = (fheap st)(new \<mapsto> file0 src);
                      q1 = snd (tsearch strcmp (src_of h1) new (queued_files st));
                      finish = (\<lambda>h. Inr (Some new,
                        st\<lparr>fheap := h, brk := new + 1, queued_files := q1,
                           inqueue := Some new, queue_nr := queue_nr st + 1\<rparr>))
                  in (case inqueue st of
                        None \<Rightarrow> finish h1
                      | Some hd0 \<Rightarrow>
                          (case h1 hd0 of
                             None \<Rightarrow> Inl BadQueueHead
                           | Some f \<Rightarrow>
                               if f_prev f \<noteq> None then Inl BadQueueHead
                               else
                                 let h2 = h1(hd0 \<mapsto> f\<lparr>f_prev := Some new\<rparr>)
                                 in finish (h2(new \<mapsto> (file0 src)\<lparr>f_next := Some hd0\<rparr>))))))"

text \<open>\<open>dequeue_item\<close> of a file: its neighbours are linked, its own pointers stay as they are.\<close>

definition dequeue_item :: "nat \<Rightarrow> put_state \<Rightarrow> put_state" where
  "dequeue_item a st =
     (case fheap st a of
        None \<Rightarrow> st
      | Some f \<Rightarrow>
          let q = tdelete strcmp (src_of (fheap st)) (f_src f) (queued_files st);
              st1 = st\<lparr>queued_files := q\<rparr>;
              st2 = (case f_prev f of None \<Rightarrow> st1 | Some p \<Rightarrow> upd_file p (\<lambda>g. g\<lparr>f_next := f_next f\<rparr>) st1);
              st3 = (case f_next f of None \<Rightarrow> st2 | Some n \<Rightarrow> upd_file n (\<lambda>g. g\<lparr>f_prev := f_prev f\<rparr>) st2)
          in st3\<lparr>inqueue := (if inqueue st = Some a then f_next f else inqueue st),
                queue_nr := queue_nr st - 1\<rparr>)"

definition free_file :: "nat \<Rightarrow> put_state \<Rightarrow> put_state" where
  "free_file a st = st\<lparr>fheap := (fheap st)(a := None)\<rparr>"

text \<open>\<open>tree_add_file\<close>: was the file added, or is there one with its path?\<close>

definition tree_add_file :: "nat \<Rightarrow> put_state \<Rightarrow> bool \<times> put_state" where
  "tree_add_file a st =
     (case tsearch strcmp (src_of (fheap st)) a (files st) of
        (r, t) \<Rightarrow>
          (r = a, st\<lparr>files := t, tree_files_nr := (if r = a then tree_files_nr st + 1 else tree_files_nr st)\<rparr>))"

section \<open>Doubly linked lists\<close>

text \<open>\<open>dlinked h p q xs\<close>: from \<open>q\<close>, whose predecessor is \<open>p\<close>, the list has the nodes \<open>xs\<close>.\<close>

fun dlinked :: "(nat \<rightharpoonup> put_file) \<Rightarrow> nat option \<Rightarrow> nat option \<Rightarrow> nat list \<Rightarrow> bool" where
  "dlinked h p q [] \<longleftrightarrow> q = None"
| "dlinked h p q (x # xs) \<longleftrightarrow>
     q = Some x \<and> (\<exists>f. h x = Some f \<and> f_prev f = p \<and> dlinked h (Some x) (f_next f) xs)"

lemma dlinked_frame: "a \<notin> set xs \<Longrightarrow> dlinked (h(a := v)) p q xs = dlinked h p q xs"
  by (induction xs arbitrary: p q) auto

lemma dlinked_dom: "dlinked h p q xs \<Longrightarrow> x \<in> set xs \<Longrightarrow> h x \<noteq> None"
  by (induction xs arbitrary: p q) auto

lemma dlinked_head: "dlinked h p q xs \<Longrightarrow> q = (case xs of [] \<Rightarrow> None | x # _ \<Rightarrow> Some x)"
  by (cases xs) auto

text \<open>A change that keeps the two pointers of every node keeps the list.\<close>

lemma dlinked_unique: "dlinked h p q xs \<Longrightarrow> dlinked h p q ys \<Longrightarrow> ys = xs"
proof (induction xs arbitrary: p q ys)
  case Nil
  then show ?case by (cases ys) auto
next
  case (Cons x xs)
  then show ?case by (cases ys) auto
qed

lemma dlinked_same_links:
  assumes "dlinked h p q xs"
    and "\<And>x f. x \<in> set xs \<Longrightarrow> h x = Some f \<Longrightarrow> \<exists>f'. h' x = Some f' \<and> f_prev f' = f_prev f \<and> f_next f' = f_next f"
  shows "dlinked h' p q xs"
  using assms
proof (induction xs arbitrary: p q)
  case (Cons x xs)
  from Cons.prems(1) obtain f where f: "q = Some x" "h x = Some f" "f_prev f = p" "dlinked h (Some x) (f_next f) xs"
    by auto
  from Cons.prems(2) [of x f] f(2) obtain f' where "h' x = Some f'" "f_prev f' = f_prev f" "f_next f' = f_next f"
    by auto
  moreover have "dlinked h' (Some x) (f_next f) xs"
    using f(4) by (rule Cons.IH) (use Cons.prems(2) in simp)
  ultimately show ?case using f by simp
qed simp

lemma dlinked_split:
  assumes "dlinked h p q (ys @ a # zs)" and "h a = Some f"
  shows "f_prev f = (if ys = [] then p else Some (last ys))" and "f_next f = (if zs = [] then None else Some (hd zs))"
proof -
  have "f_prev f = (if ys = [] then p else Some (last ys)) \<and> dlinked h (Some a) (f_next f) zs"
    using assms
  proof (induction ys arbitrary: p q)
    case (Cons y ys)
    from Cons.prems(1) obtain r where "dlinked h (Some y) r (ys @ a # zs)" by auto
    from Cons.IH [OF this assms(2)] show ?case by simp
  qed simp
  then show "f_prev f = (if ys = [] then p else Some (last ys))" and "f_next f = (if zs = [] then None else Some (hd zs))"
    using dlinked_head [of h "Some a" "f_next f" zs] by (simp_all split: list.splits)
qed

text \<open>The heap after the neighbours of a node between \<open>ys\<close> and \<open>zs\<close> are linked to each other.\<close>

definition relink :: "nat list \<Rightarrow> put_file \<Rightarrow> nat list \<Rightarrow> (nat \<rightharpoonup> put_file) \<Rightarrow> (nat \<rightharpoonup> put_file)" where
  "relink ys f zs h =
     (let h1 = (if ys = [] then h else h(last ys := map_option (\<lambda>g. g\<lparr>f_next := f_next f\<rparr>) (h (last ys))))
      in if zs = [] then h1 else h1(hd zs := map_option (\<lambda>g. g\<lparr>f_prev := f_prev f\<rparr>) (h1 (hd zs))))"

lemma dlinked_remove:
  assumes "dlinked h p q (ys @ a # zs)" and "distinct (ys @ a # zs)" and "h a = Some f"
  shows "dlinked (relink ys f zs h) p (if ys = [] then f_next f else q) (ys @ zs)"
  using assms(1,2)
proof (induction ys arbitrary: p q)
  case Nil
  then have f: "f_prev f = p" "dlinked h (Some a) (f_next f) zs" using assms(3) by auto
  show ?case
  proof (cases zs)
    case (Cons z zs')
    from f(2) Cons obtain g where g: "f_next f = Some z" "h z = Some g" "dlinked h (Some z) (f_next g) zs'"
      by auto
    have "dlinked (h(z := Some (g\<lparr>f_prev := p\<rparr>))) p (Some z) (z # zs')"
      using g Cons Nil.prems(2) by (simp add: dlinked_frame)
    moreover have "relink [] f zs h = h(z := Some (g\<lparr>f_prev := p\<rparr>))"
      unfolding relink_def Let_def using Cons g(2) f(1) by (simp only: if_True list.sel) simp
    ultimately show ?thesis unfolding Cons by (simp only: g(1) append_Nil if_True simp_thms)
  qed (use f in \<open>simp add: relink_def\<close>)
next
  case (Cons y ys)
  from Cons.prems(1) obtain g where g: "q = Some y" "h y = Some g" "f_prev g = p"
    "dlinked h (Some y) (f_next g) (ys @ a # zs)" by auto
  have rest: "distinct (ys @ a # zs)" and y: "y \<notin> set (ys @ zs)" using Cons.prems(2) by simp_all
  note IH = Cons.IH [OF g(4) rest]
  show ?case
  proof (cases ys)
    case Nil
    with g(4) assms(3) have f: "f_prev f = Some y" "dlinked h (Some y) (Some a) (a # zs)"
      "dlinked h (Some a) (f_next f) zs" by auto
    show ?thesis
    proof (cases zs)
      case Nil
      have "dlinked (h(y := Some (g\<lparr>f_next := f_next f\<rparr>))) p q [y]" using g f(3) Nil by simp
      moreover have "relink (y # ys) f zs h = h(y := Some (g\<lparr>f_next := f_next f\<rparr>))"
        unfolding relink_def using \<open>ys = []\<close> Nil g(2) by simp
      ultimately show ?thesis unfolding Nil \<open>ys = []\<close> by (simp only: append.simps list.distinct if_False simp_thms)
    next
      case (Cons z zs')
      from f(3) Cons obtain k where k: "f_next f = Some z" "h z = Some k" "dlinked h (Some z) (f_next k) zs'"
        by auto
      have "y \<noteq> z" "y \<notin> set zs'" "z \<notin> set zs'" using Cons.prems(2) Cons \<open>ys = []\<close> by auto
      then have "dlinked ((h(y := Some (g\<lparr>f_next := f_next f\<rparr>)))(z := Some (k\<lparr>f_prev := Some y\<rparr>))) p q (y # z # zs')"
        using g k by (simp add: dlinked_frame)
      moreover have "relink (y # ys) f zs h = (h(y := Some (g\<lparr>f_next := f_next f\<rparr>)))(z := Some (k\<lparr>f_prev := Some y\<rparr>))"
        unfolding relink_def Let_def using \<open>ys = []\<close> g(2) k(2) f(1) Cons \<open>y \<noteq> z\<close> by simp
      ultimately show ?thesis unfolding Cons \<open>ys = []\<close> by (simp only: append.simps list.distinct if_False simp_thms)
    qed
  next
    case (Cons y' ys')
    then have ne: "ys \<noteq> []" by simp
    have "dlinked (relink ys f zs h) (Some y) (f_next g) (ys @ zs)"
      using IH ne by (simp only: if_False)
    moreover have same: "relink (y # ys) f zs h = relink ys f zs h"
      unfolding relink_def using ne by simp
    moreover have "relink ys f zs h y = h y"
    proof -
      have "y \<noteq> last ys" using y last_in_set [OF ne] by auto
      moreover have "y \<noteq> hd zs" if "zs \<noteq> []" using y hd_in_set [OF that] by auto
      ultimately show ?thesis unfolding relink_def Let_def using ne by (cases "zs = []") simp_all
    qed
    ultimately show ?thesis unfolding same using g by simp
  qed
qed

section \<open>The invariant of queue and tree\<close>

text \<open>
  \<open>queue_ok st xs\<close>: the queue is the list \<open>xs\<close>, the tree of queued files has the same files, both
  trees are sorted by path, and the counters count.
\<close>

definition queue_ok :: "put_state \<Rightarrow> nat list \<Rightarrow> bool" where
  "queue_ok st xs \<longleftrightarrow>
     dlinked (fheap st) None (inqueue st) xs \<and> distinct xs \<and> queue_nr st = length xs \<and>
     set (queued_files st) = set xs \<and> tree_sorted strcmp (src_of (fheap st)) (queued_files st) \<and>
     set (files st) \<subseteq> dom (fheap st) \<and> tree_sorted strcmp (src_of (fheap st)) (files st) \<and>
     tree_files_nr st = length (files st) \<and> (\<forall>a \<in> dom (fheap st). a < brk st)"

lemma queue_ok_dom: "queue_ok st xs \<Longrightarrow> set xs \<subseteq> dom (fheap st)"
  using dlinked_dom by (fastforce simp: queue_ok_def)

lemma tree_sorted_cong:
  assumes "\<And>x. x \<in> set t \<Longrightarrow> key x = key' x"
  shows "tree_sorted cmp key t = tree_sorted cmp key' t"
  using assms by (induction t) (auto simp: tree_sorted_def)

lemma put_init_ok: "queue_ok put_init []"
  by (simp add: queue_ok_def put_init_def tree_sorted_def)

lemma queue_find_Some:
  assumes "queue_ok st xs"
  shows "queue_find path st = Some a \<longleftrightarrow> a \<in> set xs \<and> src_of (fheap st) a = path"
  using assms str_order.tfind_Some [of "src_of (fheap st)" "queued_files st" path a]
  by (simp add: queue_find_def queue_ok_def)

lemma queue_find_None:
  assumes "queue_ok st xs"
  shows "queue_find path st = None \<longleftrightarrow> path \<notin> src_of (fheap st) ` set xs"
  using assms str_order.tfind_None [of "src_of (fheap st)" "queued_files st" path]
  by (simp add: queue_find_def queue_ok_def)

lemma is_path_added_iff:
  assumes "queue_ok st xs"
  shows "is_path_added path st \<longleftrightarrow> path \<in> src_of (fheap st) ` (set xs \<union> set (files st))"
  using assms str_order.tfind_None [of "src_of (fheap st)" "files st" path] queue_find_None [OF assms, of path]
  by (auto simp: is_path_added_def is_path_queued_def queue_ok_def image_Un)

text \<open>A state \<open>st'\<close> that has the files of \<open>st\<close> with their paths, and perhaps more.\<close>

definition keeps_files :: "put_state \<Rightarrow> put_state \<Rightarrow> bool" where
  "keeps_files st st' \<longleftrightarrow>
     (\<forall>a f. fheap st a = Some f \<longrightarrow> (\<exists>f'. fheap st' a = Some f' \<and> f_src f' = f_src f \<and>
        f_stat f' = f_stat f \<and> f_symlink f' = f_symlink f \<and> f_recursive f' = f_recursive f \<and> f_dst f' = f_dst f))"

lemma keeps_files_refl: "keeps_files st st"
  by (simp add: keeps_files_def)

lemma keeps_files_src: "keeps_files st st' \<Longrightarrow> a \<in> dom (fheap st) \<Longrightarrow> src_of (fheap st') a = src_of (fheap st) a"
  unfolding keeps_files_def by (metis domD src_of_Some)

text \<open>
  A state with a new file at the head: the common part of the two branches of \<open>enqueue_item\<close>. The new heap
  \<open>h\<close> has the new file, and the old ones with their paths.
\<close>

lemma queue_ok_push:
  assumes ok: "queue_ok st xs" and new: "path \<notin> src_of (fheap st) ` (set xs \<union> set (files st))"
    and h: "h (brk st) = Some nf" "f_src nf = path" "\<And>a. a \<noteq> brk st \<Longrightarrow> src_of h a = src_of (fheap st) a"
    and dom: "dom h = insert (brk st) (dom (fheap st))"
    and links: "dlinked h None (Some (brk st)) (brk st # xs)"
  shows "queue_ok (st\<lparr>fheap := h, brk := brk st + 1,
           queued_files := snd (tsearch strcmp (src_of h) (brk st) (queued_files st)),
           inqueue := Some (brk st), queue_nr := queue_nr st + 1\<rparr>) (brk st # xs)"
proof -
  from ok have st: "set (queued_files st) = set xs" "tree_sorted strcmp (src_of (fheap st)) (queued_files st)"
    "set (files st) \<subseteq> dom (fheap st)" "tree_sorted strcmp (src_of (fheap st)) (files st)"
    "\<forall>a \<in> dom (fheap st). a < brk st" "distinct xs"
    by (auto simp: queue_ok_def)
  have fresh: "brk st \<notin> set xs" "brk st \<notin> set (files st)"
    using st(3,5) queue_ok_dom [OF ok] by blast+
  have same: "tree_sorted strcmp (src_of h) (queued_files st)" "tree_sorted strcmp (src_of h) (files st)"
    using st(1,2,4) fresh h(3) tree_sorted_cong [of _ "src_of h" "src_of (fheap st)" strcmp] by metis+
  have keys: "src_of h ` set (queued_files st) = src_of (fheap st) ` set xs"
    unfolding st(1) using fresh(1) h(3) by (metis image_cong)
  have "src_of h (brk st) \<notin> src_of h ` set (queued_files st)"
    unfolding keys using new h(1,2) by auto
  then have "set (snd (tsearch strcmp (src_of h) (brk st) (queued_files st))) = insert (brk st) (set xs)"
    using str_order.tsearch_set [OF same(1)] st(1) by simp
  moreover have "a < brk st + 1" if "a \<in> dom h" for a
  proof -
    have "a = brk st \<or> a \<in> dom (fheap st)" using that dom by blast
    then show ?thesis using st(5) by (metis add.commute less_add_one less_SucI plus_1_eq_Suc)
  qed
  ultimately show ?thesis
    using ok links fresh st(3,6) same(2) dom str_order.tsearch_sorted [OF same(1)]
    by (auto simp: queue_ok_def)
qed

text \<open>The new file and the new links, when the path is neither queued nor in the tree.\<close>

lemma enqueue_new:
  assumes ok: "queue_ok st xs" and ex: "\<not> list_ex (\<lambda>m. m (item_path str len)) ex"
    and new: "item_path str len \<notin> src_of (fheap st) ` (set xs \<union> set (files st))"
  shows "\<exists>st'. enqueue_item ex str len st = Inr (Some (brk st), st') \<and> queue_ok st' (brk st # xs) \<and>
           fheap st' (brk st) = Some ((file0 (item_path str len))\<lparr>f_next := inqueue st\<rparr>) \<and>
           files st' = files st \<and> keeps_files st st' \<and> dom (fheap st') = insert (brk st) (dom (fheap st)) \<and> elf_cache st' = elf_cache st"
proof -
  let ?src = "item_path str len" and ?n = "brk st"
  let ?h1 = "(fheap st)(?n \<mapsto> file0 ?src)"
  from ok have links: "dlinked (fheap st) None (inqueue st) xs" and lt: "\<forall>a \<in> dom (fheap st). a < ?n"
    and ds: "distinct xs" by (auto simp: queue_ok_def)
  then have nn: "fheap st ?n = None" by auto
  then have fresh: "?n \<notin> set xs" using queue_ok_dom [OF ok] by blast
  have notin: "queue_find ?src st = None" "\<not> is_path_added ?src st"
    using new queue_find_None [OF ok] is_path_added_iff [OF ok] by auto
  show ?thesis
  proof (cases xs)
    case Nil
    with links have q: "inqueue st = None" by simp
    have "queue_ok (st\<lparr>fheap := ?h1, brk := ?n + 1,
        queued_files := snd (tsearch strcmp (src_of ?h1) ?n (queued_files st)),
        inqueue := Some ?n, queue_nr := queue_nr st + 1\<rparr>) (?n # xs)"
      using Nil by (intro queue_ok_push [OF ok new]) (auto simp: file0_def)
    moreover have "(file0 ?src)\<lparr>f_next := None\<rparr> = file0 ?src" by (simp add: file0_def)
    ultimately show ?thesis
      using ex notin q nn unfolding enqueue_item_def Let_def
      by (auto simp: keeps_files_def)
  next
    case (Cons x xs')
    with links obtain f where x: "inqueue st = Some x" "fheap st x = Some f" "f_prev f = None"
      "dlinked (fheap st) (Some x) (f_next f) xs'" by auto
    have xn: "x \<noteq> ?n" using nn x(2) by auto
    let ?h3 = "(?h1(x \<mapsto> f\<lparr>f_prev := Some ?n\<rparr>))(?n \<mapsto> (file0 ?src)\<lparr>f_next := Some x\<rparr>)"
    have src: "src_of ?h3 = src_of ?h1" using x(2) by (auto simp: file0_def fun_eq_iff)
    have "dlinked ?h3 (Some x) (f_next f) xs'"
      using x(4) fresh ds Cons by (simp add: dlinked_frame)
    then have dl: "dlinked ?h3 None (Some ?n) (?n # xs)" using xn Cons by (simp add: file0_def)
    have "queue_ok (st\<lparr>fheap := ?h3, brk := ?n + 1,
        queued_files := snd (tsearch strcmp (src_of ?h3) ?n (queued_files st)),
        inqueue := Some ?n, queue_nr := queue_nr st + 1\<rparr>) (?n # xs)"
      using x(2) by (intro queue_ok_push [OF ok new _ _ _ _ dl]) (auto simp: file0_def)
    then have "queue_ok (st\<lparr>fheap := ?h3, brk := ?n + 1,
        queued_files := snd (tsearch strcmp (src_of ?h1) ?n (queued_files st)),
        inqueue := Some ?n, queue_nr := queue_nr st + 1\<rparr>) (?n # xs)"
      unfolding src .
    moreover have "keeps_files st (st\<lparr>fheap := ?h3, brk := ?n + 1,
        queued_files := snd (tsearch strcmp (src_of ?h1) ?n (queued_files st)),
        inqueue := Some ?n, queue_nr := queue_nr st + 1\<rparr>)"
      using x(2) nn by (auto simp: keeps_files_def)
    moreover have "dom ?h3 = insert ?n (dom (fheap st))" using x(2) by auto
    ultimately show ?thesis
      using ex notin x(1-3) xn unfolding enqueue_item_def Let_def
      by (simp add: fun_upd_twist del: dom_fun_upd)
  qed
qed

lemma enqueue_item_ok:
  assumes ok: "queue_ok st xs"
  shows "\<exists>r st'. enqueue_item ex str len st = Inr (r, st') \<and> files st' = files st \<and> keeps_files st st' \<and>
     (if list_ex (\<lambda>m. m (item_path str len)) ex then r = None \<and> st' = st
      else if item_path str len \<in> src_of (fheap st) ` set xs
        then st' = st \<and> (\<exists>a \<in> set xs. r = Some a \<and> src_of (fheap st) a = item_path str len)
      else if item_path str len \<in> src_of (fheap st) ` set (files st) then r = None \<and> st' = st
      else r = Some (brk st) \<and> queue_ok st' (brk st # xs) \<and> src_of (fheap st') (brk st) = item_path str len)"
proof -
  let ?src = "item_path str len"
  consider "list_ex (\<lambda>m. m ?src) ex"
    | "\<not> list_ex (\<lambda>m. m ?src) ex" "?src \<in> src_of (fheap st) ` set xs"
    | "\<not> list_ex (\<lambda>m. m ?src) ex" "?src \<notin> src_of (fheap st) ` set xs" "?src \<in> src_of (fheap st) ` set (files st)"
    | "\<not> list_ex (\<lambda>m. m ?src) ex" "?src \<notin> src_of (fheap st) ` (set xs \<union> set (files st))"
    by blast
  then show ?thesis
  proof cases
    case 1
    then show ?thesis by (simp add: enqueue_item_def Let_def keeps_files_refl)
  next
    case 2
    then obtain a where "a \<in> set xs" "src_of (fheap st) a = ?src" by auto
    then show ?thesis
      using 2 queue_find_Some [OF ok, of ?src a] by (auto simp: enqueue_item_def Let_def keeps_files_refl)
  next
    case 3
    then have "queue_find ?src st = None" "is_path_added ?src st"
      using queue_find_None [OF ok] is_path_added_iff [OF ok] by auto
    then show ?thesis using 3 by (simp add: enqueue_item_def Let_def keeps_files_refl)
  next
    case 4
    from enqueue_new [OF ok this] obtain st' where "enqueue_item ex str len st = Inr (Some (brk st), st')"
      "queue_ok st' (brk st # xs)" "fheap st' (brk st) = Some ((file0 ?src)\<lparr>f_next := inqueue st\<rparr>)"
      "files st' = files st" "keeps_files st st'" "dom (fheap st') = insert (brk st) (dom (fheap st))" by blast
    moreover have "?src \<notin> src_of (fheap st) ` set xs" "?src \<notin> src_of (fheap st) ` set (files st)" using 4(2) by auto
    ultimately show ?thesis using 4(1) by (auto simp: file0_def)
  qed
qed

section \<open>Taking a file off the queue\<close>

text \<open>Two files that differ in their links only.\<close>

definition same_file :: "put_file \<Rightarrow> put_file \<Rightarrow> bool" where
  "same_file g g' \<longleftrightarrow> f_src g' = f_src g \<and> f_stat g' = f_stat g \<and> f_symlink g' = f_symlink g \<and>
     f_recursive g' = f_recursive g \<and> f_dst g' = f_dst g"

definition same_files :: "(nat \<rightharpoonup> put_file) \<Rightarrow> (nat \<rightharpoonup> put_file) \<Rightarrow> bool" where
  "same_files h h' \<longleftrightarrow> (\<forall>x. rel_option same_file (h x) (h' x))"

lemma same_file_refl: "same_file g g"
  by (simp add: same_file_def)

lemma same_files_refl: "same_files h h"
  by (simp add: same_files_def option.rel_refl same_file_refl)

lemma same_files_trans: "same_files h h' \<Longrightarrow> same_files h' h'' \<Longrightarrow> same_files h h''"
  unfolding same_files_def
proof
  fix x
  assume "\<forall>x. rel_option same_file (h x) (h' x)" "\<forall>x. rel_option same_file (h' x) (h'' x)"
  then have "rel_option same_file (h x) (h' x)" "rel_option same_file (h' x) (h'' x)" by blast+
  then show "rel_option same_file (h x) (h'' x)"
    by (cases "h x"; cases "h' x"; cases "h'' x") (simp_all add: same_file_def)
qed

lemma same_files_upd:
  assumes "\<And>g. same_file g (u g)"
  shows "same_files h (h(a := map_option u (h a)))"
  unfolding same_files_def
proof
  fix x
  show "rel_option same_file (h x) ((h(a := map_option u (h a))) x)"
    using assms by (cases "x = a"; cases "h x") (simp_all add: same_file_refl)
qed

lemma same_files_relink: "same_files h (relink ys f zs h)"
proof -
  let ?h1 = "if ys = [] then h else h(last ys := map_option (\<lambda>g. g\<lparr>f_next := f_next f\<rparr>) (h (last ys)))"
  have "same_files h (h(last ys := map_option (\<lambda>g. g\<lparr>f_next := f_next f\<rparr>) (h (last ys))))"
    by (intro same_files_upd) (simp add: same_file_def)
  then have 1: "same_files h ?h1"
    by (cases "ys = []") (simp_all only: if_True if_False same_files_refl simp_thms)
  have "same_files k (k(hd zs := map_option (\<lambda>g. g\<lparr>f_prev := f_prev f\<rparr>) (k (hd zs))))" for k
    by (intro same_files_upd) (simp add: same_file_def)
  note 2 = same_files_trans [OF 1 this]
  show ?thesis
    unfolding relink_def Let_def
    by (rule if_split [where P = "same_files h", THEN iffD2]) (intro conjI impI 1 2)
qed

lemma relink_keeps:
  "relink ys f zs h x = None \<longleftrightarrow> h x = None"
  "h x = Some g \<Longrightarrow> \<exists>g'. relink ys f zs h x = Some g' \<and> same_file g g'"
proof -
  have r: "rel_option same_file (h x) (relink ys f zs h x)" using same_files_relink unfolding same_files_def by blast
  then show "relink ys f zs h x = None \<longleftrightarrow> h x = None" by (cases "h x"; cases "relink ys f zs h x") simp_all
  from r show "h x = Some g \<Longrightarrow> \<exists>g'. relink ys f zs h x = Some g' \<and> same_file g g'"
    by (cases "relink ys f zs h x") simp_all
qed

lemma src_of_relink: "src_of (relink ys f zs h) = src_of h"
proof
  fix x
  show "src_of (relink ys f zs h) x = src_of h x"
    using relink_keeps(1) [of ys f zs h x] relink_keeps(2) [of h x _ ys f zs]
    by (cases "h x") (auto simp: src_of_def same_file_def)
qed

lemma dequeue_item_relink:
  assumes "fheap st a = Some f" and "f_prev f = (if ys = [] then None else Some (last ys))"
    and "f_next f = (if zs = [] then None else Some (hd zs))"
  shows "fheap (dequeue_item a st) = relink ys f zs (fheap st)"
    and "queued_files (dequeue_item a st) = tdelete strcmp (src_of (fheap st)) (f_src f) (queued_files st)"
    and "inqueue (dequeue_item a st) = (if inqueue st = Some a then f_next f else inqueue st)"
    and "queue_nr (dequeue_item a st) = queue_nr st - 1"
    and "files (dequeue_item a st) = files st" and "tree_files_nr (dequeue_item a st) = tree_files_nr st"
    and "brk (dequeue_item a st) = brk st"
proof -
  let ?q = "tdelete strcmp (src_of (fheap st)) (f_src f) (queued_files st)"
  let ?st1 = "st\<lparr>queued_files := ?q\<rparr>"
  let ?st2 = "if ys = [] then ?st1 else upd_file (last ys) (\<lambda>g. g\<lparr>f_next := f_next f\<rparr>) ?st1"
  let ?st3 = "if zs = [] then ?st2 else upd_file (hd zs) (\<lambda>g. g\<lparr>f_prev := f_prev f\<rparr>) ?st2"
  have d: "dequeue_item a st = ?st3\<lparr>inqueue := (if inqueue st = Some a then f_next f else inqueue st),
      queue_nr := queue_nr st - 1\<rparr>"
    unfolding dequeue_item_def assms(1) Let_def option.case
    using assms(2,3) by (cases "ys = []"; cases "zs = []") simp_all
  show "fheap (dequeue_item a st) = relink ys f zs (fheap st)"
    unfolding d relink_def Let_def by (simp add: upd_file_def)
  show "queued_files (dequeue_item a st) = ?q" "files (dequeue_item a st) = files st"
    "tree_files_nr (dequeue_item a st) = tree_files_nr st" "brk (dequeue_item a st) = brk st"
    "inqueue (dequeue_item a st) = (if inqueue st = Some a then f_next f else inqueue st)"
    "queue_nr (dequeue_item a st) = queue_nr st - 1"
    unfolding d by (simp_all add: upd_file_def)
qed

lemma dequeue_item_ok:
  assumes ok: "queue_ok st xs" and a: "a \<in> set xs"
  shows "queue_ok (dequeue_item a st) (removeAll a xs)" and "keeps_files st (dequeue_item a st)"
    and "files (dequeue_item a st) = files st" and "dom (fheap (dequeue_item a st)) = dom (fheap st)"
proof -
  from a obtain ys zs where xs: "xs = ys @ a # zs" by (meson split_list)
  from ok have links: "dlinked (fheap st) None (inqueue st) (ys @ a # zs)" and ds: "distinct (ys @ a # zs)"
    by (simp_all add: queue_ok_def xs)
  obtain f where f: "fheap st a = Some f" using dlinked_dom [OF links] by fastforce
  note ends = dlinked_split [OF links f]
  note deq = dequeue_item_relink [OF f ends]
  have rem: "removeAll a xs = ys @ zs" using ds by (simp add: xs)
  have head: "inqueue st = Some a \<longleftrightarrow> ys = []"
    using dlinked_head [OF links] ds by (cases ys) auto
  have sub: "x \<in> set xs \<Longrightarrow> src_of (fheap st) x = f_src f \<Longrightarrow> x = a" for x
  proof -
    assume "x \<in> set xs" "src_of (fheap st) x = f_src f"
    then have "queue_find (f_src f) st = Some x" using queue_find_Some [OF ok] by simp
    moreover have "queue_find (f_src f) st = Some a" using queue_find_Some [OF ok] f a by simp
    ultimately show "x = a" by simp
  qed
  have tree: "set (queued_files st) = set xs" "tree_sorted strcmp (src_of (fheap st)) (queued_files st)"
    using ok by (simp_all add: queue_ok_def)
  have "set (tdelete strcmp (src_of (fheap st)) (f_src f) (queued_files st)) = set (ys @ zs)"
    unfolding str_order.tdelete_set [OF tree(2)] tree(1) using sub f ds xs by auto
  moreover show dom: "dom (fheap (dequeue_item a st)) = dom (fheap st)"
    unfolding deq(1) by (auto simp: dom_def relink_keeps(1))
  moreover have "dlinked (relink ys f zs (fheap st)) None (if inqueue st = Some a then f_next f else inqueue st) (ys @ zs)"
    using dlinked_remove [OF links ds f] by (simp only: head)
  ultimately show "queue_ok (dequeue_item a st) (removeAll a xs)"
    using ok ds str_order.tdelete_sorted [OF tree(2)] unfolding rem queue_ok_def deq src_of_relink
    by (simp add: xs)
  show "keeps_files st (dequeue_item a st)"
    unfolding keeps_files_def deq(1) using relink_keeps(2) unfolding same_file_def by blast
  show "files (dequeue_item a st) = files st" by (rule deq(5))
qed

section \<open>What enqueueing operations promise\<close>

text \<open>
  The paths of the queue and of the tree; what every operation keeps: the old queue is the end of the new one and the new files are new in memory, the tree is
  the same, and every file has its path. \<open>stats_ok\<close> says that the \<open>stat\<close> of a file is empty or one that \<open>S\<close> allows for
  its path.
\<close>

definition known :: "put_state \<Rightarrow> string set" where
  "known st = src_of (fheap st) ` (set (queued_files st) \<union> set (files st))"

definition stats_ok :: "(string \<Rightarrow> stat \<Rightarrow> bool) \<Rightarrow> put_state \<Rightarrow> bool" where
  "stats_ok S st \<longleftrightarrow> (\<forall>a f. fheap st a = Some f \<longrightarrow> f_stat f = stat0 \<or> S (f_src f) (f_stat f))"

text \<open>A specification of the values in the state: the \<open>stat\<close> of each path, and the paths in the cache of libraries.\<close>

type_synonym put_spec = "(string \<Rightarrow> stat \<Rightarrow> bool) \<times> string set"

definition side_ok :: "put_spec \<Rightarrow> put_state \<Rightarrow> bool" where
  "side_ok S st \<longleftrightarrow> stats_ok (fst S) st \<and> ce_path ` set (elf_cache st) \<subseteq> snd S"

definition put_inv :: "put_spec \<Rightarrow> put_state \<Rightarrow> bool" where
  "put_inv S st \<longleftrightarrow> (\<exists>xs. queue_ok st xs) \<and> side_ok S st"

definition extends :: "put_state \<Rightarrow> put_state \<Rightarrow> bool" where
  "extends st st' \<longleftrightarrow> (\<forall>xs. queue_ok st xs \<longrightarrow> (\<exists>ns. queue_ok st' (ns @ xs) \<and> set ns \<inter> dom (fheap st) = {})) \<and> files st' = files st \<and>
     (\<forall>a f. fheap st a = Some f \<longrightarrow> (\<exists>f'. fheap st' a = Some f' \<and> f_src f' = f_src f))"

text \<open>
  The contract of an operation with the result \<open>r\<close>: it does not find the queue broken, the paths of \<open>must\<close> are known after
  it unless they are excluded, and only paths of \<open>may\<close> are new.
\<close>

text \<open>The errors that do not say that the queue or the memory is broken.\<close>

definition benign :: "put_error \<Rightarrow> bool" where
  "benign e \<longleftrightarrow> e \<noteq> BadQueueHead \<and> e \<noteq> UseAfterFree"

definition enq_ok ::
  "put_spec \<Rightarrow> (string \<Rightarrow> bool) list \<Rightarrow> string set \<Rightarrow> string set \<Rightarrow> put_state \<Rightarrow> put_error + put_state \<Rightarrow> bool" where
  "enq_ok S ex must may st r \<longleftrightarrow>
     (case r of
        Inl e \<Rightarrow> benign e
      | Inr st' \<Rightarrow> extends st st' \<and> side_ok S st' \<and> known st \<subseteq> known st' \<and> known st' \<subseteq> known st \<union> may \<and>
          (\<forall>p \<in> must. list_ex (\<lambda>m. m p) ex \<or> p \<in> known st'))"

lemma extends_refl: "extends st st"
  unfolding extends_def by (auto intro: exI [of _ "[]"])

lemma extends_dom: "extends st st' \<Longrightarrow> dom (fheap st) \<subseteq> dom (fheap st')"
  unfolding extends_def by blast

lemma extends_trans:
  assumes "extends st st'" "extends st' st''"
  shows "extends st st''"
proof -
  have "\<exists>ns. queue_ok st'' (ns @ xs) \<and> set ns \<inter> dom (fheap st) = {}" if q: "queue_ok st xs" for xs
  proof -
    obtain ns where ns: "queue_ok st' (ns @ xs)" "set ns \<inter> dom (fheap st) = {}"
      using assms(1) q unfolding extends_def by blast
    obtain ms where ms: "queue_ok st'' (ms @ ns @ xs)" "set ms \<inter> dom (fheap st') = {}"
      using assms(2) ns(1) unfolding extends_def by blast
    have "set (ms @ ns) \<inter> dom (fheap st) = {}" using ns(2) ms(2) extends_dom [OF assms(1)] unfolding set_append by blast
    then show ?thesis using ms(1) by (metis append.assoc)
  qed
  moreover have "\<exists>f'. fheap st'' a = Some f' \<and> f_src f' = f_src f" if "fheap st a = Some f" for a f
    using assms that unfolding extends_def by metis
  ultimately show ?thesis using assms unfolding extends_def by simp
qed

lemma extends_inv: "extends st st' \<Longrightarrow> put_inv S st \<Longrightarrow> side_ok S st' \<Longrightarrow> put_inv S st'"
  unfolding extends_def put_inv_def by blast

lemma benign_simps [simp]: "benign (PutFailed m)" "benign BufferOverflow" "\<not> benign BadQueueHead" "\<not> benign UseAfterFree"
  by (simp_all add: benign_def)

lemma enq_ok_Inl: "benign e \<Longrightarrow> enq_ok S ex must may st (Inl e)"
  by (simp add: enq_ok_def)

lemma enq_ok_skip: "put_inv S st \<Longrightarrow> must \<subseteq> known st \<Longrightarrow> enq_ok S ex must may st (Inr st)"
  by (auto simp: enq_ok_def extends_refl put_inv_def)

lemma enq_ok_seq:
  assumes inv: "put_inv S st" and r: "enq_ok S ex m1 y1 st r"
    and f: "\<And>st'. put_inv S st' \<Longrightarrow> enq_ok S ex m2 y2 st' (f st')"
  shows "enq_ok S ex (m1 \<union> m2) (y1 \<union> y2) st (bind_res r f)"
proof (cases r)
  case (Inr st1)
  then have s1: "extends st st1" "side_ok S st1" "known st \<subseteq> known st1" "known st1 \<subseteq> known st \<union> y1"
    "\<forall>p \<in> m1. list_ex (\<lambda>m. m p) ex \<or> p \<in> known st1"
    using r by (simp_all add: enq_ok_def)
  have f1: "enq_ok S ex m2 y2 st1 (f st1)" by (rule f) (rule extends_inv [OF s1(1) inv s1(2)])
  show ?thesis
  proof (cases "f st1")
    case (Inr st2)
    then have "extends st1 st2" "side_ok S st2" "known st1 \<subseteq> known st2" "known st2 \<subseteq> known st1 \<union> y2"
      "\<forall>p \<in> m2. list_ex (\<lambda>m. m p) ex \<or> p \<in> known st2"
      using f1 by (simp_all add: enq_ok_def)
    then show ?thesis
      using s1 extends_trans [OF s1(1)] \<open>r = Inr st1\<close> Inr unfolding enq_ok_def by (simp, blast)
  qed (use f1 \<open>r = Inr st1\<close> in \<open>simp add: enq_ok_def\<close>)
qed (use r in \<open>simp add: enq_ok_def\<close>)

lemma enq_ok_fold:
  assumes "\<And>x st. x \<in> set xs \<Longrightarrow> put_inv S st \<Longrightarrow> enq_ok S ex (m x) (y x) st (f x st)"
  shows "put_inv S st \<Longrightarrow> enq_ok S ex (\<Union>x \<in> set xs. m x) (\<Union>x \<in> set xs. y x) st (fold_res f xs st)"
  using assms
proof (induction xs arbitrary: st)
  case Nil
  then show ?case by (simp add: enq_ok_skip)
next
  case (Cons x xs)
  have "enq_ok S ex (m x \<union> (\<Union>x \<in> set xs. m x)) (y x \<union> (\<Union>x \<in> set xs. y x)) st (bind_res (f x st) (fold_res f xs))"
    using Cons.prems(1) Cons.prems(2) [of x st] Cons.IH Cons.prems(2)
    by (intro enq_ok_seq) simp_all
  then show ?case by simp
qed

lemma enq_ok_weaken: "enq_ok S ex m y st r \<Longrightarrow> m' \<subseteq> m \<Longrightarrow> y \<subseteq> y' \<Longrightarrow> enq_ok S ex m' y' st r"
  unfolding enq_ok_def by (auto split: sum.splits)

text \<open>A change of a file that keeps its path and its links.\<close>

definition keeps_links :: "(put_file \<Rightarrow> put_file) \<Rightarrow> bool" where
  "keeps_links g \<longleftrightarrow> (\<forall>f. f_src (g f) = f_src f \<and> f_prev (g f) = f_prev f \<and> f_next (g f) = f_next f)"

lemma upd_file_simps [simp]:
  "inqueue (upd_file a g st) = inqueue st" "queue_nr (upd_file a g st) = queue_nr st" "brk (upd_file a g st) = brk st"
  "queued_files (upd_file a g st) = queued_files st" "files (upd_file a g st) = files st"
  "tree_files_nr (upd_file a g st) = tree_files_nr st" "elf_cache (upd_file a g st) = elf_cache st"
  "fheap (upd_file a g st) b = (if b = a then map_option g (fheap st a) else fheap st b)"
  by (simp_all add: upd_file_def)

lemma upd_file_src: "keeps_links g \<Longrightarrow> src_of (fheap (upd_file a g st)) = src_of (fheap st)"
  by (rule ext) (simp add: src_of_def keeps_links_def split: option.splits)

lemma upd_file_dom: "dom (fheap (upd_file a g st)) = dom (fheap st)"
  by (auto simp: dom_def)

lemma upd_file_queue_ok:
  assumes "keeps_links g" "queue_ok st xs"
  shows "queue_ok (upd_file a g st) xs"
proof -
  have "dlinked (fheap (upd_file a g st)) None (inqueue st) xs"
  proof (rule dlinked_same_links)
    show "dlinked (fheap st) None (inqueue st) xs" using assms(2) by (simp add: queue_ok_def)
    show "\<exists>f'. fheap (upd_file a g st) x = Some f' \<and> f_prev f' = f_prev f \<and> f_next f' = f_next f"
      if "fheap st x = Some f" for x f
      using assms(1) that by (auto simp: keeps_links_def)
  qed
  then show ?thesis using assms(2) by (simp add: queue_ok_def upd_file_src [OF assms(1)] upd_file_dom)
qed

lemma upd_file_extends: "keeps_links g \<Longrightarrow> extends st (upd_file a g st)"
  unfolding extends_def using upd_file_queue_ok by (auto simp: keeps_links_def intro: exI [of _ "[]"])

lemma upd_file_known: "keeps_links g \<Longrightarrow> known (upd_file a g st) = known st"
  by (simp add: known_def upd_file_src)

lemma upd_file_stats:
  assumes "stats_ok S st" "\<And>f. fheap st a = Some f \<Longrightarrow> keeps_links g \<and> (f_stat (g f) = f_stat f \<or> S (f_src f) (f_stat (g f)))"
  shows "stats_ok S (upd_file a g st)"
  unfolding stats_ok_def
proof (intro allI impI)
  fix b f
  assume f: "fheap (upd_file a g st) b = Some f"
  show "f_stat f = stat0 \<or> S (f_src f) (f_stat f)"
  proof (cases "b = a")
    case True
    then obtain f0 where f0: "fheap st a = Some f0" "f = g f0" using f by auto
    then show ?thesis using assms(2) [OF f0(1)] assms(1) unfolding stats_ok_def keeps_links_def by metis
  next
    case False
    then show ?thesis using f assms(1) by (auto simp: stats_ok_def)
  qed
qed

lemma known_cong:
  assumes "queue_ok st xs" "keeps_files st st'" "queued_files st' = queued_files st" "files st' = files st"
  shows "known st' = known st"
proof -
  have "a \<in> dom (fheap st)" if "a \<in> set (queued_files st) \<union> set (files st)" for a
    using that assms(1) queue_ok_dom [OF assms(1)] by (auto simp: queue_ok_def)
  then show ?thesis
    unfolding known_def assms(3,4) using keeps_files_src [OF assms(2)] by (intro image_cong) auto
qed

text \<open>\<open>enqueue_item\<close>: only the path is new, and it is known afterwards.\<close>

lemma enqueue_item_result:
  assumes inv: "put_inv S st"
  obtains r st' where "enqueue_item ex str len st = Inr (r, st')" "extends st st'" "side_ok S st'"
    "known st' = known st \<union> (if list_ex (\<lambda>m. m (item_path str len)) ex then {} else {item_path str len})"
    "\<And>a. r = Some a \<Longrightarrow> \<exists>f. fheap st' a = Some f \<and> f_src f = item_path str len"
proof -
  let ?p = "item_path str len"
  obtain xs where ok: "queue_ok st xs" and S: "side_ok S st" using inv by (auto simp: put_inv_def)
  have q: "known st = src_of (fheap st) ` (set xs \<union> set (files st))" using ok by (simp add: known_def queue_ok_def)
  show thesis
  proof (cases "list_ex (\<lambda>m. m ?p) ex \<or> ?p \<in> known st")
    case True
    obtain r where r: "enqueue_item ex str len st = Inr (r, st)"
      "\<And>a. r = Some a \<Longrightarrow> a \<in> set xs \<and> src_of (fheap st) a = ?p"
      using enqueue_item_ok [OF ok, of ex str len] True q by (auto split: if_splits)
    have "\<exists>f. fheap st a = Some f \<and> f_src f = ?p" if "r = Some a" for a
      using r(2) [OF that] queue_ok_dom [OF ok] by (auto simp: src_of_def split: option.splits)
    moreover have "known st = known st \<union> (if list_ex (\<lambda>m. m ?p) ex then {} else {?p})" using True by auto
    ultimately show thesis using that [OF r(1) extends_refl S] by blast
  next
    case False
    then have new: "\<not> list_ex (\<lambda>m. m ?p) ex" "?p \<notin> src_of (fheap st) ` (set xs \<union> set (files st))" using q by auto
    from enqueue_new [OF ok this] obtain st' where st': "enqueue_item ex str len st = Inr (Some (brk st), st')"
      "queue_ok st' (brk st # xs)" "fheap st' (brk st) = Some ((file0 ?p)\<lparr>f_next := inqueue st\<rparr>)"
      "files st' = files st" "keeps_files st st'" "dom (fheap st') = insert (brk st) (dom (fheap st))" "elf_cache st' = elf_cache st" by blast
    have xs: "ys = xs" if "queue_ok st ys" for ys
      using that ok dlinked_unique by (auto simp: queue_ok_def)
    have ext: "extends st st'"
    proof -
      have "set [brk st] \<inter> dom (fheap st) = {}" using ok by (auto simp: queue_ok_def)
      then have "\<exists>ns. queue_ok st' (ns @ ys) \<and> set ns \<inter> dom (fheap st) = {}" if "queue_ok st ys" for ys
        using st'(2) xs [OF that] by (intro exI [of _ "[brk st]"]) simp
      then show ?thesis using st'(4,5) unfolding extends_def keeps_files_def by blast
    qed
    have old: "\<exists>f. fheap st a = Some f \<and> f_src f' = f_src f \<and> f_stat f' = f_stat f" if "fheap st' a = Some f'" "a \<noteq> brk st" for a f'
    proof -
      have "a \<in> dom (fheap st)" using that st'(6) by (metis domI insertE)
      then obtain f where "fheap st a = Some f" by blast
      moreover from this obtain f'' where "fheap st' a = Some f''" "f_src f'' = f_src f" "f_stat f'' = f_stat f"
        using st'(5) unfolding keeps_files_def by blast
      ultimately show ?thesis using that(1) by simp
    qed
    have "stats_ok (fst S) st'" unfolding stats_ok_def
    proof (intro allI impI)
      fix a f'
      assume f': "fheap st' a = Some f'"
      show "f_stat f' = stat0 \<or> fst S (f_src f') (f_stat f')"
      proof (cases "a = brk st")
        case True
        then show ?thesis using f' st'(3) by (auto simp: file0_def)
      next
        case False
        then show ?thesis using old [OF f'] S unfolding side_ok_def stats_ok_def by metis
      qed
    qed
    then have "side_ok S st'" using S st'(7) by (simp add: side_ok_def)
    moreover have "known st' = known st \<union> {?p}"
    proof -
      have "set xs \<union> set (files st) \<subseteq> dom (fheap st)" using queue_ok_dom [OF ok] ok by (auto simp: queue_ok_def)
      then have "src_of (fheap st') ` (set xs \<union> set (files st)) = known st"
        unfolding q using keeps_files_src [OF st'(5)] by (intro image_cong refl) blast
      moreover have "known st' = insert (src_of (fheap st') (brk st)) (src_of (fheap st') ` (set xs \<union> set (files st)))"
        using st'(2,4) by (auto simp: known_def queue_ok_def)
      ultimately show ?thesis using st'(3) by (simp add: file0_def)
    qed
    ultimately show thesis using that [OF st'(1) ext] new(1) st'(3) by (simp add: file0_def)
  qed
qed

lemma enqueue_item_enq:
  assumes inv: "put_inv S st"
    and g: "keeps_links g" "\<And>f. f_src f = item_path str len \<Longrightarrow> f_stat (g f) = f_stat f \<or> fst S (f_src f) (f_stat (g f))"
  shows "enq_ok S ex {item_path str len} {item_path str len} st
    (bind_res (enqueue_item ex str len st) (\<lambda>(r, s). Inr (case r of None \<Rightarrow> s | Some a \<Rightarrow> upd_file a g s)))"
proof -
  from enqueue_item_result [OF inv, of ex str len] obtain r st' where
    st': "enqueue_item ex str len st = Inr (r, st')" "extends st st'" "side_ok S st'"
    "known st' = known st \<union> (if list_ex (\<lambda>m. m (item_path str len)) ex then {} else {item_path str len})"
    "\<And>a. r = Some a \<Longrightarrow> \<exists>f. fheap st' a = Some f \<and> f_src f = item_path str len" by blast
  have must: "\<forall>p \<in> {item_path str len}. list_ex (\<lambda>m. m p) ex \<or> p \<in> known st'" and may: "known st \<subseteq> known st'"
    "known st' \<subseteq> known st \<union> {item_path str len}" unfolding st'(4) by auto
  show ?thesis
  proof (cases r)
    case (Some a)
    have "stats_ok (fst S) (upd_file a g st')"
      using st'(3,5) Some g by (intro upd_file_stats) (auto simp: side_ok_def)
    then have "side_ok S (upd_file a g st')" using st'(3) by (simp add: side_ok_def)
    then show ?thesis
      using must may extends_trans [OF st'(2) upd_file_extends [OF g(1)]]
      by (simp add: enq_ok_def st'(1) Some upd_file_known [OF g(1)])
  qed (use st'(1-3) must may in \<open>simp add: enq_ok_def\<close>)
qed

lemma enqueue_item_plain:
  assumes "put_inv S st"
  shows "enq_ok S ex {item_path str len} {item_path str len} st (bind_res (enqueue_item ex str len st) (\<lambda>(_, s). Inr s))"
proof -
  from enqueue_item_result [OF assms, of ex str len] obtain r st' where
    st': "enqueue_item ex str len st = Inr (r, st')" "extends st st'" "side_ok S st'"
    "known st' = known st \<union> (if list_ex (\<lambda>m. m (item_path str len)) ex then {} else {item_path str len})"
    "\<And>a. r = Some a \<Longrightarrow> \<exists>f. fheap st' a = Some f \<and> f_src f = item_path str len" by blast
  have "\<forall>p \<in> {item_path str len}. list_ex (\<lambda>m. m p) ex \<or> p \<in> known st'" "known st \<subseteq> known st'"
    "known st' \<subseteq> known st \<union> {item_path str len}" unfolding st'(4) by auto
  then show ?thesis by (simp add: enq_ok_def st'(1-3))
qed

section \<open>Runs of queue operations\<close>

lemma tree_add_file_ok:
  assumes ok: "queue_ok st xs" and a: "fheap st a = Some f" "a \<notin> set (files st)"
  obtains (old) "tree_add_file a st = (False, st)" "f_src f \<in> src_of (fheap st) ` set (files st)"
    | (new) t where "tree_add_file a st = (True, st\<lparr>files := t, tree_files_nr := tree_files_nr st + 1\<rparr>)"
        "f_src f \<notin> src_of (fheap st) ` set (files st)" "set t = insert a (set (files st))"
        "queue_ok (st\<lparr>files := t, tree_files_nr := tree_files_nr st + 1\<rparr>) xs"
proof -
  let ?k = "src_of (fheap st)"
  let ?t = "tsearch strcmp ?k a (files st)"
  from ok have sorted: "tree_sorted strcmp ?k (files st)" and nr: "tree_files_nr st = length (files st)"
    and dom: "set (files st) \<subseteq> dom (fheap st)" by (simp_all add: queue_ok_def)
  have k: "?k a = f_src f" using a(1) by simp
  have len: "length t = card (set t)" if "tree_sorted strcmp ?k t" for t
    using str_order.tree_sorted_distinct [OF that] by (simp add: distinct_card distinct_map)
  show thesis
  proof (cases "f_src f \<in> ?k ` set (files st)")
    case True
    then obtain y where y: "y \<in> set (files st)" "?k y = ?k a" using k by auto
    then have "fst ?t = y" using str_order.tsearch_result(2) [OF sorted] by blast
    then have "fst ?t \<noteq> a" using y(1) a(2) by auto
    moreover have "snd ?t = files st" using str_order.tsearch_found [OF sorted y] .
    ultimately have "tree_add_file a st = (False, st)"
      unfolding tree_add_file_def by (cases ?t) simp
    then show thesis using old True by blast
  next
    case False
    then have r: "fst ?t = a" and set: "set (snd ?t) = insert a (set (files st))"
      using str_order.tsearch_result(1) [OF sorted, of a] str_order.tsearch_set [OF sorted, of a] k by simp_all
    have sorted': "tree_sorted strcmp ?k (snd ?t)" by (rule str_order.tsearch_sorted [OF sorted])
    have "length (snd ?t) = length (files st) + 1"
      using len [OF sorted'] len [OF sorted] set a(2) by simp
    then have "queue_ok (st\<lparr>files := snd ?t, tree_files_nr := tree_files_nr st + 1\<rparr>) xs"
      using ok sorted' nr dom set a(1) by (auto simp: queue_ok_def)
    moreover have "tree_add_file a st = (True, st\<lparr>files := snd ?t, tree_files_nr := tree_files_nr st + 1\<rparr>)"
      unfolding tree_add_file_def using r by (cases ?t) simp
    ultimately show thesis using new [of "snd ?t"] False set by blast
  qed
qed

lemma free_file_ok:
  assumes ok: "queue_ok st xs" and a: "a \<notin> set xs" "a \<notin> set (files st)"
  shows "queue_ok (free_file a st) xs" and "known (free_file a st) = known st"
proof -
  have src: "x \<noteq> a \<Longrightarrow> src_of (fheap (free_file a st)) x = src_of (fheap st) x" for x
    by (simp add: free_file_def src_of_def)
  have q: "set (queued_files st) = set xs" using ok by (simp add: queue_ok_def)
  have "tree_sorted strcmp (src_of (fheap (free_file a st))) (queued_files st)" "tree_sorted strcmp (src_of (fheap (free_file a st))) (files st)"
    using ok a src q tree_sorted_cong [of _ "src_of (fheap (free_file a st))" "src_of (fheap st)" strcmp]
    unfolding queue_ok_def by metis+
  moreover have "dlinked (fheap (free_file a st)) None (inqueue st) xs"
    using ok dlinked_frame [OF a(1)] by (simp add: queue_ok_def free_file_def)
  ultimately show "queue_ok (free_file a st) xs"
    using ok a by (auto simp: queue_ok_def free_file_def)
  have eq: "queued_files (free_file a st) = queued_files st" "files (free_file a st) = files st" by (simp_all add: free_file_def)
  show "known (free_file a st) = known st"
    unfolding known_def eq q using a by (intro image_cong refl src) blast
qed

text \<open>
  The states that calls of the queue and tree functions lead to: files are dequeued when they are queued, and freed when
  they are in neither structure, as the main loop does.
\<close>

inductive put_reach :: "put_state \<Rightarrow> bool" where
  init: "put_reach put_init"
| enqueue: "put_reach st \<Longrightarrow> enqueue_item ex str len st = Inr (r, st') \<Longrightarrow> put_reach st'"
| dequeue: "put_reach st \<Longrightarrow> a \<in> set (queued_files st) \<Longrightarrow> put_reach (dequeue_item a st)"
| tree_add: "put_reach st \<Longrightarrow> a \<in> set (queued_files st) \<Longrightarrow> a \<notin> set (files st) \<Longrightarrow> put_reach (snd (tree_add_file a st))"
| free: "put_reach st \<Longrightarrow> a \<notin> set (queued_files st) \<Longrightarrow> a \<notin> set (files st) \<Longrightarrow> put_reach (free_file a st)"
| change: "put_reach st \<Longrightarrow> keeps_links g \<Longrightarrow> put_reach (upd_file a g st)"

lemma put_reach_ok: "put_reach st \<Longrightarrow> \<exists>xs. queue_ok st xs"
proof (induction rule: put_reach.induct)
  case init
  then show ?case using put_init_ok by blast
next
  case (enqueue st ex str len r st')
  then obtain xs where ok: "queue_ok st xs" by blast
  then have "put_inv (\<lambda>_ _. True, UNIV) st" by (auto simp: put_inv_def side_ok_def stats_ok_def)
  from enqueue_item_result [OF this, of ex str len] enqueue.hyps(2) have "extends st st'" by auto
  then show ?case using ok unfolding extends_def by blast
next
  case (dequeue st a)
  then obtain xs where "queue_ok st xs" "a \<in> set xs" by (auto simp: queue_ok_def)
  then show ?case using dequeue_item_ok(1) by blast
next
  case (tree_add st a)
  then obtain xs where ok: "queue_ok st xs" and a: "a \<in> set xs" by (auto simp: queue_ok_def)
  then obtain f where f: "fheap st a = Some f" using queue_ok_dom [OF ok] by blast
  show ?case by (rule tree_add_file_ok [OF ok f tree_add.hyps(3)]) (use ok in auto)
next
  case (free st a)
  then obtain xs where ok: "queue_ok st xs" by blast
  then show ?case using free_file_ok(1) free.hyps by (metis queue_ok_def)
next
  case (change st g a)
  then show ?case using upd_file_queue_ok by blast
qed

text \<open>
  C9: In every state that the queue functions lead to, the pointers form one doubly linked list without
  repetition, the tree of queued files has exactly the files of the list and both trees are sorted by path, the counters are
  the numbers of files, and no two queued or two processed files have the same path; so the check for a broken queue head
  in \<open>enqueue_item\<close> never fails.
\<close>
theorem queue_invariant:
  assumes "put_reach st"
  shows "\<exists>xs. dlinked (fheap st) None (inqueue st) xs \<and> distinct xs \<and> queue_nr st = length xs \<and>
           set (queued_files st) = set xs \<and> tree_files_nr st = length (files st) \<and>
           inj_on (src_of (fheap st)) (set xs) \<and> inj_on (src_of (fheap st)) (set (files st)) \<and>
           enqueue_item ex str len st \<noteq> Inl BadQueueHead"
proof -
  obtain xs where ok: "queue_ok st xs" using put_reach_ok [OF assms] by blast
  have "distinct (map (src_of (fheap st)) (queued_files st))" "distinct (map (src_of (fheap st)) (files st))"
    using ok str_order.tree_sorted_distinct by (auto simp: queue_ok_def)
  moreover have "\<exists>r st'. enqueue_item ex str len st = Inr (r, st')" using enqueue_item_ok [OF ok, of ex str len] by blast
  ultimately show ?thesis using ok by (auto simp: queue_ok_def distinct_map)
qed

text \<open>Two files are queued, the second is taken into the tree and off the queue.\<close>

definition sample_st :: put_state where
  "sample_st = snd (projr (enqueue_item [] ''/b'' (- 1) (snd (projr (enqueue_item [] ''/a/b'' 2 put_init)))))"

lemma sample_reach: "put_reach (dequeue_item 1 (snd (tree_add_file 1 sample_st)))"
proof -
  define s1 where "s1 = snd (projr (enqueue_item [] ''/a/b'' 2 put_init))"
  have 1: "enqueue_item [] ''/a/b'' 2 put_init = Inr (Some 0, s1)"
    by (simp add: s1_def enqueue_item_def put_init_def queue_find_def is_path_added_def is_path_queued_def Let_def)
  have 2: "enqueue_item [] ''/b'' (- 1) s1 = Inr (Some 1, sample_st)" "queued_files sample_st = [0, 1]" "files sample_st = []"
    by (simp_all add: s1_def sample_st_def enqueue_item_def put_init_def queue_find_def is_path_added_def
        is_path_queued_def Let_def item_path_def file0_def PATH_MAX_def numeral_2_eq_2)
  have "put_reach sample_st" using put_reach.enqueue [OF put_reach.enqueue [OF put_reach.init 1] 2(1)] .
  then have "put_reach (snd (tree_add_file 1 sample_st))" using put_reach.tree_add 2(2,3) by simp
  moreover have "1 \<in> set (queued_files (snd (tree_add_file 1 sample_st)))"
    using 2(2) by (simp add: tree_add_file_def split: prod.splits)
  ultimately show ?thesis by (rule put_reach.dequeue)
qed

theorem queue_invariant_witness:
  "enqueue_item [] ''/c'' (- 1) (dequeue_item 1 (snd (tree_add_file 1 sample_st))) \<noteq> Inl BadQueueHead"
  using queue_invariant [OF sample_reach, of "[]" "''/c''" "- 1"] by blast

end
