(* ===== verification/PutPath.thy ===== *)
theory PutPath
  imports PutQueue
begin

text \<open>
  The canonicalisation of paths of \<open>initrd-put\<close> (\<open>enqueue_canonicalized_path\<close> and its helpers in
  \<open>utils/initrd-put/initrd-put.c\<close>). The buffer \<open>rname\<close> is the string before \<open>dest\<close>, the rest of the name
  is the string from \<open>start\<close>; a store behind the end of \<open>rname\<close> is the error \<open>BufferOverflow\<close>. The file
  system is a parameter: the functions \<open>readlink\<close>, \<open>stat\<close>, \<open>lstat\<close> and so on of a \<open>world\<close>.
\<close>

section \<open>The file system the program reads\<close>

datatype errno = EINVAL | ENOENT | EACCES | EPERM | EOVERFLOW | EEXIST | EXDEV | ENOSYS | EOPNOTSUPP | EMLINK | EOTHER

datatype fts_info = FTS_DNR | FTS_ERR | FTS_NS | FTS_DP | FTS_OTHER

text \<open>
  What the program sees of an ELF file through libelf, in the order libelf lists it: the program headers (\<open>None\<close> where
  reading one fails) as whether it is \<open>PT_INTERP\<close>, its size and the bytes it names when all of them can be read; the
  entries of the dynamic section; the sections with their notes as type, length of the name, name and description.
\<close>

datatype dyn_tag = DT_NULL | DT_RPATH | DT_RUNPATH | DT_NEEDED "string option" | DT_OTHER

datatype note_section = ShdrFails | NoNotes | DataFails | Notes "(u32 \<times> u32 \<times> string \<times> string) list"

datatype json = JNull | JString string | JArray "json list" | JObject "(string \<times> json) list" | JOther

record elf_view =
  ev_kind_ok :: bool
  ev_ident :: "(u8 \<times> u16) option"
  ev_phdrs :: "(bool \<times> u64 \<times> string option) option list"
  ev_dynamic :: "dyn_tag option list option"
  ev_note_sections :: "note_section list"

record world =
  w_cwd :: "string option"
  w_readlink :: "string \<Rightarrow> errno + string"
  w_stat :: "string \<Rightarrow> errno + stat"
  w_lstat :: "string \<Rightarrow> errno + stat"
  w_fts :: "string \<Rightarrow> (fts_info \<times> string \<times> stat) list option"
  w_read :: "string \<Rightarrow> errno + string option"
  w_exec :: "string \<Rightarrow> bool"
  w_elf :: "string \<Rightarrow> elf_view option"
  w_ldd :: "string \<Rightarrow> (string list \<times> bool) option"
  w_json :: "string \<Rightarrow> json option"
  w_json_text :: "json \<Rightarrow> string"
  w_dlopen :: "string \<Rightarrow> string option"
  w_getenv :: "string \<Rightarrow> string option"
  w_regex :: "string \<Rightarrow> (string \<Rightarrow> bool) option"

section \<open>The components of a path\<close>

definition dir_suffix :: string where "dir_suffix = ''/./''"

definition IS_DIR_SEPARATOR :: "char \<Rightarrow> bool" where "IS_DIR_SEPARATOR c \<longleftrightarrow> c = CHR ''/''"

definition MAXSYMLINKS :: nat where "MAXSYMLINKS = 20"

text \<open>The sizes of \<open>rname\<close> and of \<open>extra_buffer\<close>; \<open>sizeof(dir_suffix)\<close> counts the NUL.\<close>

definition rname_size :: nat where "rname_size = PATH_MAX + (length dir_suffix + 1) + 1"

definition extra_size :: nat where "extra_size = PATH_MAX + 1"

text \<open>
  \<open>suffix_requires_dir_check\<close>: does the rest of the name, empty or starting with a slash, end in a slash or
  go on with a dot component that is not checked as a file name?
\<close>

function suffix_requires_dir_check :: "string \<Rightarrow> bool" where
  "suffix_requires_dir_check e =
     (if e = [] \<or> \<not> IS_DIR_SEPARATOR (hd e) then False
      else case dropWhile IS_DIR_SEPARATOR e of
             [] \<Rightarrow> True
           | c # e1 \<Rightarrow>
               if c \<noteq> CHR ''.'' then False
               else if e1 = [] \<or> hd e1 = CHR ''.'' \<and> (tl e1 = [] \<or> IS_DIR_SEPARATOR (hd (tl e1))) then True
               else suffix_requires_dir_check e1)"
  by auto
termination
proof (relation "measure length")
  fix e c e1
  assume "\<not> (e = [] \<or> \<not> IS_DIR_SEPARATOR (hd e))" "dropWhile IS_DIR_SEPARATOR e = c # e1"
  then show "(e1, e) \<in> measure length"
    using length_dropWhile_le [of IS_DIR_SEPARATOR e] by simp
qed simp

declare suffix_requires_dir_check.simps [simp del]

text \<open>\<open>dir_check\<close>: can the directory be searched?\<close>

definition dir_check :: "world \<Rightarrow> string \<Rightarrow> bool" where
  "dir_check w dir = (case w_stat w (dir @ dir_suffix) of Inr _ \<Rightarrow> True | Inl e \<Rightarrow> e = EOVERFLOW)"

text \<open>The loop that drops the last component, with the slash before it kept.\<close>

definition drop_last :: "string \<Rightarrow> string" where
  "drop_last dest = (if length dest > 1 then rev (dropWhile (\<lambda>c. \<not> IS_DIR_SEPARATOR c) (rev (butlast dest))) else dest)"

text \<open>
  The loop over the components: the symlinks that were met, for which \<open>enqueue_item\<close> is called in this order, and
  the error of the loop, or the canonical name before its last slash is cut off.
\<close>

function canon_loop :: "world \<Rightarrow> nat \<Rightarrow> string \<Rightarrow> string \<Rightarrow> string list \<times> (put_error + string)" where
  "canon_loop w num_links dest start =
     (if start = [] then ([], Inr dest)
      else
        let s = dropWhile IS_DIR_SEPARATOR start;
            comp = takeWhile (\<lambda>c. \<not> IS_DIR_SEPARATOR c) s;
            end = dropWhile (\<lambda>c. \<not> IS_DIR_SEPARATOR c) s
        in if comp = [] then ([], Inr dest)
           else if comp = ''.'' then canon_loop w num_links dest end
           else if comp = ''..'' then canon_loop w num_links (drop_last dest) end
           else if \<not> IS_DIR_SEPARATOR (last dest) \<and> length dest \<ge> rname_size then ([], Inl BufferOverflow)
           else
             let dest1 = (if IS_DIR_SEPARATOR (last dest) then dest else dest @ ''/'')
             in if rname_size - length dest1 < length comp + (length dir_suffix + 1)
                then ([], Inl (if length dest1 \<ge> rname_size then BufferOverflow else PutFailed ''ENAMETOOLONG''))
                else
                  let rname = dest1 @ comp
                  in case w_readlink w rname of
                       Inr target \<Rightarrow>
                         let buf = take PATH_MAX target
                         in if num_links + 1 > MAXSYMLINKS then ([], Inl (PutFailed ''ELOOP''))
                            else if extra_size \<le> length end + length buf then ([rname], Inl (PutFailed ''bad path''))
                            else
                              let dest2 = (if buf \<noteq> [] \<and> IS_DIR_SEPARATOR (hd buf) then ''/'' else drop_last rname)
                              in (case canon_loop w (num_links + 1) dest2 (buf @ end) of
                                    (links, r) \<Rightarrow> (rname # links, r))
                     | Inl e \<Rightarrow>
                         if (if suffix_requires_dir_check end then dir_check w rname else e = EINVAL)
                         then canon_loop w num_links rname end
                         else ([], Inl (PutFailed ''component'')))"
  by pat_completeness auto

lemma canon_rest_shorter:
  assumes "takeWhile (\<lambda>c. \<not> IS_DIR_SEPARATOR c) (dropWhile IS_DIR_SEPARATOR start) \<noteq> []"
  shows "length (dropWhile (\<lambda>c. \<not> IS_DIR_SEPARATOR c) (dropWhile IS_DIR_SEPARATOR start)) < length start"
proof -
  let ?s = "dropWhile IS_DIR_SEPARATOR start"
  have "length ?s = length (takeWhile (\<lambda>c. \<not> IS_DIR_SEPARATOR c) ?s) + length (dropWhile (\<lambda>c. \<not> IS_DIR_SEPARATOR c) ?s)"
    by (metis length_append takeWhile_dropWhile_id)
  moreover have "length (takeWhile (\<lambda>c. \<not> IS_DIR_SEPARATOR c) ?s) > 0" using assms by simp
  ultimately show ?thesis using length_dropWhile_le [of IS_DIR_SEPARATOR start] by linarith
qed

termination canon_loop
  by (relation "measures [\<lambda>(w, n, d, s). MAXSYMLINKS + 1 - n, \<lambda>(w, n, d, s). length s]")
     (auto simp: canon_rest_shorter)

declare canon_loop.simps [simp del]

text \<open>The canonical form of a name, as \<open>enqueue_canonicalized_path\<close> computes it, and the symlinks on the way.\<close>

definition canonicalize :: "world \<Rightarrow> string \<Rightarrow> string list \<times> (put_error + string)" where
  "canonicalize w name =
     (if name = [] then ([], Inl (PutFailed ''ENOENT''))
      else case (if IS_DIR_SEPARATOR (hd name) then Some ''/'' else w_cwd w) of
             None \<Rightarrow> ([], Inl (PutFailed ''getcwd''))
           | Some dest0 \<Rightarrow>
               (case canon_loop w 0 dest0 name of
                  (links, Inl e) \<Rightarrow> (links, Inl e)
                | (links, Inr dest) \<Rightarrow>
                    (links, Inr (if length dest > 1 \<and> IS_DIR_SEPARATOR (last dest) then butlast dest else dest))))"

definition enqueue_canonicalized_path ::
  "(string \<Rightarrow> bool) list \<Rightarrow> world \<Rightarrow> string \<Rightarrow> bool \<Rightarrow> put_state \<Rightarrow> put_error + put_state" where
  "enqueue_canonicalized_path ex w name add_recursively st =
     (case canonicalize w name of
        (links, res) \<Rightarrow>
          bind_res (fold_res (\<lambda>l s. bind_res (enqueue_item ex l (-1) s) (\<lambda>(_, s'). Inr s')) links st) (\<lambda>st1.
          bind_res res (\<lambda>rname.
          bind_res (enqueue_item ex rname (-1) st1) (\<lambda>(f, st2).
            Inr (case f of None \<Rightarrow> st2 | Some a \<Rightarrow> upd_file a (\<lambda>g. g\<lparr>f_recursive := add_recursively\<rparr>) st2)))))"

section \<open>Canonical paths\<close>

definition good_comp :: "string \<Rightarrow> bool" where
  "good_comp c \<longleftrightarrow> c \<noteq> [] \<and> CHR ''/'' \<notin> set c \<and> c \<noteq> ''.'' \<and> c \<noteq> ''..''"

definition join_path :: "string list \<Rightarrow> string" where
  "join_path cs = concat (map (\<lambda>c. CHR ''/'' # c) cs)"

text \<open>\<open>cs\<close> are components of which none is a symlink below the ones before it.\<close>

definition plain_path :: "world \<Rightarrow> string list \<Rightarrow> bool" where
  "plain_path w cs \<longleftrightarrow> list_all good_comp cs \<and>
     (\<forall>n. 0 < n \<longrightarrow> n \<le> length cs \<longrightarrow> w_readlink w (join_path (take n cs)) = Inl EINVAL)"

text \<open>The contents of \<open>rname\<close> in the loop: a plain path, perhaps with a slash behind it.\<close>

definition dest_of :: "string list \<Rightarrow> string \<Rightarrow> bool" where
  "dest_of cs dest \<longleftrightarrow> dest = join_path cs @ ''/'' \<or> cs \<noteq> [] \<and> dest = join_path cs"

lemma join_path_simps [simp]:
  "join_path [] = []" "join_path (c # cs) = CHR ''/'' # c @ join_path cs" "join_path (cs @ ds) = join_path cs @ join_path ds"
  by (simp_all add: join_path_def)

lemma join_path_Nil_iff [simp]: "join_path cs = [] \<longleftrightarrow> cs = []" "[] = join_path cs \<longleftrightarrow> cs = []"
  by (cases cs; simp)+

lemma plain_path_Nil [simp]: "plain_path w []"
  by (simp add: plain_path_def)

lemma plain_path_take: "plain_path w cs \<Longrightarrow> plain_path w (take k cs)"
  unfolding plain_path_def by (auto simp: list_all_length take_take min_def)

lemma plain_path_butlast: "plain_path w (cs @ [c]) \<Longrightarrow> plain_path w cs"
  using plain_path_take [of w "cs @ [c]" "length cs"] by simp

lemma plain_path_snoc:
  assumes "plain_path w cs" "good_comp c" "w_readlink w (join_path (cs @ [c])) = Inl EINVAL"
  shows "plain_path w (cs @ [c])"
  unfolding plain_path_def
proof (intro conjI allI impI)
  show "list_all good_comp (cs @ [c])" using assms(1,2) by (simp add: plain_path_def)
  fix n
  assume n: "0 < n" "n \<le> length (cs @ [c])"
  show "w_readlink w (join_path (take n (cs @ [c]))) = Inl EINVAL"
  proof (cases "n \<le> length cs")
    case True
    then show ?thesis using assms(1) n by (simp add: plain_path_def)
  next
    case False
    then have "take n (cs @ [c]) = cs @ [c]" using n by simp
    then show ?thesis using assms(3) by simp
  qed
qed

lemma dest_of_nonempty: "dest_of cs dest \<Longrightarrow> dest \<noteq> []"
  by (auto simp: dest_of_def)

lemma good_comp_last: "good_comp c \<Longrightarrow> last (join_path cs @ CHR ''/'' # c) \<noteq> CHR ''/''"
  unfolding good_comp_def by (cases c rule: rev_cases) auto

lemma dest_of_last:
  assumes "dest_of cs dest" "list_all good_comp cs"
  shows "IS_DIR_SEPARATOR (last dest) \<longleftrightarrow> dest = join_path cs @ ''/''"
proof (cases cs rule: rev_cases)
  case (snoc ds c)
  then have "\<not> IS_DIR_SEPARATOR (last (join_path cs))"
    using assms(2) good_comp_last [of c ds] by (simp add: IS_DIR_SEPARATOR_def)
  then show ?thesis using assms(1) by (auto simp: dest_of_def IS_DIR_SEPARATOR_def)
qed (use assms in \<open>simp add: dest_of_def IS_DIR_SEPARATOR_def\<close>)

lemma with_slash:
  assumes "dest_of cs dest" "list_all good_comp cs"
  shows "(if IS_DIR_SEPARATOR (last dest) then dest else dest @ ''/'') = join_path cs @ ''/''"
  using dest_of_last [OF assms] assms(1) by (auto simp: dest_of_def)

lemma drop_last_comp:
  assumes "good_comp c"
  shows "drop_last (join_path cs @ CHR ''/'' # c) = join_path cs @ ''/''"
    and "drop_last (join_path cs @ CHR ''/'' # c @ ''/'') = join_path cs @ ''/''"
proof -
  have c: "x \<in> set (rev c) \<Longrightarrow> \<not> IS_DIR_SEPARATOR x" for x
    using assms by (auto simp: good_comp_def IS_DIR_SEPARATOR_def)
  have ne: "c \<noteq> []" using assms by (simp add: good_comp_def)
  have sep: "IS_DIR_SEPARATOR (CHR ''/'')" by (simp add: IS_DIR_SEPARATOR_def)
  have b: "x \<in> set (rev (butlast c)) \<Longrightarrow> \<not> IS_DIR_SEPARATOR x" for x using c in_set_butlastD [of x c] by simp
  have 1: "rev (butlast (join_path cs @ CHR ''/'' # c)) = rev (butlast c) @ CHR ''/'' # rev (join_path cs)"
    using ne by (simp add: butlast_append)
  have 2: "rev (butlast (join_path cs @ CHR ''/'' # c @ ''/'')) = rev c @ CHR ''/'' # rev (join_path cs)"
    by (simp add: butlast_append)
  show "drop_last (join_path cs @ CHR ''/'' # c) = join_path cs @ ''/''"
    unfolding drop_last_def 1 using dropWhile_append2 [of "rev (butlast c)", OF b] ne sep by simp
  show "drop_last (join_path cs @ CHR ''/'' # c @ ''/'') = join_path cs @ ''/''"
    unfolding drop_last_def 2 using dropWhile_append2 [of "rev c", OF c] ne sep by simp
qed

lemma drop_last_dest_of:
  assumes "dest_of cs dest" "list_all good_comp cs"
  shows "dest_of (butlast cs) (drop_last dest)"
proof (cases cs rule: rev_cases)
  case Nil
  then show ?thesis using assms(1) by (simp add: dest_of_def drop_last_def)
next
  case (snoc ds c)
  then have c: "good_comp c" using assms(2) by simp
  have "dest = join_path ds @ CHR ''/'' # c \<or> dest = join_path ds @ CHR ''/'' # c @ ''/''"
    using assms(1) snoc by (auto simp: dest_of_def)
  then show ?thesis using drop_last_comp [OF c, of ds] snoc by (auto simp: dest_of_def)
qed

lemma drop_last_length: "length (drop_last dest) \<le> length dest"
  unfolding drop_last_def
  using length_dropWhile_le [of "\<lambda>c. \<not> IS_DIR_SEPARATOR c" "rev (butlast dest)"] by (simp; linarith)

section \<open>Resolving a path\<close>

definition first_comp :: "string \<Rightarrow> string" where
  "first_comp s = takeWhile (\<lambda>c. \<not> IS_DIR_SEPARATOR c) (dropWhile IS_DIR_SEPARATOR s)"

definition rest_comps :: "string \<Rightarrow> string" where
  "rest_comps s = dropWhile (\<lambda>c. \<not> IS_DIR_SEPARATOR c) (dropWhile IS_DIR_SEPARATOR s)"

text \<open>
  \<open>resolves w cs s r\<close>: from the directory with the components \<open>cs\<close> the name \<open>s\<close> leads to the file with the
  components \<open>r\<close> when every symlink on the way is followed. This is the walk the kernel does.
\<close>

inductive resolves :: "world \<Rightarrow> string list \<Rightarrow> string \<Rightarrow> string list \<Rightarrow> bool" for w where
  stop: "first_comp s = [] \<Longrightarrow> resolves w cs s cs"
| dot: "first_comp s = ''.'' \<Longrightarrow> resolves w cs (rest_comps s) r \<Longrightarrow> resolves w cs s r"
| dotdot: "first_comp s = ''..'' \<Longrightarrow> resolves w (butlast cs) (rest_comps s) r \<Longrightarrow> resolves w cs s r"
| plain: "good_comp (first_comp s) \<Longrightarrow> w_readlink w (join_path (cs @ [first_comp s])) = Inl EINVAL \<Longrightarrow>
    resolves w (cs @ [first_comp s]) (rest_comps s) r \<Longrightarrow> resolves w cs s r"
| link: "good_comp (first_comp s) \<Longrightarrow> w_readlink w (join_path (cs @ [first_comp s])) = Inr target \<Longrightarrow>
    resolves w (if target \<noteq> [] \<and> hd target = CHR ''/'' then [] else cs) (target @ rest_comps s) r \<Longrightarrow> resolves w cs s r"

text \<open>
  What the code relies on: a directory that \<open>stat\<close> can search is no name for which \<open>readlink\<close> fails other than with
  \<open>EINVAL\<close>, and the text of a symlink fits \<open>PATH_MAX\<close>.
\<close>

definition readlink_sane :: "world \<Rightarrow> bool" where
  "readlink_sane w \<longleftrightarrow> (\<forall>p e. dir_check w p \<longrightarrow> w_readlink w p = Inl e \<longrightarrow> e = EINVAL) \<and>
     (\<forall>p t. w_readlink w p = Inr t \<longrightarrow> length t \<le> PATH_MAX)"

lemma first_comp_no_sep: "CHR ''/'' \<notin> set (first_comp s)"
  by (auto simp: first_comp_def IS_DIR_SEPARATOR_def dest: set_takeWhileD)

lemma first_comp_Nil [simp]: "first_comp [] = []"
  by (simp add: first_comp_def)

text \<open>A symlink the loop met: its directory is plain.\<close>

definition link_at :: "world \<Rightarrow> string \<Rightarrow> bool" where
  "link_at w l \<longleftrightarrow> (\<exists>cs c t. plain_path w cs \<and> good_comp c \<and> l = join_path (cs @ [c]) \<and> w_readlink w l = Inr t)"

text \<open>One turn of the loop, with the names of the components.\<close>

lemma canon_loop_turn:
  assumes d: "dest_of cs dest" "list_all good_comp cs"
  shows "canon_loop w n dest s =
    (if first_comp s = [] then ([], Inr dest)
     else if first_comp s = ''.'' then canon_loop w n dest (rest_comps s)
     else if first_comp s = ''..'' then canon_loop w n (drop_last dest) (rest_comps s)
     else if \<not> IS_DIR_SEPARATOR (last dest) \<and> length dest \<ge> rname_size then ([], Inl BufferOverflow)
     else
       let rname = join_path (cs @ [first_comp s])
       in if rname_size < length rname + 4
          then ([], Inl (if length (join_path cs) + 1 \<ge> rname_size then BufferOverflow else PutFailed ''ENAMETOOLONG''))
          else case w_readlink w rname of
                 Inr target \<Rightarrow>
                   let buf = take PATH_MAX target
                   in if n + 1 > MAXSYMLINKS then ([], Inl (PutFailed ''ELOOP''))
                      else if extra_size \<le> length (rest_comps s) + length buf then ([rname], Inl (PutFailed ''bad path''))
                      else (case canon_loop w (n + 1) (if buf \<noteq> [] \<and> IS_DIR_SEPARATOR (hd buf) then ''/'' else drop_last rname)
                                   (buf @ rest_comps s) of
                              (links, r) \<Rightarrow> (rname # links, r))
               | Inl e \<Rightarrow>
                   if (if suffix_requires_dir_check (rest_comps s) then dir_check w rname else e = EINVAL)
                   then canon_loop w n rname (rest_comps s)
                   else ([], Inl (PutFailed ''component'')))"
proof -
  let ?d1 = "if IS_DIR_SEPARATOR (last dest) then dest else dest @ ''/''"
  have d1: "?d1 = join_path cs @ ''/''" by (rule with_slash [OF d])
  have lt: "rname_size - (length (join_path cs) + 1) < length c + (length dir_suffix + 1) \<longleftrightarrow>
      rname_size < length (join_path (cs @ [c])) + 4" for c
    by (simp add: dir_suffix_def rname_size_def PATH_MAX_def; linarith)
  have rn: "(join_path cs @ ''/'') @ c = join_path (cs @ [c])" and len: "length (join_path cs @ ''/'') = length (join_path cs) + 1" for c
    by simp_all
  show ?thesis
    by (subst canon_loop.simps, cases "s = []")
       (simp_all only: Let_def d1 lt rn len first_comp_def [symmetric] rest_comps_def [symmetric] first_comp_Nil if_True if_False simp_thms)
qed

text \<open>What holds of the loop and its result.\<close>

definition canon_post :: "world \<Rightarrow> string list \<Rightarrow> string \<Rightarrow> string list \<times> (put_error + string) \<Rightarrow> bool" where
  "canon_post w cs s res \<longleftrightarrow>
     (\<forall>l \<in> set (fst res). link_at w l) \<and>
     (\<forall>dest. snd res = Inr dest \<longrightarrow> (\<exists>r. plain_path w r \<and> dest_of r dest \<and> resolves w cs s r))"

lemma canon_post_Inl: "(\<forall>l \<in> set ls. link_at w l) \<Longrightarrow> canon_post w cs s (ls, Inl e)"
  by (simp add: canon_post_def)

lemma canon_post_step:
  assumes "canon_post w cs' s' res" and "\<And>r. resolves w cs' s' r \<Longrightarrow> resolves w cs s r"
  shows "canon_post w cs s res"
  using assms unfolding canon_post_def by blast

text \<open>Induction over the loop: more links were followed, or the name got shorter.\<close>

lemma canon_induct [case_names turn]:
  fixes P :: "nat \<Rightarrow> string \<Rightarrow> string \<Rightarrow> bool"
  assumes step: "\<And>n dest s. (\<And>n' dest' s'. n < n' \<and> n' \<le> MAXSYMLINKS \<or> n' = n \<and> length s' < length s \<Longrightarrow> P n' dest' s')
    \<Longrightarrow> P n dest s"
  shows "P n dest s"
proof -
  let ?R = "measures [\<lambda>(n, d, s). MAXSYMLINKS + 1 - n, \<lambda>(n, d :: string, s :: string). length s]"
  have "\<forall>n d s. x = (n, d, s) \<longrightarrow> P n d s" for x :: "nat \<times> string \<times> string"
  proof (induction x rule: wf_induct [OF wf_measures [of "[\<lambda>(n, d, s). MAXSYMLINKS + 1 - n, \<lambda>(n, d :: string, s :: string). length s]"]])
    case (1 x)
    show ?case
    proof (intro allI impI)
      fix n d s
      assume x: "x = (n, d, s)"
      show "P n d s"
      proof (rule step)
        fix n' d' and s' :: string
        assume "n < n' \<and> n' \<le> MAXSYMLINKS \<or> n' = n \<and> length s' < length s"
        then have "((n', d', s'), x) \<in> ?R" using x by auto
        with 1 show "P n' d' s'" by blast
      qed
    qed
  qed
  then show ?thesis by blast
qed

lemma rest_comps_shorter: "first_comp s \<noteq> [] \<Longrightarrow> length (rest_comps s) < length s"
  unfolding first_comp_def rest_comps_def by (rule canon_rest_shorter)

text \<open>The turn of an ordinary component: an error, a file that is no symlink, or a symlink that is followed.\<close>

lemma canon_loop_component:
  assumes "plain_path w cs" "dest_of cs dest" and c: "good_comp (first_comp s)" and sane: "readlink_sane w"
  obtains (err) ls e where "canon_loop w n dest s = (ls, Inl e)" "\<forall>l \<in> set ls. link_at w l"
    | (plain) "canon_loop w n dest s = canon_loop w n (join_path (cs @ [first_comp s])) (rest_comps s)"
        "w_readlink w (join_path (cs @ [first_comp s])) = Inl EINVAL"
    | (link) target where "w_readlink w (join_path (cs @ [first_comp s])) = Inr target" "n + 1 \<le> MAXSYMLINKS"
        "canon_loop w n dest s =
           (case canon_loop w (n + 1) (if target \<noteq> [] \<and> IS_DIR_SEPARATOR (hd target) then ''/''
                   else drop_last (join_path (cs @ [first_comp s]))) (target @ rest_comps s) of
              (links, r) \<Rightarrow> (join_path (cs @ [first_comp s]) # links, r))"
proof -
  let ?rname = "join_path (cs @ [first_comp s])"
  have ne: "first_comp s \<noteq> []" "first_comp s \<noteq> ''.''" "first_comp s \<noteq> ''..''" using c by (simp_all add: good_comp_def)
  have good: "list_all good_comp cs" using assms(1) by (simp add: plain_path_def)
  note eq = canon_loop_turn [OF assms(2) good, of w n s, unfolded Let_def, simplified ne if_False]
  show thesis
  proof (cases "(\<not> IS_DIR_SEPARATOR (last dest) \<and> rname_size \<le> length dest) \<or> rname_size < length ?rname + 4")
    case True
    have "\<exists>e. canon_loop w n dest s = ([], Inl e)" using eq True by (auto simp del: join_path_simps)
    then show thesis using err by auto
  next
    case fits: False
    show thesis
    proof (cases "w_readlink w ?rname")
      case (Inr target)
      have take: "take PATH_MAX target = target" using sane Inr by (auto simp: readlink_sane_def)
      have "link_at w ?rname" using assms(1) c Inr unfolding link_at_def by blast
      then show thesis
        using eq fits Inr err [of "[]"] err [of "[?rname]"] link [OF Inr]
        by (auto simp: take simp del: join_path_simps split: if_splits)
    next
      case (Inl e)
      show thesis
      proof (cases "if suffix_requires_dir_check (rest_comps s) then dir_check w ?rname else e = EINVAL")
        case True
        then have "w_readlink w ?rname = Inl EINVAL" using sane Inl by (auto simp: readlink_sane_def split: if_splits)
        moreover have "canon_loop w n dest s = canon_loop w n ?rname (rest_comps s)"
          unfolding eq using fits Inl by (simp only: if_P [OF True] if_True if_False sum.case simp_thms de_Morgan_disj)
        ultimately show thesis by (rule plain [rotated])
      next
        case False
        then have "canon_loop w n dest s = ([], Inl (PutFailed ''component''))"
          unfolding eq using fits Inl by (simp only: if_True if_False sum.case simp_thms de_Morgan_disj)
        then show thesis using err by auto
      qed
    qed
  qed
qed

lemma canon_loop_post:
  assumes sane: "readlink_sane w"
  shows "plain_path w cs \<Longrightarrow> dest_of cs dest \<Longrightarrow> canon_post w cs s (canon_loop w n dest s)"
proof (induction n dest s arbitrary: cs rule: canon_induct)
  case (turn n dest s)
  let ?c = "first_comp s" and ?e = "rest_comps s"
  let ?rname = "join_path (cs @ [?c])"
  have good: "list_all good_comp cs" using turn.prems(1) by (simp add: plain_path_def)
  note eq = canon_loop_turn [OF turn.prems(2) good, of w n s]
  have IH: "?c \<noteq> [] \<Longrightarrow> plain_path w cs' \<Longrightarrow> dest_of cs' d \<Longrightarrow> canon_post w cs' ?e (canon_loop w n d ?e)" for cs' d
    using turn.IH [of n ?e] rest_comps_shorter by simp
  consider "?c = []" | "?c = ''.''" | "?c = ''..''" | "good_comp ?c"
    using first_comp_no_sep [of s] by (auto simp: good_comp_def)
  then show ?case
  proof cases
    case 1
    then show ?thesis using eq turn.prems resolves.stop [OF 1] by (auto simp: canon_post_def)
  next
    case 2
    then have "canon_post w cs ?e (canon_loop w n dest s)" using eq IH turn.prems by simp
    then show ?thesis by (rule canon_post_step) (rule resolves.dot [OF 2])
  next
    case 3
    have "plain_path w (butlast cs)"
      using turn.prems(1) by (cases cs rule: rev_cases) (auto dest: plain_path_butlast)
    then have "canon_post w (butlast cs) ?e (canon_loop w n dest s)"
      using eq IH drop_last_dest_of [OF turn.prems(2) good] 3 by simp
    then show ?thesis by (rule canon_post_step) (rule resolves.dotdot [OF 3])
  next
    case 4
    then have c: "?c \<noteq> []" "?c \<noteq> ''.''" "?c \<noteq> ''..''" by (simp_all add: good_comp_def)
    show ?thesis
    proof (cases rule: canon_loop_component [OF turn.prems 4 sane, of n, case_names err plain link])
      case err
      then show ?thesis using canon_post_Inl by simp
    next
      case plain
      have "plain_path w (cs @ [?c])" using turn.prems(1) 4 plain(2) by (rule plain_path_snoc)
      moreover have "dest_of (cs @ [?c]) ?rname" by (simp add: dest_of_def)
      ultimately have "canon_post w (cs @ [?c]) ?e (canon_loop w n dest s)" using IH c(1) plain(1) by simp
      then show ?thesis by (rule canon_post_step) (rule resolves.plain [OF 4 plain(2)])
    next
      case (link target)
      let ?cs = "if target \<noteq> [] \<and> hd target = CHR ''/'' then [] else cs"
      let ?d = "if target \<noteq> [] \<and> IS_DIR_SEPARATOR (hd target) then ''/'' else drop_last ?rname"
      have "dest_of ?cs ?d" using drop_last_comp(1) [OF 4, of cs] by (simp add: dest_of_def IS_DIR_SEPARATOR_def)
      moreover have "plain_path w ?cs" using turn.prems(1) by simp
      ultimately have post: "canon_post w ?cs (target @ ?e) (canon_loop w (n + 1) ?d (target @ ?e))"
        using turn.IH [of "n + 1"] link(2) by simp
      have "link_at w ?rname" using turn.prems(1) 4 link(1) unfolding link_at_def by blast
      then have "canon_post w ?cs (target @ ?e) (canon_loop w n dest s)"
        unfolding link(3) using post by (auto simp: canon_post_def split: prod.splits)
      then show ?thesis by (rule canon_post_step) (rule resolves.link [OF 4 link(1)])
    qed
  qed
qed

section \<open>The buffer\<close>

definition fits_rname :: "nat \<Rightarrow> put_error + string \<Rightarrow> bool" where
  "fits_rname k res \<longleftrightarrow> res \<noteq> Inl BufferOverflow \<and> (\<forall>dest. res = Inr dest \<longrightarrow> length dest + k \<le> rname_size)"

lemma fits_rname_err: "fits_rname k (Inl (PutFailed e))"
  by (simp add: fits_rname_def)

lemma snd_consed: "snd (case p of (ls, r) \<Rightarrow> (l # ls, r)) = snd p"
  by (simp split: prod.split)

lemma canon_loop_fits:
  assumes k: "2 \<le> k" "k \<le> 4"
  shows "list_all good_comp cs \<Longrightarrow> dest_of cs dest \<Longrightarrow> length dest + k \<le> rname_size \<Longrightarrow>
    fits_rname k (snd (canon_loop w n dest s))"
proof (induction n dest s arbitrary: cs rule: canon_induct)
  case (turn n dest s)
  let ?c = "first_comp s" and ?e = "rest_comps s"
  let ?rname = "join_path (cs @ [?c])"
  note eq = canon_loop_turn [OF turn.prems(2,1), of w n s]
  have IH: "?c \<noteq> [] \<Longrightarrow> list_all good_comp cs' \<Longrightarrow> dest_of cs' d \<Longrightarrow> length d + k \<le> rname_size \<Longrightarrow>
      fits_rname k (snd (canon_loop w n d ?e))" for cs' d
    using turn.IH [of n ?e] rest_comps_shorter by simp
  have room: "\<not> length dest \<ge> rname_size" "\<not> length (join_path cs) + 1 \<ge> rname_size"
    using turn.prems(2,3) k by (auto simp: dest_of_def)
  have butlast: "list_all good_comp (butlast cs)"
    using turn.prems(1) by (auto simp: list_all_iff dest: in_set_butlastD)
  consider "?c = []" | "?c = ''.''" | "?c = ''..''" | "good_comp ?c"
    using first_comp_no_sep [of s] by (auto simp: good_comp_def)
  then show ?case
  proof cases
    case 1
    then show ?thesis using eq turn.prems(3) by (simp add: fits_rname_def)
  next
    case 2
    then show ?thesis using eq IH [OF _ turn.prems] by simp
  next
    case 3
    then show ?thesis
      using eq IH [OF _ butlast drop_last_dest_of [OF turn.prems(2,1)]] drop_last_length [of dest] turn.prems(3) by simp
  next
    case 4
    then have c: "?c \<noteq> []" "?c \<noteq> ''.''" "?c \<noteq> ''..''" by (simp_all add: good_comp_def)
    have good: "list_all good_comp (cs @ [?c])" and dest: "dest_of (cs @ [?c]) ?rname"
      using turn.prems(1) 4 by (simp_all add: dest_of_def)
    have cut: "dest_of cs (drop_last ?rname)" using drop_last_comp(1) [OF 4, of cs] by (simp add: dest_of_def)
    have next_link: "fits_rname k (snd (canon_loop w (n + 1) (if b then ''/'' else drop_last ?rname) s'))"
      if "length ?rname + 4 \<le> rname_size" "n + 1 \<le> MAXSYMLINKS" for b s'
    proof (cases b)
      case True
      have "1 + k \<le> rname_size" using k by (simp add: rname_size_def PATH_MAX_def)
      then show ?thesis using turn.IH [of "n + 1" s' "[]" "''/''"] that True by (simp add: dest_of_def)
    next
      case False
      have "length (drop_last ?rname) + k \<le> rname_size" using drop_last_length [of ?rname] that k by linarith
      then show ?thesis using turn.IH [of "n + 1" s' cs "drop_last ?rname"] cut turn.prems(1) that False by simp
    qed
    have "fits_rname k (snd (canon_loop w n ?rname ?e))" if "length ?rname + 4 \<le> rname_size"
      using IH [OF c(1) good dest] that k by simp
    with next_link show ?thesis
      unfolding eq Let_def using c room
      by (auto simp: fits_rname_err snd_consed split: sum.split simp del: join_path_simps)
  qed
qed

section \<open>Canonical names\<close>

definition path_str :: "string list \<Rightarrow> string" where
  "path_str cs = (if cs = [] then ''/'' else join_path cs)"

lemma path_str_dest_of: "dest_of cs (path_str cs)"
  by (simp add: dest_of_def path_str_def)

lemma dest_of_cut:
  assumes "dest_of cs dest" "list_all good_comp cs"
  shows "(if length dest > 1 \<and> IS_DIR_SEPARATOR (last dest) then butlast dest else dest) = path_str cs"
proof (cases "cs = []")
  case True
  then show ?thesis using assms(1) by (simp add: dest_of_def path_str_def)
next
  case False
  then have "length (join_path cs) > 0" by simp
  then show ?thesis
    using dest_of_last [OF assms] assms(1) False by (auto simp: dest_of_def path_str_def)
qed

text \<open>The directory a name starts from: the root for an absolute name, the working directory for others.\<close>

definition start_dir :: "string list \<Rightarrow> string \<Rightarrow> string list" where
  "start_dir cwd name = (if name \<noteq> [] \<and> hd name = CHR ''/'' then [] else cwd)"

lemma canonicalize_loop:
  assumes "name \<noteq> []" "w_cwd w = Some (path_str cwd)" "list_all good_comp cwd"
  shows "canonicalize w name =
    (case canon_loop w 0 (path_str (start_dir cwd name)) name of
       (links, Inl e) \<Rightarrow> (links, Inl e)
     | (links, Inr dest) \<Rightarrow> (links, Inr (if length dest > 1 \<and> IS_DIR_SEPARATOR (last dest) then butlast dest else dest)))"
proof -
  have "(if IS_DIR_SEPARATOR (hd name) then Some ''/'' else w_cwd w) = Some (path_str (start_dir cwd name))"
    using assms by (simp add: start_dir_def IS_DIR_SEPARATOR_def path_str_def)
  then show ?thesis unfolding canonicalize_def using assms(1) by (simp only: if_False option.case)
qed

text \<open>The canonical form of a canonical name is the name itself, and no symlink is met.\<close>

lemma suffix_plain:
  assumes "list_all good_comp bs"
  shows "\<not> suffix_requires_dir_check (join_path bs)"
proof (cases bs)
  case (Cons b bs')
  then obtain c b' where b: "b = c # b'" "c \<noteq> CHR ''/''" "CHR ''/'' \<notin> set b'" "b \<noteq> ''.''" "b \<noteq> ''..''"
    using assms by (cases b) (auto simp: good_comp_def)
  have drop: "dropWhile IS_DIR_SEPARATOR (join_path bs) = c # b' @ join_path bs'"
    using b by (simp add: Cons IS_DIR_SEPARATOR_def)
  have start: "\<not> (join_path bs = [] \<or> \<not> IS_DIR_SEPARATOR (hd (join_path bs)))"
    by (simp add: Cons IS_DIR_SEPARATOR_def)
  show ?thesis
  proof (cases "c = CHR ''.''")
    case True
    then obtain d b'' where d: "b' = d # b''" "d \<noteq> CHR ''/''" "CHR ''/'' \<notin> set b''" "d = CHR ''.'' \<Longrightarrow> b'' \<noteq> []"
      using b by (cases b') auto
    have "\<not> IS_DIR_SEPARATOR (hd b'')" if "b'' \<noteq> []" using d(3) that by (cases b'') (auto simp: IS_DIR_SEPARATOR_def)
    then have "\<not> (d = CHR ''.'' \<and> (b'' @ join_path bs' = [] \<or> IS_DIR_SEPARATOR (hd (b'' @ join_path bs'))))"
      using d(4) by (auto simp: hd_append)
    moreover have "\<not> suffix_requires_dir_check (d # b'' @ join_path bs')"
      using d(2) by (subst suffix_requires_dir_check.simps) (simp add: IS_DIR_SEPARATOR_def)
    ultimately show ?thesis
      using start True by (subst suffix_requires_dir_check.simps) (simp add: drop d(1))
  next
    case False
    then show ?thesis using start by (subst suffix_requires_dir_check.simps) (simp add: drop)
  qed
qed (simp add: suffix_requires_dir_check.simps)

lemma canon_loop_plain:
  assumes "plain_path w (as @ bs)" "dest_of as dest" "length (join_path (as @ bs)) + 4 \<le> rname_size"
  shows "\<exists>dest'. canon_loop w n dest (join_path bs) = ([], Inr dest') \<and> dest_of (as @ bs) dest'"
  using assms
proof (induction bs arbitrary: as dest)
  case Nil
  then show ?case by (simp add: canon_loop.simps)
next
  case (Cons b bs)
  have good: "list_all good_comp as" "good_comp b" "list_all good_comp bs"
    using Cons.prems(1) by (simp_all add: plain_path_def)
  have ns: "x \<in> set b \<Longrightarrow> \<not> IS_DIR_SEPARATOR x" for x using good(2) by (auto simp: good_comp_def IS_DIR_SEPARATOR_def)
  have drop: "dropWhile IS_DIR_SEPARATOR (join_path (b # bs)) = b @ join_path bs"
    using good(2) ns by (cases b) (auto simp: good_comp_def IS_DIR_SEPARATOR_def)
  have "takeWhile (\<lambda>c. \<not> IS_DIR_SEPARATOR c) (b @ join_path bs) = b" "dropWhile (\<lambda>c. \<not> IS_DIR_SEPARATOR c) (b @ join_path bs) = join_path bs"
    using ns by (cases bs; auto simp: IS_DIR_SEPARATOR_def takeWhile_append dropWhile_append)+
  then have parts: "first_comp (join_path (b # bs)) = b" "rest_comps (join_path (b # bs)) = join_path bs"
    unfolding first_comp_def rest_comps_def drop by simp_all
  have "take (length (as @ [b])) (as @ b # bs) = as @ [b]" by simp
  then have rl: "w_readlink w (join_path (as @ [b])) = Inl EINVAL"
    using Cons.prems(1) by (auto simp: plain_path_def dest!: conjunct2 spec [where x = "length (as @ [b])"])
  have room: "length (join_path (as @ [b])) + 4 \<le> rname_size" "length dest < rname_size"
    using Cons.prems(2,3) by (auto simp: dest_of_def)
  have "canon_loop w n dest (join_path (b # bs)) = canon_loop w n (join_path (as @ [b])) (join_path bs)"
    unfolding canon_loop_turn [OF Cons.prems(2) good(1), of w n "join_path (b # bs)"] parts Let_def rl
    using good(2) room suffix_plain [OF good(3)] by (auto simp: good_comp_def)
  moreover have "dest_of (as @ [b]) (join_path (as @ [b]))" by (simp add: dest_of_def)
  ultimately show ?case using Cons.IH [of "as @ [b]"] Cons.prems by simp
qed

lemma canonicalize_cases:
  assumes "w_cwd w = Some (path_str cwd)" "plain_path w cwd" "readlink_sane w" "name \<noteq> []"
  obtains (err) e where "snd (canonicalize w name) = Inl e" "\<forall>l \<in> set (fst (canonicalize w name)). link_at w l"
    | (ok) links cs dest where "canonicalize w name = (links, Inr (path_str cs))" "\<forall>l \<in> set links. link_at w l"
        "plain_path w cs" "resolves w (start_dir cwd name) name cs"
        "canon_loop w 0 (path_str (start_dir cwd name)) name = (links, Inr dest)" "dest_of cs dest"
proof -
  have good: "list_all good_comp cwd" using assms(2) by (simp add: plain_path_def)
  have "plain_path w (start_dir cwd name)" using assms(2) by (simp add: start_dir_def)
  from canon_loop_post [OF assms(3) this path_str_dest_of, of name 0]
  have post: "canon_post w (start_dir cwd name) name (canon_loop w 0 (path_str (start_dir cwd name)) name)" .
  note eq = canonicalize_loop [OF assms(4,1) good]
  obtain links res where loop: "canon_loop w 0 (path_str (start_dir cwd name)) name = (links, res)" by force
  show thesis
  proof (cases res)
    case (Inl e)
    then show thesis using post eq loop err [of e] by (simp add: canon_post_def)
  next
    case (Inr dest)
    then obtain cs where cs: "plain_path w cs" "dest_of cs dest" "resolves w (start_dir cwd name) name cs"
      using post loop by (auto simp: canon_post_def)
    have "canonicalize w name = (links, Inr (path_str cs))"
      unfolding eq loop Inr using dest_of_cut [OF cs(2)] cs(1) by (simp add: plain_path_def)
    then show thesis using ok cs loop post Inr by (simp add: canon_post_def)
  qed
qed

text \<open>A tree with the link \<open>/bin\<close> to \<open>usr/bin\<close> and the files \<open>/usr/bin/sh\<close> and \<open>/usr/bin/dash\<close>, the first a link.\<close>

definition sample_readlink :: "string \<Rightarrow> errno + string" where
  "sample_readlink p =
     (if p = ''/bin'' then Inr ''usr/bin''
      else if p = ''/usr/bin/sh'' then Inr ''dash''
      else if p \<in> {''/usr'', ''/usr/bin'', ''/usr/bin/dash'', ''/lib'', ''/lib/libc.so''} then Inl EINVAL else Inl ENOENT)"

definition reg_stat :: stat where
  "reg_stat = stat0\<lparr>st_ino := 7, st_mode := 0x81ED, st_nlink := 1\<rparr>"

definition sample_world :: world where
  "sample_world =
     \<lparr>w_cwd = Some ''/usr'', w_readlink = sample_readlink, w_stat = (\<lambda>p. Inl ENOENT),
      w_lstat = (\<lambda>p. case sample_readlink p of
         Inr _ \<Rightarrow> Inr (stat0\<lparr>st_ino := 3, st_mode := 0xA1FF\<rparr>)
       | Inl EINVAL \<Rightarrow> Inr (if p \<in> {''/usr'', ''/usr/bin'', ''/lib''} then stat0\<lparr>st_ino := 2, st_mode := 0x41ED\<rparr> else reg_stat)
       | Inl e \<Rightarrow> Inl e),
      w_fts = (\<lambda>p. None), w_read = (\<lambda>p. Inr (Some [])), w_exec = (\<lambda>p. False), w_elf = (\<lambda>p. None), w_ldd = (\<lambda>p. None), w_json = (\<lambda>p. None), w_json_text = (\<lambda>j. []),
      w_dlopen = (\<lambda>s. None), w_getenv = (\<lambda>s. None), w_regex = (\<lambda>s. None)\<rparr>"

text \<open>The canonical form of \<open>../bin/./sh\<close> from \<open>/usr\<close>, over both links.\<close>

lemma sample_canonicalize:
  "canonicalize sample_world ''../bin/./sh'' = ([''/bin'', ''/usr/bin/sh''], Inr ''/usr/bin/dash'')"
proof -
  note sizes = rname_size_def extra_size_def PATH_MAX_def dir_suffix_def MAXSYMLINKS_def
  note turn = sample_world_def sample_readlink_def Let_def IS_DIR_SEPARATOR_def drop_last_def sizes
  have "canon_loop sample_world 0 ''/usr'' ''../bin/./sh'' = canon_loop sample_world 0 ''/'' ''/bin/./sh''"
    by (subst canon_loop.simps) (simp add: turn)
  also have "\<dots> = (case canon_loop sample_world 1 ''/'' ''usr/bin/./sh'' of (ls, r) \<Rightarrow> (''/bin'' # ls, r))"
    by (subst canon_loop.simps) (simp add: turn)
  also have "canon_loop sample_world 1 ''/'' ''usr/bin/./sh'' = canon_loop sample_world 1 ''/usr'' ''/bin/./sh''"
    by (subst canon_loop.simps) (simp add: turn suffix_requires_dir_check.simps)
  also have "\<dots> = canon_loop sample_world 1 ''/usr/bin'' ''/./sh''"
    by (subst canon_loop.simps) (simp add: turn suffix_requires_dir_check.simps)
  also have "\<dots> = canon_loop sample_world 1 ''/usr/bin'' ''/sh''"
    by (subst canon_loop.simps) (simp add: turn)
  also have "\<dots> = (case canon_loop sample_world 2 ''/usr/bin/'' ''dash'' of (ls, r) \<Rightarrow> (''/usr/bin/sh'' # ls, r))"
    by (subst canon_loop.simps) (simp add: turn numeral_2_eq_2)
  also have "canon_loop sample_world 2 ''/usr/bin/'' ''dash'' = canon_loop sample_world 2 ''/usr/bin/dash'' []"
    by (subst canon_loop.simps) (simp add: turn suffix_requires_dir_check.simps)
  also have "\<dots> = ([], Inr ''/usr/bin/dash'')" by (subst canon_loop.simps) simp
  finally show ?thesis by (simp add: canonicalize_def IS_DIR_SEPARATOR_def sample_world_def)
qed

lemma sample_sane: "w_cwd sample_world = Some (path_str [''usr''])" "plain_path sample_world [''usr'']" "readlink_sane sample_world"
proof -
  show "w_cwd sample_world = Some (path_str [''usr''])" by (simp add: sample_world_def path_str_def)
  have "n = 1" if "0 < n" "n \<le> 1" for n :: nat using that by linarith
  then show "plain_path sample_world [''usr'']"
    by (auto simp: plain_path_def good_comp_def sample_world_def sample_readlink_def)
  show "readlink_sane sample_world"
    by (auto simp: readlink_sane_def dir_check_def sample_world_def sample_readlink_def PATH_MAX_def split: if_splits)
qed

text \<open>
  C6: When \<open>enqueue_canonicalized_path\<close> succeeds, the name it enqueues is the file the argument leads to
  when every symlink is followed, from the root or from the working directory; the name is absolute, has no empty,
  \<open>.\<close> or \<open>..\<close> component, and none of its prefixes is a symlink. Every path enqueued on the way is a symlink in a
  directory of that form.
\<close>
theorem canonicalize_resolves:
  assumes "w_cwd w = Some (path_str cwd)" and "plain_path w cwd" and "readlink_sane w"
    and "canonicalize w name = (links, Inr r)"
  shows "\<exists>cs. r = path_str cs \<and> plain_path w cs \<and> resolves w (start_dir cwd name) name cs \<and>
           (\<forall>l \<in> set links. link_at w l)"
proof -
  have "name \<noteq> []" using assms(4) by (auto simp: canonicalize_def)
  then show ?thesis
    using assms by (cases rule: canonicalize_cases [OF assms(1-3)]) auto
qed


theorem canonicalize_resolves_witness:
  "canonicalize sample_world ''../bin/./sh'' = ([''/bin'', ''/usr/bin/sh''], Inr ''/usr/bin/dash'') \<and>
   (\<exists>cs. ''/usr/bin/dash'' = path_str cs \<and> plain_path sample_world cs \<and>
      resolves sample_world (start_dir [''usr''] ''../bin/./sh'') ''../bin/./sh'' cs \<and>
      (\<forall>l \<in> set [''/bin'', ''/usr/bin/sh'']. link_at sample_world l))"
  using canonicalize_resolves [OF sample_sane sample_canonicalize] sample_canonicalize by blast

text \<open>
  C18: Canonicalising a canonical name again changes nothing and meets no symlink, so a path enters the
  queue under one name only.
\<close>
theorem canonicalize_idempotent:
  assumes "w_cwd w = Some (path_str cwd)" and "plain_path w cwd" and "readlink_sane w"
    and "length (path_str cwd) \<le> PATH_MAX" and "canonicalize w name = (links, Inr r)"
  shows "canonicalize w r = ([], Inr r)"
proof -
  have "name \<noteq> []" using assms(5) by (auto simp: canonicalize_def)
  then obtain cs dest where cs: "r = path_str cs" "plain_path w cs" "dest_of cs dest"
    "canon_loop w 0 (path_str (start_dir cwd name)) name = (links, Inr dest)"
    using assms(5) by (cases rule: canonicalize_cases [OF assms(1-3)]) auto
  have good: "list_all good_comp cs" "list_all good_comp cwd" "list_all good_comp (start_dir cwd name)"
    using cs(2) assms(2) by (simp_all add: plain_path_def start_dir_def)
  have "length (path_str (start_dir cwd name)) + 4 \<le> rname_size"
    using assms(4) by (auto simp: start_dir_def path_str_def rname_size_def dir_suffix_def PATH_MAX_def split: if_splits)
  from canon_loop_fits [OF _ _ good(3) path_str_dest_of this, of w 0 name]
  have "length dest + 4 \<le> rname_size" using cs(4) by (simp add: fits_rname_def)
  then have room: "length (join_path cs) + 4 \<le> rname_size" using cs(3) by (auto simp: dest_of_def)
  have r: "r \<noteq> []" "hd r = CHR ''/''" using cs(1) by (cases cs; simp add: path_str_def)+
  have "\<exists>dest'. canon_loop w 0 ''/'' r = ([], Inr dest') \<and> dest_of cs dest'"
  proof (cases "cs = []")
    case True
    then show ?thesis by (simp add: cs(1) path_str_def canon_loop.simps IS_DIR_SEPARATOR_def dest_of_def)
  next
    case False
    then show ?thesis using canon_loop_plain [of w "[]" cs "''/''" 0] cs(1,2) room by (simp add: path_str_def dest_of_def)
  qed
  then obtain dest' where d: "canon_loop w 0 ''/'' r = ([], Inr dest')" "dest_of cs dest'" by blast
  have s: "path_str (start_dir cwd r) = ''/''" using r by (simp add: start_dir_def path_str_def)
  have "canonicalize w r = ([], Inr (path_str cs))"
    unfolding canonicalize_loop [OF r(1) assms(1) good(2)] s d(1) using dest_of_cut [OF d(2) good(1)] by simp
  then show ?thesis by (simp add: cs(1))
qed

theorem canonicalize_idempotent_witness:
  "canonicalize sample_world ''/usr/bin/dash'' = ([], Inr ''/usr/bin/dash'')"
  using canonicalize_idempotent [OF sample_sane _ sample_canonicalize] by (simp add: path_str_def PATH_MAX_def)





end
