(* ===== verification/PutDeps.thy ===== *)
theory PutDeps
  imports PutPath
begin

text \<open>
  What a file depends on: the interpreter of a script (\<open>enqueue-shebang.c\<close>), the libraries of an ELF file with the
  cache of their paths (\<open>enqueue-library.c\<close>), and the libraries that its notes name (\<open>elf_dlopen.c\<close>). libelf, json-c, the
  dynamic linker, \<open>ldd\<close> and the regular expressions are functions of the \<open>world\<close>.
\<close>

section \<open>Scripts\<close>

definition is_shebang :: "string \<Rightarrow> bool" where
  "is_shebang buf \<longleftrightarrow> take 2 buf = ''#!''"

definition shebang_path :: "string \<Rightarrow> string" where
  "shebang_path buf = takeWhile (\<lambda>c. c \<noteq> NUL \<and> \<not> isspace c) (dropWhile isspace (takeWhile (\<lambda>c. c \<noteq> NUL) (drop 2 buf)))"

definition enqueue_if_new :: "(string \<Rightarrow> bool) list \<Rightarrow> string \<Rightarrow> put_state \<Rightarrow> put_error + put_state" where
  "enqueue_if_new ex path st =
     (if is_path_added path st then Inr st else bind_res (enqueue_item ex path (-1) st) (\<lambda>(_, s). Inr s))"

definition enqueue_shebang :: "(string \<Rightarrow> bool) list \<Rightarrow> string \<Rightarrow> put_state \<Rightarrow> put_error + put_state" where
  "enqueue_shebang ex buf st = (let p = shebang_path buf in if p = [] then Inr st else enqueue_if_new ex p st)"

section \<open>The cache of library paths\<close>

type_synonym cache_key = "u8 \<times> u16 \<times> string"

definition cache_key :: "elf_cache_entry \<Rightarrow> cache_key" where
  "cache_key e = (ce_class e, ce_machine e, ce_soname e)"

fun elf_cache_compare :: "cache_key \<Rightarrow> cache_key \<Rightarrow> int" where
  "elf_cache_compare (ca, ma, sa) (cb, mb, sb) =
     (if ca \<noteq> cb then uint ca - uint cb else if ma \<noteq> mb then uint ma - uint mb else strcmp sa sb)"

definition elf_cache_lookup :: "u8 \<Rightarrow> u16 \<Rightarrow> string \<Rightarrow> put_state \<Rightarrow> string option" where
  "elf_cache_lookup cl ma soname st =
     map_option ce_path (tfind elf_cache_compare cache_key (cl, ma, soname) (elf_cache st))"

definition elf_cache_insert :: "u8 \<Rightarrow> u16 \<Rightarrow> string \<Rightarrow> string \<Rightarrow> put_state \<Rightarrow> put_state" where
  "elf_cache_insert cl ma soname path st =
     st\<lparr>elf_cache := snd (tsearch elf_cache_compare cache_key
          \<lparr>ce_class = cl, ce_machine = ma, ce_soname = soname, ce_path = path\<rparr> (elf_cache st))\<rparr>"

definition is_elf_cache_disabled :: "world \<Rightarrow> bool" where
  "is_elf_cache_disabled w =
     (case w_getenv w ''IGNORE_PUT_ELF_CACHE'' of None \<Rightarrow> False | Some v \<Rightarrow> v \<noteq> [] \<and> v \<noteq> ''0'')"

section \<open>The output of ldd\<close>

text \<open>A line of \<open>ldd\<close>: the name before the arrow, when there is one, and the path.\<close>

definition ldd_line :: "string \<Rightarrow> (string option \<times> string) option" where
  "ldd_line line0 =
     (let line = (if line0 \<noteq> [] \<and> last line0 = CHR 0x0A then butlast line0 else line0) in
      case strstr ''(0x'' line of
        None \<Rightarrow> None
      | Some (pre, _) \<Rightarrow>
          let line1 = rtrim pre;
              (soname, p0) =
                (case strstr '' => '' line1 of
                   Some (a, b) \<Rightarrow>
                     (Some (if list_all isspace a
                            then ''=> '' @ (if b \<noteq> [] \<and> isspace (hd b) then [] else b)
                            else rtrim (dropWhile isspace a)), b)
                 | None \<Rightarrow> (None, line1));
              p = dropWhile isspace p0
          in if p = [] \<or> hd p \<noteq> CHR ''/'' then None else Some (soname, p))"

text \<open>The name a path is cached under.\<close>

definition key_soname :: "string option \<Rightarrow> string \<Rightarrow> string" where
  "key_soname soname p =
     (let k = (case soname of
                 Some s \<Rightarrow> if s \<noteq> [] then s else (case split_last (CHR ''/'') p of None \<Rightarrow> [] | Some (_, b) \<Rightarrow> CHR ''/'' # b)
               | None \<Rightarrow> (case split_last (CHR ''/'') p of None \<Rightarrow> [] | Some (_, b) \<Rightarrow> CHR ''/'' # b))
      in if k \<noteq> [] \<and> hd k = CHR ''/'' then tl k else k)"

text \<open>
  \<open>enqueue_shared_libraries\<close>: the paths of all lines are enqueued; the cache gets them when the cache may be used and
  the pipe is closed without an error.
\<close>

definition enqueue_shared_libraries ::
  "(string \<Rightarrow> bool) list \<Rightarrow> world \<Rightarrow> string \<Rightarrow> u8 \<Rightarrow> u16 \<Rightarrow> bool \<Rightarrow> put_state \<Rightarrow> put_error + int \<times> put_state" where
  "enqueue_shared_libraries ex w filename cl ma can_cache st =
     (case w_ldd w filename of
        None \<Rightarrow> Inr (- 1, st)
      | Some (lines, close_ok) \<Rightarrow>
          let deps = List.map_filter ldd_line lines;
              pending = (if can_cache then filter (\<lambda>(k, p). k \<noteq> []) (map (\<lambda>(s, p). (key_soname s p, p)) deps) else [])
          in bind_res (fold_res (\<lambda>(s, p). enqueue_if_new ex p) deps st) (\<lambda>st1.
               if \<not> close_ok then Inr (- 1, st1)
               else Inr (0, fold (\<lambda>(k, p). elf_cache_insert cl ma k p) pending st1)))"

section \<open>Libraries loaded with dlopen\<close>

text \<open>
  \<open>in_envvar\<close>: the entries of the variable are separated by commas; an entry is a word, or a regular expression for the
  file name and a word. An entry whose expression does not compile or match is skipped.
\<close>

function in_envvar_loop :: "world \<Rightarrow> string \<Rightarrow> string \<Rightarrow> string \<Rightarrow> int" where
  "in_envvar_loop w filename value s =
     (let entry = takeWhile (\<lambda>c. c \<noteq> CHR '','') s;
          rest = dropWhile (\<lambda>c. c \<noteq> CHR '','') s;
          hit = (case split_first (CHR '':'') entry of
                   Some (file_regex, word) \<Rightarrow>
                     (case w_regex w file_regex of
                        None \<Rightarrow> False
                      | Some matches \<Rightarrow> matches filename \<and> word = value)
                 | None \<Rightarrow> entry = value)
      in if hit then 1 else if rest = [] then 0 else in_envvar_loop w filename value (tl rest))"
  by pat_completeness auto
termination
proof (relation "measure (\<lambda>(w, f, v, s). length s)", goal_cases)
  case (2 w f v s)
  then show ?case
    using length_dropWhile_le [of "\<lambda>c. c \<noteq> CHR '',''" s] by (cases "dropWhile (\<lambda>c. c \<noteq> CHR '','') s") simp_all
qed simp

declare in_envvar_loop.simps [simp del]

definition in_envvar :: "world \<Rightarrow> string \<Rightarrow> string \<Rightarrow> string \<Rightarrow> int" where
  "in_envvar w envname filename value =
     (case w_getenv w envname of
        None \<Rightarrow> 0
      | Some list \<Rightarrow> if list = [] then 0 else in_envvar_loop w filename value list)"

text \<open>
  \<open>resolve_soname\<close>: the child writes the path of the first library that can be loaded, the parent reads it; a path that does
  not fit the buffer is an error.
\<close>

fun first_loaded :: "world \<Rightarrow> string list \<Rightarrow> string option" where
  "first_loaded w [] = None"
| "first_loaded w (s # ss) = (case w_dlopen w s of Some l \<Rightarrow> Some l | None \<Rightarrow> first_loaded w ss)"

definition resolve_soname :: "world \<Rightarrow> string list \<Rightarrow> int \<times> string" where
  "resolve_soname w sonames =
     (let siz = (case first_loaded w sonames of None \<Rightarrow> 0 | Some l \<Rightarrow> length l + 1)
      in if siz = 0 then (0, [])
         else if siz > PATH_MAX + 1 then (- 1, [])
         else (0, the (first_loaded w sonames)))"

definition json_get :: "string \<Rightarrow> (string \<times> json) list \<Rightarrow> json option" where
  "json_get k flds = map_of (rev flds) k"

text \<open>\<open>json_object_get_string\<close>: NULL for null, the text of the value for anything but a string.\<close>

definition json_get_string :: "world \<Rightarrow> json \<Rightarrow> string option" where
  "json_get_string w j = (case j of JNull \<Rightarrow> None | JString s \<Rightarrow> Some s | _ \<Rightarrow> Some (w_json_text w j))"

fun is_json_string :: "json \<Rightarrow> bool" where
  "is_json_string (JString s) = True"
| "is_json_string _ = False"

text \<open>An element of the array of a note: an object with the feature, the priority and the names of libraries.\<close>

fun visit_element :: "(string \<Rightarrow> bool) list \<Rightarrow> world \<Rightarrow> string \<Rightarrow> json \<Rightarrow> put_state \<Rightarrow> put_error + put_state" where
  "visit_element ex w filename (JObject flds) st =
     (case json_get ''soname'' flds of
        None \<Rightarrow> Inr st
      | Some (JArray children) \<Rightarrow>
          let feature = (case Option.bind (json_get ''feature'' flds) (json_get_string w) of None \<Rightarrow> ''-'' | Some s \<Rightarrow> s);
              priority = (case Option.bind (json_get ''priority'' flds) (json_get_string w) of None \<Rightarrow> ''recommended'' | Some s \<Rightarrow> s)
          in if in_envvar w ''IGNORE_PUT_DLOPEN_FEATURE'' filename feature \<noteq> 0 \<or>
                in_envvar w ''IGNORE_PUT_DLOPEN_PRIORITY'' filename priority \<noteq> 0 then Inr st
             else if \<not> list_all is_json_string children then Inl (PutFailed ''soname value'')
             else (case resolve_soname w (List.map_filter (json_get_string w) children) of
                     (ret, outbuf) \<Rightarrow>
                       if ret = 0 \<and> outbuf \<noteq> [] \<and> hd outbuf = CHR ''/'' then enqueue_if_new ex outbuf st else Inr st)
      | Some _ \<Rightarrow> Inl (PutFailed ''soname array''))"
| "visit_element ex w filename _ st = Inl (PutFailed ''object type'')"

text \<open>The visit of the whole text: the outermost value has to be an array.\<close>

definition process_json_metadata :: "(string \<Rightarrow> bool) list \<Rightarrow> world \<Rightarrow> string \<Rightarrow> string \<Rightarrow> put_state \<Rightarrow> put_error + put_state" where
  "process_json_metadata ex w filename txt st =
     (case w_json w txt of
        None \<Rightarrow> Inr st
      | Some (JArray elems) \<Rightarrow> fold_res (visit_element ex w filename) elems st
      | Some _ \<Rightarrow> Inl (PutFailed ''array type''))"

text \<open>The notes of all sections, up to the first section that cannot be read.\<close>

definition NT_FDO_DLOPEN_METADATA :: u32 where "NT_FDO_DLOPEN_METADATA = 0x407c0c0a"

definition enqueue_note :: "(string \<Rightarrow> bool) list \<Rightarrow> world \<Rightarrow> string \<Rightarrow> u32 \<times> u32 \<times> string \<times> string \<Rightarrow> put_state \<Rightarrow> put_error + put_state" where
  "enqueue_note ex w filename note st =
     (case note of (n_type, namesz, name, desc) \<Rightarrow>
        if n_type = NT_FDO_DLOPEN_METADATA \<and> namesz = 4 \<and> name = ''FDO''
        then process_json_metadata ex w filename (takeWhile (\<lambda>c. c \<noteq> NUL) desc) st else Inr st)"

fun enqueue_note_sections :: "(string \<Rightarrow> bool) list \<Rightarrow> world \<Rightarrow> string \<Rightarrow> note_section list \<Rightarrow> put_state \<Rightarrow> put_error + put_state" where
  "enqueue_note_sections ex w filename [] st = Inr st"
| "enqueue_note_sections ex w filename (ShdrFails # ss) st = Inr st"
| "enqueue_note_sections ex w filename (DataFails # ss) st = Inr st"
| "enqueue_note_sections ex w filename (NoNotes # ss) st = enqueue_note_sections ex w filename ss st"
| "enqueue_note_sections ex w filename (Notes ns # ss) st =
     bind_res (fold_res (enqueue_note ex w filename) ns st) (enqueue_note_sections ex w filename ss)"

definition enqueue_elf_dlopen :: "(string \<Rightarrow> bool) list \<Rightarrow> world \<Rightarrow> string \<Rightarrow> elf_view \<Rightarrow> put_state \<Rightarrow> put_error + put_state" where
  "enqueue_elf_dlopen ex w filename e st =
     (if \<not> ev_kind_ok e then Inr st else enqueue_note_sections ex w filename (ev_note_sections e) st)"

section \<open>The libraries of an ELF file\<close>

definition is_elf_file :: "string \<Rightarrow> bool" where
  "is_elf_file buf \<longleftrightarrow> take 4 buf = [CHR 0x7F, CHR ''E'', CHR ''L'', CHR ''F'']"

text \<open>The program interpreter: the first header of the type \<open>PT_INTERP\<close>, when it fits and can be read.\<close>

fun elf_interp :: "(bool \<times> u64 \<times> string option) option list \<Rightarrow> string" where
  "elf_interp [] = []"
| "elf_interp (None # ps) = elf_interp ps"
| "elf_interp (Some (is_interp, filesz, bytes) # ps) =
     (if \<not> is_interp then elf_interp ps
      else if 0 < filesz \<and> filesz < of_nat (PATH_MAX + 1)
      then (case bytes of None \<Rightarrow> [] | Some b \<Rightarrow> rtrim (takeWhile (\<lambda>c. c \<noteq> NUL) b))
      else [])"

text \<open>The dynamic entries up to the first null entry: is there a run path, and which libraries are needed?\<close>

fun dyn_scan :: "dyn_tag option list \<Rightarrow> bool \<times> string list" where
  "dyn_scan [] = (False, [])"
| "dyn_scan (None # ds) = (False, [])"
| "dyn_scan (Some DT_NULL # ds) = (False, [])"
| "dyn_scan (Some (DT_NEEDED s) # ds) =
     (case dyn_scan ds of (r, ns) \<Rightarrow> (r, (case s of Some n \<Rightarrow> if n \<noteq> [] then n # ns else ns | None \<Rightarrow> ns)))"
| "dyn_scan (Some DT_OTHER # ds) = dyn_scan ds"
| "dyn_scan (Some _ # ds) = (True, snd (dyn_scan ds))"

definition enqueue_libraries :: "(string \<Rightarrow> bool) list \<Rightarrow> world \<Rightarrow> string \<Rightarrow> put_state \<Rightarrow> put_error + int \<times> put_state" where
  "enqueue_libraries ex w filename st =
     (case w_elf w filename of
        None \<Rightarrow> Inr (0, st)
      | Some e \<Rightarrow>
          if \<not> ev_kind_ok e then Inr (0, st)
          else case ev_ident e of
                 None \<Rightarrow> Inr (0, st)
               | Some (cl, ma) \<Rightarrow>
                   (case ev_dynamic e of
                      None \<Rightarrow> Inr (0, st)
                    | Some dyns \<Rightarrow>
                        let interp = elf_interp (ev_phdrs e);
                            (has_rpath, needed) = dyn_scan dyns;
                            can_use_cache = (\<not> has_rpath \<and> \<not> is_elf_cache_disabled w);
                            all_in_cache = (can_use_cache \<and> list_all (\<lambda>n. elf_cache_lookup cl ma n st \<noteq> None) needed)
                        in bind_res
                             (if all_in_cache
                              then bind_res (fold_res (\<lambda>n s. enqueue_if_new ex (the (elf_cache_lookup cl ma n s)) s) needed st) (\<lambda>st1.
                                   bind_res (if interp \<noteq> [] \<and> hd interp = CHR ''/'' then enqueue_if_new ex interp st1 else Inr st1)
                                     (\<lambda>st2. Inr (0, st2)))
                              else enqueue_shared_libraries ex w filename cl ma can_use_cache st)
                             (\<lambda>(ret, st3).
                                if ret = 0 then bind_res (enqueue_elf_dlopen ex w filename e st3) (\<lambda>st4. Inr (0, st4))
                                else Inr (ret, st3))))"

section \<open>The cache\<close>

interpretation elf_order: comparator elf_cache_compare
proof
  show "elf_cache_compare a b = 0 \<longleftrightarrow> a = b" for a b
    by (cases a; cases b) (auto simp: str_order.cmp_eq word_uint_eq_iff)
  show "elf_cache_compare a b < 0 \<longleftrightarrow> 0 < elf_cache_compare b a" for a b
    by (cases a; cases b) (auto simp: str_order.cmp_swap word_uint_eq_iff)
  show "elf_cache_compare a c < 0" if "elf_cache_compare a b < 0" "elf_cache_compare b c < 0" for a b c
    using that by (cases a; cases b; cases c) (auto split: if_splits intro: str_order.cmp_trans)
qed

definition cache_sorted :: "put_state \<Rightarrow> bool" where
  "cache_sorted st \<longleftrightarrow> tree_sorted elf_cache_compare cache_key (elf_cache st)"

lemma elf_cache_insert_sorted: "cache_sorted st \<Longrightarrow> cache_sorted (elf_cache_insert cl ma s p st)"
  by (simp add: cache_sorted_def elf_cache_insert_def elf_order.tsearch_sorted)

text \<open>A lookup after an insertion: the path that was inserted first for the same class, machine and name.\<close>

lemma elf_cache_lookup_insert:
  assumes "cache_sorted st"
  shows "elf_cache_lookup cl ma s (elf_cache_insert cl' ma' s' p st) =
    (if (cl, ma, s) = (cl', ma', s') \<and> elf_cache_lookup cl ma s st = None then Some p else elf_cache_lookup cl ma s st)"
proof -
  let ?e = "\<lparr>ce_class = cl', ce_machine = ma', ce_soname = s', ce_path = p\<rparr>"
  let ?t = "elf_cache st" and ?t' = "snd (tsearch elf_cache_compare cache_key ?e (elf_cache st))"
  have st: "tree_sorted elf_cache_compare cache_key ?t" "tree_sorted elf_cache_compare cache_key ?t'"
    using assms by (simp_all add: cache_sorted_def elf_order.tsearch_sorted)
  have set: "set ?t' = (if (cl', ma', s') \<in> cache_key ` set ?t then set ?t else insert ?e (set ?t))"
    using elf_order.tsearch_set [OF st(1), of ?e] by (simp add: cache_key_def)
  have "tfind elf_cache_compare cache_key (cl, ma, s) ?t' =
    (if (cl, ma, s) = (cl', ma', s') \<and> tfind elf_cache_compare cache_key (cl, ma, s) ?t = None then Some ?e
     else tfind elf_cache_compare cache_key (cl, ma, s) ?t)" (is "_ = ?r")
  proof -
    have find: "tfind elf_cache_compare cache_key (cl, ma, s) ?t' = Some x \<longleftrightarrow> x \<in> set ?t' \<and> cache_key x = (cl, ma, s)"
      "tfind elf_cache_compare cache_key (cl, ma, s) ?t = Some x \<longleftrightarrow> x \<in> set ?t \<and> cache_key x = (cl, ma, s)" for x
      using elf_order.tfind_Some [OF st(1)] elf_order.tfind_Some [OF st(2)] by blast+
    have none: "tfind elf_cache_compare cache_key (cl, ma, s) ?t = None \<longleftrightarrow> (cl, ma, s) \<notin> cache_key ` set ?t"
      by (rule elf_order.tfind_None [OF st(1)])
    have key: "cache_key ?e = (cl', ma', s')" by (simp add: cache_key_def)
    have "tfind elf_cache_compare cache_key (cl, ma, s) ?t' = Some x \<longleftrightarrow> ?r = Some x" for x
    proof (cases "(cl, ma, s) = (cl', ma', s') \<and> (cl, ma, s) \<notin> cache_key ` set ?t")
      case True
      have r: "?r = Some ?e" by (rule if_P, rule conjI [OF conjunct1 [OF True] none [THEN iffD2, OF conjunct2 [OF True]]])
      have "set ?t' = insert ?e (set ?t)" using set True by (metis (no_types))
      then have "x \<in> set ?t' \<longleftrightarrow> x = ?e \<or> x \<in> set ?t" by blast
      moreover have "x \<in> set ?t \<Longrightarrow> cache_key x \<noteq> (cl, ma, s)" using True by (metis image_eqI)
      moreover have "cache_key ?e = (cl, ma, s)" using True key by simp
      ultimately have "x \<in> set ?t' \<and> cache_key x = (cl, ma, s) \<longleftrightarrow> x = ?e" by blast
      then show ?thesis unfolding r find(1) by (metis option.inject)
    next
      case False
      then have r: "?r = tfind elf_cache_compare cache_key (cl, ma, s) ?t" using none by (intro if_not_P) simp
      have "x \<in> set ?t' \<and> cache_key x = (cl, ma, s) \<longleftrightarrow> x \<in> set ?t \<and> cache_key x = (cl, ma, s)"
      proof (cases "(cl', ma', s') \<in> cache_key ` set ?t")
        case True
        then show ?thesis using set by simp
      next
        case new: False
        then have "set ?t' = insert ?e (set ?t)" using set by simp
        moreover have "cache_key ?e \<noteq> (cl, ma, s)" unfolding key using False new by metis
        ultimately show ?thesis by (metis insert_iff)
      qed
      then show ?thesis unfolding r find .
    qed
    then show ?thesis by (metis option.exhaust)
  qed
  then show ?thesis unfolding elf_cache_lookup_def elf_cache_insert_def by (auto split: if_splits)
qed

section \<open>Lines of ldd\<close>

lemma strstr_first:
  assumes "p \<noteq> []" "hd p \<notin> set a"
  shows "strstr p (a @ p @ b) = Some (a, b)"
  using assms
proof (induction a)
  case Nil
  then show ?case by (cases p) (simp_all add: starts_with_def)
next
  case (Cons c a)
  then have "\<not> starts_with p (c # a @ p @ b)" by (cases p) (auto simp: starts_with_def)
  then show ?case using Cons by simp
qed

lemma strstr_none: "p \<noteq> [] \<Longrightarrow> hd p \<notin> set a \<Longrightarrow> strstr p a = None"
proof (induction a)
  case (Cons c a)
  then have "\<not> starts_with p (c # a)" by (cases p) (auto simp: starts_with_def)
  then show ?case using Cons by simp
qed simp

lemma rtrim_space: "s \<noteq> [] \<Longrightarrow> \<not> isspace (last s) \<Longrightarrow> rtrim (s @ '' '') = s \<and> rtrim s = s"
  by (cases s rule: rev_cases) (simp_all add: rtrim_def isspace_def)

text \<open>A word without white space and parentheses.\<close>

definition ldd_word :: "string \<Rightarrow> bool" where
  "ldd_word s \<longleftrightarrow> s \<noteq> [] \<and> list_all (\<lambda>c. \<not> isspace c \<and> c \<noteq> CHR ''('') s"

lemma ldd_word_last: "ldd_word s \<Longrightarrow> \<not> isspace (last s)"
  by (auto simp: ldd_word_def list_all_iff)

text \<open>
  C27: The two forms of lines that \<open>ldd\<close> writes for a library, with and without an arrow, give back
  exactly the name and the path that were written; a library that was not found gives nothing.
\<close>
theorem ldd_line_reads_back:
  assumes "ldd_word s" and "ldd_word p" and "hd p = CHR ''/''" and "CHR 0x0A \<notin> set addr"
  shows "ldd_line (CHR 0x09 # s @ '' => '' @ p @ '' (0x'' @ addr @ [CHR 0x0A]) = Some (Some s, p) \<and>
         ldd_line (CHR 0x09 # p @ '' (0x'' @ addr @ [CHR 0x0A]) = Some (None, p) \<and>
         ldd_line (CHR 0x09 # s @ '' => not found'' @ [CHR 0x0A]) = None"
proof -
  have sp: "s \<noteq> []" "p \<noteq> []" "CHR ''('' \<notin> set s" "CHR ''('' \<notin> set p" "\<not> isspace (last s)" "\<not> isspace (last p)"
    "CHR '' '' \<notin> set s" "CHR '' '' \<notin> set p" "\<not> isspace (hd s)" "\<not> isspace (hd p)" "\<not> list_all isspace s"
    using assms(1,2) by (auto simp: ldd_word_def list_all_iff isspace_def)
  then have ex: "\<exists>x \<in> set p. \<not> isspace x" by auto
  have 1: "strstr ''(0x'' (CHR 0x09 # s @ '' => '' @ p @ '' (0x'' @ addr) = Some (CHR 0x09 # s @ '' => '' @ p @ '' '', addr)"
    using strstr_first [of "''(0x''" "CHR 0x09 # s @ '' => '' @ p @ '' ''" addr] sp by simp
  have 2: "strstr ''(0x'' (CHR 0x09 # p @ '' (0x'' @ addr) = Some (CHR 0x09 # p @ '' '', addr)"
    using strstr_first [of "''(0x''" "CHR 0x09 # p @ '' ''" addr] sp by simp
  have 3: "strstr ''(0x'' (CHR 0x09 # s @ '' => not found'') = None" using sp by (intro strstr_none) auto
  have a: "strstr '' => '' (CHR 0x09 # s @ '' => '' @ p) = Some (CHR 0x09 # s, p)"
    using strstr_first [of "'' => ''" "CHR 0x09 # s" p] sp by simp
  have b: "strstr '' => '' (CHR 0x09 # p) = None" using sp by (intro strstr_none) auto
  have t: "rtrim (CHR 0x09 # s @ '' => '' @ p @ '' '') = CHR 0x09 # s @ '' => '' @ p" "rtrim (CHR 0x09 # p @ '' '') = CHR 0x09 # p"
    using rtrim_space [of "CHR 0x09 # s @ '' => '' @ p"] rtrim_space [of "CHR 0x09 # p"] sp by simp_all
  have ts: "rtrim s = s" using rtrim_space sp by blast
  have d: "dropWhile isspace s = s" "dropWhile isspace p = p" "isspace (CHR 0x09)"
    using sp by (simp_all add: dropWhile_hd_False) (simp add: isspace_def)
  show ?thesis
    using 1 2 3 a b t ts d sp ex assms(3) by (simp add: ldd_line_def Let_def butlast_append del: strstr.simps)
qed

theorem ldd_line_reads_back_witness:
  "ldd_line (CHR 0x09 # ''libc.so.6'' @ '' => '' @ ''/lib64/libc.so.6'' @ '' (0x'' @ ''00007f)'' @ [CHR 0x0A]) =
     Some (Some ''libc.so.6'', ''/lib64/libc.so.6'')"
  using ldd_line_reads_back [of "''libc.so.6''" "''/lib64/libc.so.6''" "''00007f)''"]
  by (simp add: ldd_word_def isspace_def)

section \<open>Entries of environment variables\<close>

definition entry_hits :: "world \<Rightarrow> string \<Rightarrow> string \<Rightarrow> string \<Rightarrow> bool" where
  "entry_hits w filename val entry =
     (case split_first (CHR '':'') entry of
        Some (file_regex, word) \<Rightarrow>
          (case w_regex w file_regex of None \<Rightarrow> False | Some matches \<Rightarrow> matches filename \<and> word = val)
      | None \<Rightarrow> entry = val)"

lemma split_on_unfold:
  "split_on d s = takeWhile (\<lambda>c. c \<noteq> d) s #
     (if dropWhile (\<lambda>c. c \<noteq> d) s = [] then [] else split_on d (tl (dropWhile (\<lambda>c. c \<noteq> d) s)))"
proof (induction s)
  case (Cons c s)
  then show ?case by (cases "split_on d s") auto
qed simp

lemma in_envvar_loop_split:
  "in_envvar_loop w filename val s = (if list_ex (entry_hits w filename val) (split_on (CHR '','') s) then 1 else 0)"
proof (induction w filename val s rule: in_envvar_loop.induct)
  case (1 w filename val s)
  let ?e = "takeWhile (\<lambda>c. c \<noteq> CHR '','') s" and ?r = "dropWhile (\<lambda>c. c \<noteq> CHR '','') s"
  have eq: "in_envvar_loop w filename val s =
      (if entry_hits w filename val ?e then 1 else if ?r = [] then 0 else in_envvar_loop w filename val (tl ?r))"
    by (subst in_envvar_loop.simps) (simp add: Let_def entry_hits_def)
  have split: "split_on (CHR '','') s = ?e # (if ?r = [] then [] else split_on (CHR '','') (tl ?r))"
    by (rule split_on_unfold)
  note IH = 1 [OF refl refl refl, folded entry_hits_def]
  show ?case
  proof (cases "entry_hits w filename val ?e \<or> ?r = []")
    case True
    then show ?thesis unfolding eq split by auto
  next
    case False
    then show ?thesis unfolding eq split using IH by auto
  qed
qed

text \<open>
  C28: A value is ignored exactly when the variable has an entry, between commas, that is the value, or
  an entry \<open>regex:value\<close> whose expression compiles and matches the file.
\<close>
theorem in_envvar_entries:
  "in_envvar w envname filename val =
     (case w_getenv w envname of
        None \<Rightarrow> 0
      | Some list \<Rightarrow> if list = [] then 0
          else if list_ex (entry_hits w filename val) (split_on (CHR '','') list) then 1 else 0)"
  by (simp add: in_envvar_def in_envvar_loop_split split: option.split)

section \<open>What is enqueued\<close>

lemma item_path_whole [simp]: "item_path p (- 1) = p"
  by (simp add: item_path_def)

lemma enqueue_item_cache: "enqueue_item ex p n st = Inr (r, st') \<Longrightarrow> elf_cache st' = elf_cache st"
  unfolding enqueue_item_def Let_def by (auto split: if_splits option.splits)

lemma enqueue_if_new_cache: "enqueue_if_new ex p st = Inr st' \<Longrightarrow> elf_cache st' = elf_cache st"
  unfolding enqueue_if_new_def
  by (auto simp: bind_res_Inr_iff dest: enqueue_item_cache split: if_splits)

lemma enqueue_if_new_enq: "put_inv S st \<Longrightarrow> enq_ok S ex {p} {p} st (enqueue_if_new ex p st)"
proof -
  assume inv: "put_inv S st"
  show ?thesis
  proof (cases "is_path_added p st")
    case True
    obtain xs where ok: "queue_ok st xs" using inv by (auto simp: put_inv_def)
    have "p \<in> known st" using True is_path_added_iff [OF ok] ok by (simp add: known_def queue_ok_def)
    then show ?thesis using True inv by (simp add: enqueue_if_new_def enq_ok_skip)
  next
    case False
    then show ?thesis using enqueue_item_plain [OF inv, of ex p "-1"] by (simp add: enqueue_if_new_def)
  qed
qed

lemma enqueue_shebang_enq:
  assumes "put_inv S st"
  shows "enq_ok S ex ({shebang_path buf} - {[]}) ({shebang_path buf} - {[]}) st (enqueue_shebang ex buf st)"
  using enqueue_if_new_enq [OF assms, of ex "shebang_path buf"] enq_ok_skip [OF assms]
  by (simp add: enqueue_shebang_def Let_def)

text \<open>A result with a return value: the callers end the program on an error.\<close>

definition ok_ret :: "put_error + int \<times> put_state \<Rightarrow> put_error + put_state" where
  "ok_ret r = bind_res r (\<lambda>(ret, st). if ret = 0 then Inr st else Inl (PutFailed ''ret''))"

definition ldd_paths :: "world \<Rightarrow> string \<Rightarrow> string set" where
  "ldd_paths w filename =
     (case w_ldd w filename of None \<Rightarrow> {} | Some (lines, _) \<Rightarrow> snd ` set (List.map_filter ldd_line lines))"

lemma tsearch_subset: "set (snd (tsearch cmp key x t)) \<subseteq> insert x (set t)"
  by (induction t) (auto split: prod.splits)

lemma elf_cache_insert_ok:
  assumes "put_inv S st" "p \<in> snd S"
  shows "put_inv S (elf_cache_insert cl ma s p st)" "extends st (elf_cache_insert cl ma s p st)"
    "known (elf_cache_insert cl ma s p st) = known st"
proof -
  let ?st = "elf_cache_insert cl ma s p st"
  have q: "queue_ok ?st xs = queue_ok st xs" for xs by (simp add: queue_ok_def elf_cache_insert_def)
  have "ce_path ` set (elf_cache ?st) \<subseteq> insert p (ce_path ` set (elf_cache st))"
    using tsearch_subset [of elf_cache_compare cache_key _ "elf_cache st"] by (fastforce simp: elf_cache_insert_def)
  moreover have "stats_ok (fst S) ?st = stats_ok (fst S) st" by (simp add: stats_ok_def elf_cache_insert_def)
  ultimately show "put_inv S ?st" using assms by (auto simp: put_inv_def side_ok_def q)
  show "extends st ?st" unfolding extends_def q by (auto simp: elf_cache_insert_def intro: exI [of _ "[]"])
  show "known ?st = known st" by (simp add: known_def elf_cache_insert_def)
qed

lemma cache_fold_ok:
  assumes "put_inv S st" "snd ` set ps \<subseteq> snd S"
  shows "enq_ok S ex {} {} st (Inr (fold (\<lambda>(k, p). elf_cache_insert cl ma k p) ps st))"
  using assms
proof (induction ps arbitrary: st)
  case Nil
  then show ?case by (simp add: enq_ok_skip)
next
  case (Cons kp ps)
  obtain k p where kp: "kp = (k, p)" by force
  note step = elf_cache_insert_ok [OF Cons.prems(1), of p cl ma k]
  have "enq_ok S ex {} {} (elf_cache_insert cl ma k p st)
      (Inr (fold (\<lambda>(k, p). elf_cache_insert cl ma k p) ps (elf_cache_insert cl ma k p st)))"
    using Cons.IH step(1) Cons.prems(2) kp by simp
  then show ?case
    using extends_trans [OF step(2)] step(3) Cons.prems(2) kp by (simp add: enq_ok_def)
qed

lemma enqueue_shared_libraries_enq:
  assumes inv: "put_inv S st" and U: "ldd_paths w filename \<subseteq> snd S"
  shows "enq_ok S ex (ldd_paths w filename) (ldd_paths w filename) st
           (ok_ret (enqueue_shared_libraries ex w filename cl ma can_cache st))"
proof (cases "w_ldd w filename")
  case None
  then show ?thesis by (simp add: enqueue_shared_libraries_def ok_ret_def enq_ok_Inl)
next
  case (Some lc)
  obtain lines close_ok where lc: "lc = (lines, close_ok)" by force
  let ?deps = "List.map_filter ldd_line lines"
  let ?pending = "if can_cache then filter (\<lambda>(k, p). k \<noteq> []) (map (\<lambda>(s, p). (key_soname s p, p)) ?deps) else []"
  have paths: "ldd_paths w filename = (\<Union>d \<in> set ?deps. {snd d})" by (auto simp: ldd_paths_def Some lc)
  have pending: "snd ` set ?pending \<subseteq> snd S"
  proof
    fix q
    assume "q \<in> snd ` set ?pending"
    then obtain d where "d \<in> set ?deps" "q = snd d" by (auto split: if_splits)
    then show "q \<in> snd S" using U paths by blast
  qed
  have "enq_ok S ex (\<Union>d \<in> set ?deps. {snd d}) (\<Union>d \<in> set ?deps. {snd d}) st (fold_res (\<lambda>(s, p). enqueue_if_new ex p) ?deps st)"
    using inv by (intro enq_ok_fold) (auto intro: enqueue_if_new_enq)
  moreover have "enq_ok S ex {} {} st1 (if \<not> close_ok then Inl (PutFailed ''ret'')
      else Inr (fold (\<lambda>(k, p). elf_cache_insert cl ma k p) ?pending st1))" if "put_inv S st1" for st1
    using cache_fold_ok [OF that pending] by (simp add: enq_ok_Inl)
  ultimately have "enq_ok S ex ((\<Union>d \<in> set ?deps. {snd d}) \<union> {}) ((\<Union>d \<in> set ?deps. {snd d}) \<union> {}) st
      (bind_res (fold_res (\<lambda>(s, p). enqueue_if_new ex p) ?deps st)
         (\<lambda>st1. if \<not> close_ok then Inl (PutFailed ''ret'') else Inr (fold (\<lambda>(k, p). elf_cache_insert cl ma k p) ?pending st1)))"
    by (rule enq_ok_seq [OF inv])
  moreover have "ok_ret (enqueue_shared_libraries ex w filename cl ma can_cache st) =
      bind_res (fold_res (\<lambda>(s, p). enqueue_if_new ex p) ?deps st)
         (\<lambda>st1. if \<not> close_ok then Inl (PutFailed ''ret'') else Inr (fold (\<lambda>(k, p). elf_cache_insert cl ma k p) ?pending st1))"
    by (cases "fold_res (\<lambda>(s, p). enqueue_if_new ex p) ?deps st")
       (simp_all add: enqueue_shared_libraries_def Some lc ok_ret_def Let_def)
  ultimately show ?thesis unfolding paths by simp
qed

definition dlopen_paths :: "world \<Rightarrow> string set" where
  "dlopen_paths w = {l. \<exists>s. w_dlopen w s = Some l}"

lemma first_loaded_paths: "first_loaded w ss = Some l \<Longrightarrow> l \<in> dlopen_paths w"
  by (induction ss) (auto simp: dlopen_paths_def split: option.splits)

lemma resolve_soname_paths:
  assumes "resolve_soname w ss = (0, l)" "l \<noteq> []"
  shows "l \<in> dlopen_paths w"
proof (cases "first_loaded w ss")
  case (Some l')
  then have "l' = l" using assms by (simp add: resolve_soname_def split: if_splits)
  then show ?thesis using first_loaded_paths [OF Some] by simp
qed (use assms in \<open>simp add: resolve_soname_def\<close>)

lemma visit_element_enq: "put_inv S st \<Longrightarrow> enq_ok S ex {} (dlopen_paths w) st (visit_element ex w filename j st)"
proof (cases j)
  case (JObject flds)
  assume inv: "put_inv S st"
  have skip: "enq_ok S ex {} (dlopen_paths w) st (Inr st)" using inv by (simp add: enq_ok_skip)
  have new: "enq_ok S ex {} (dlopen_paths w) st (enqueue_if_new ex l st)" if "resolve_soname w ss = (0, l)" "l \<noteq> []" for ss l
    using enq_ok_weaken [OF enqueue_if_new_enq [OF inv]] resolve_soname_paths [OF that] by blast
  show ?thesis unfolding JObject
    using skip new by (auto simp: enq_ok_Inl Let_def split: option.split json.split prod.split)
qed (simp_all add: enq_ok_Inl)

lemma enq_ok_fold_empty:
  assumes "put_inv S st" "\<And>x st. put_inv S st \<Longrightarrow> enq_ok S ex {} y st (f x st)"
  shows "enq_ok S ex {} y st (fold_res f xs st)"
proof -
  have "enq_ok S ex (\<Union>x \<in> set xs. {}) (\<Union>x \<in> set xs. y) st (fold_res f xs st)"
    using assms by (intro enq_ok_fold)
  then show ?thesis by (rule enq_ok_weaken) auto
qed

lemma enqueue_note_enq:
  assumes inv: "put_inv S st"
  shows "enq_ok S ex {} (dlopen_paths w) st (enqueue_note ex w filename n st)"
proof -
  have fold: "enq_ok S ex {} (dlopen_paths w) st (fold_res (visit_element ex w filename) js st)" for js
    by (rule enq_ok_fold_empty [OF inv visit_element_enq])
  have skip: "enq_ok S ex {} (dlopen_paths w) st (Inr st)" using inv by (simp add: enq_ok_skip)
  show ?thesis
    unfolding enqueue_note_def process_json_metadata_def
    using fold skip by (simp add: enq_ok_Inl split: prod.split option.split json.split)
qed

lemma enqueue_elf_dlopen_enq:
  assumes "put_inv S st"
  shows "enq_ok S ex {} (dlopen_paths w) st (enqueue_elf_dlopen ex w filename e st)"
proof -
  have "enq_ok S ex {} (dlopen_paths w) st (enqueue_note_sections ex w filename ss st)" if "put_inv S st" for ss st
    using that
  proof (induction ss arbitrary: st)
    case (Cons s ss)
    show ?case
    proof (cases s)
      case (Notes ns)
      have "enq_ok S ex ({} \<union> {}) (dlopen_paths w \<union> dlopen_paths w) st
          (bind_res (fold_res (enqueue_note ex w filename) ns st) (enqueue_note_sections ex w filename ss))"
        using enq_ok_fold_empty [OF Cons.prems enqueue_note_enq] Cons.IH by (intro enq_ok_seq [OF Cons.prems])
      then show ?thesis using Notes by simp
    qed (use Cons in \<open>simp_all add: enq_ok_skip\<close>)
  qed (simp add: enq_ok_skip)
  then show ?thesis using assms by (simp add: enqueue_elf_dlopen_def enq_ok_skip)
qed

text \<open>
  The libraries of an ELF file: what is enqueued when all names are in the cache, and otherwise. The universe \<open>snd S\<close> has the
  paths of the cache.
\<close>

definition elf_needs :: "world \<Rightarrow> string \<Rightarrow> put_state \<Rightarrow> string set" where
  "elf_needs w filename st =
     (case w_elf w filename of
        None \<Rightarrow> {}
      | Some e \<Rightarrow>
          if \<not> ev_kind_ok e then {}
          else case (ev_ident e, ev_dynamic e) of
                 (Some (cl, ma), Some dyns) \<Rightarrow>
                   if \<not> fst (dyn_scan dyns) \<and> \<not> is_elf_cache_disabled w \<and>
                      list_all (\<lambda>n. elf_cache_lookup cl ma n st \<noteq> None) (snd (dyn_scan dyns))
                   then {p. \<exists>n \<in> set (snd (dyn_scan dyns)). elf_cache_lookup cl ma n st = Some p} \<union>
                        {p. p = elf_interp (ev_phdrs e) \<and> p \<noteq> [] \<and> hd p = CHR ''/''}
                   else ldd_paths w filename
               | _ \<Rightarrow> {})"

definition elf_universe :: "world \<Rightarrow> string \<Rightarrow> string set" where
  "elf_universe w filename = ldd_paths w filename \<union> dlopen_paths w \<union>
     (case w_elf w filename of None \<Rightarrow> {} | Some e \<Rightarrow> {elf_interp (ev_phdrs e)})"

lemma tfind_in: "tfind cmp key k t = Some x \<Longrightarrow> x \<in> set t"
  by (induction t) (auto split: if_splits)

lemma elf_cache_lookup_side: "side_ok S st \<Longrightarrow> elf_cache_lookup cl ma n st = Some p \<Longrightarrow> p \<in> snd S"
  by (auto simp: elf_cache_lookup_def side_ok_def dest!: tfind_in)

lemma enqueue_cached_fold:
  "fold_res (\<lambda>n s. enqueue_if_new ex (the (elf_cache_lookup cl ma n s)) s) ns st =
   fold_res (enqueue_if_new ex) (map (\<lambda>n. the (elf_cache_lookup cl ma n st)) ns) st"
proof -
  have "elf_cache st' = elf_cache st \<Longrightarrow>
     fold_res (\<lambda>n s. enqueue_if_new ex (the (elf_cache_lookup cl ma n s)) s) ns st' =
     fold_res (enqueue_if_new ex) (map (\<lambda>n. the (elf_cache_lookup cl ma n st)) ns) st'" for st'
  proof (induction ns arbitrary: st')
    case (Cons n ns)
    have eq: "elf_cache_lookup cl ma n st' = elf_cache_lookup cl ma n st" using Cons.prems by (simp add: elf_cache_lookup_def)
    show ?case
    proof (cases "enqueue_if_new ex (the (elf_cache_lookup cl ma n st)) st'")
      case (Inr st2)
      then show ?thesis using Cons.IH [of st2] enqueue_if_new_cache [OF Inr] Cons.prems by (simp add: eq)
    qed (simp add: eq)
  qed simp
  then show ?thesis by simp
qed

end
