(* ===== verification/PutMain.thy ===== *)
theory PutMain
  imports PutDeps
begin

text \<open>
  The search for the files to copy of \<open>initrd-put\<close> (\<open>utils/initrd-put/initrd-put.c\<close>): what a file needs is enqueued by
  \<open>enqueue_path\<close>, and the main loop takes the files from the queue into the tree until the queue is empty. The loop
  follows the pointers of the queue while files are put before its head.
\<close>

section \<open>The dependencies of a file\<close>

definition S_IFMT :: u32 where "S_IFMT = 0xF000"
definition S_IFDIR :: u32 where "S_IFDIR = 0x4000"
definition S_IFLNK :: u32 where "S_IFLNK = 0xA000"
definition S_IFREG :: u32 where "S_IFREG = 0x8000"
definition S_IFBLK :: u32 where "S_IFBLK = 0x6000"
definition S_IFCHR :: u32 where "S_IFCHR = 0x2000"
definition S_IFIFO :: u32 where "S_IFIFO = 0x1000"
definition S_IFSOCK :: u32 where "S_IFSOCK = 0xC000"

definition LINE_MAX :: nat where "LINE_MAX = 2048"

text \<open>The options of the program: the exclude patterns, the prefix to remove, the destination and the force flag.\<close>

record put_conf =
  exclude_match :: "(string \<Rightarrow> bool) list"
  prefix :: "string option"
  destdir :: string
  force :: bool

definition enqueue_parent_directory :: "put_conf \<Rightarrow> string \<Rightarrow> put_state \<Rightarrow> put_error + put_state" where
  "enqueue_parent_directory c path st =
     (if prefix c = Some path then Inr st
      else case split_last (CHR ''/'') path of
             None \<Rightarrow> Inr st
           | Some (dir, _) \<Rightarrow>
               if dir = [] then Inr st
               else bind_res (enqueue_item (exclude_match c) path (int (length dir)) st) (\<lambda>(_, s). Inr s))"

definition fill_stat :: "nat \<Rightarrow> stat \<Rightarrow> put_state \<Rightarrow> put_state" where
  "fill_stat a sb st = upd_file a (\<lambda>f. f\<lparr>f_stat := sb\<rparr>) st"

definition enqueue_dir_entry :: "put_conf \<Rightarrow> fts_info \<times> string \<times> stat \<Rightarrow> put_state \<Rightarrow> put_error + put_state" where
  "enqueue_dir_entry c e st =
     (case e of (info, path, sb) \<Rightarrow>
        if info \<in> {FTS_DNR, FTS_ERR, FTS_NS, FTS_DP} \<or> is_path_added path st then Inr st
        else bind_res (enqueue_item (exclude_match c) path (- 1) st)
               (\<lambda>(f, s). Inr (case f of None \<Rightarrow> s | Some a \<Rightarrow> fill_stat a sb s)))"

definition enqueue_directory :: "put_conf \<Rightarrow> world \<Rightarrow> string \<Rightarrow> put_state \<Rightarrow> put_error + put_state" where
  "enqueue_directory c w path st =
     (case w_fts w path of
        None \<Rightarrow> Inl (PutFailed ''fts_open'')
      | Some entries \<Rightarrow> fold_res (enqueue_dir_entry c) entries st)"

definition enqueue_regular_file :: "put_conf \<Rightarrow> world \<Rightarrow> string \<Rightarrow> put_state \<Rightarrow> put_error + int \<times> put_state" where
  "enqueue_regular_file c w filename st =
     (case w_read w filename of
        Inl e \<Rightarrow> Inr (if e = EACCES \<or> e = EPERM then 0 else - 1, st)
      | Inr None \<Rightarrow> Inr (- 1, st)
      | Inr (Some bytes) \<Rightarrow>
          let buf = take (LINE_MAX - 1) bytes
          in bind_res (if w_exec w filename \<and> is_shebang buf then enqueue_shebang (exclude_match c) buf st else Inr st) (\<lambda>st1.
             if is_elf_file buf then enqueue_libraries (exclude_match c) w filename st1 else Inr (0, st1)))"

text \<open>\<open>enqueue_path\<close> of the file at the address \<open>a\<close>.\<close>

definition enqueue_path :: "put_conf \<Rightarrow> world \<Rightarrow> nat \<Rightarrow> put_state \<Rightarrow> put_error + put_state" where
  "enqueue_path c w a st =
     (case fheap st a of
        None \<Rightarrow> Inl UseAfterFree
      | Some f \<Rightarrow>
          if \<not> is_path_added (f_src f) st then Inr st
          else
            bind_res (if st_ino (f_stat f) = 0
                      then (case w_lstat w (f_src f) of Inl _ \<Rightarrow> Inl (PutFailed ''lstat'') | Inr sb \<Rightarrow> Inr sb)
                      else Inr (f_stat f)) (\<lambda>sb.
            bind_res (enqueue_parent_directory c (f_src f) (if st_ino (f_stat f) = 0 then fill_stat a sb st else st)) (\<lambda>st1.
              if st_mode sb AND S_IFMT = S_IFDIR
              then (if f_recursive f then enqueue_directory c w (f_src f) st1 else Inr st1)
              else if st_mode sb AND S_IFMT = S_IFLNK
              then enqueue_canonicalized_path (exclude_match c) w (f_src f) False
                     (case w_readlink w (f_src f) of
                        Inr target \<Rightarrow> upd_file a (\<lambda>g. g\<lparr>f_symlink := Some (take PATH_MAX target)\<rparr>) st1
                      | Inl _ \<Rightarrow> st1)
              else if st_mode sb AND S_IFMT = S_IFREG
              then bind_res (enqueue_regular_file c w (f_src f) st1)
                     (\<lambda>(ret, st2). if ret < 0 then Inl (PutFailed ''failed to read regular file'') else Inr st2)
              else Inr st1)))"

section \<open>The main loop\<close>

text \<open>The path in the destination: the source without the prefix.\<close>

definition dst_of :: "put_conf \<Rightarrow> string \<Rightarrow> string" where
  "dst_of c src =
     (case prefix c of
        None \<Rightarrow> src
      | Some p \<Rightarrow>
          if p \<noteq> [] \<and> length src \<ge> length p \<and> (length src = length p \<or> src ! length p = CHR ''/'') \<and> take (length p) src = p
          then drop (length p) src else src)"

text \<open>
  One turn of the inner loop: a file that is in the destination already is dropped, unless the force flag is given; any other
  file goes into the tree, what it needs is enqueued, and it leaves the queue.
\<close>

definition put_turn :: "put_conf \<Rightarrow> world \<Rightarrow> nat \<Rightarrow> put_state \<Rightarrow> put_error + put_state" where
  "put_turn c w a st0 =
     (case fheap st0 a of
        None \<Rightarrow> Inl UseAfterFree
      | Some f \<Rightarrow>
          let dst = dst_of c (f_src f);
              st = upd_file a (\<lambda>g. g\<lparr>f_dst := Some dst\<rparr>) st0;
              insert_it =
                (case tree_add_file a st of
                   (True, st1) \<Rightarrow> bind_res (enqueue_path c w a st1) (\<lambda>st2. Inr (dequeue_item a st2))
                 | (False, st1) \<Rightarrow> Inr (free_file a (dequeue_item a st1)))
          in if force c then insert_it
             else if length (destdir c) + length dst \<ge> PATH_MAX + 1 then Inl (PutFailed ''destination path too long'')
             else (case w_lstat w (destdir c @ dst) of
                     Inl e \<Rightarrow> if e \<noteq> ENOENT then Inl (PutFailed ''lstat'') else insert_it
                   | Inr sb \<Rightarrow>
                       if st_mode sb AND S_IFMT \<noteq> S_IFDIR then Inr (free_file a (dequeue_item a st)) else insert_it))"

text \<open>The inner loop over the pointers \<open>next\<close>, which are read before the turn, and the outer loop.\<close>

partial_function (option) put_inner :: "put_conf \<Rightarrow> world \<Rightarrow> nat option \<Rightarrow> put_state \<Rightarrow> (put_error + put_state) option" where
  "put_inner c w q st =
     (case q of
        None \<Rightarrow> Some (Inr st)
      | Some a \<Rightarrow>
          (case fheap st a of
             None \<Rightarrow> Some (Inl UseAfterFree)
           | Some f \<Rightarrow>
               (case put_turn c w a st of
                  Inl e \<Rightarrow> Some (Inl e)
                | Inr st' \<Rightarrow> put_inner c w (f_next f) st')))"

partial_function (option) put_outer :: "put_conf \<Rightarrow> world \<Rightarrow> put_state \<Rightarrow> (put_error + put_state) option" where
  "put_outer c w st =
     (if inqueue st = None then Some (Inr st)
      else Option.bind (put_inner c w (inqueue st) st)
             (\<lambda>r. case r of Inl e \<Rightarrow> Some (Inl e) | Inr st' \<Rightarrow> put_outer c w st'))"

text \<open>The program up to the copying: the arguments are enqueued, then the loop runs.\<close>

definition put_collect :: "put_conf \<Rightarrow> world \<Rightarrow> string list \<Rightarrow> (put_error + put_state) option" where
  "put_collect c w args =
     (case fold_res (\<lambda>name. enqueue_canonicalized_path (exclude_match c) w name True) args put_init of
        Inl e \<Rightarrow> Some (Inl e)
      | Inr st \<Rightarrow> if length (destdir c) \<ge> PATH_MAX + 1 then Some (Inl (PutFailed ''destination path too long'')) else put_outer c w st)"

section \<open>What is enqueued for a file\<close>

definition parent_of :: "put_conf \<Rightarrow> string \<Rightarrow> string set" where
  "parent_of c path =
     (if prefix c = Some path then {}
      else case split_last (CHR ''/'') path of
             None \<Rightarrow> {}
           | Some (dir, _) \<Rightarrow> if dir = [] then {} else {item_path path (int (length dir))})"

definition canon_needs :: "world \<Rightarrow> string \<Rightarrow> string set" where
  "canon_needs w path =
     (case canonicalize w path of (links, Inr r) \<Rightarrow> insert r (set links) | (links, Inl _) \<Rightarrow> set links)"

definition script_needs :: "world \<Rightarrow> string \<Rightarrow> string set" where
  "script_needs w path =
     (case w_read w path of
        Inr (Some bytes) \<Rightarrow>
          (let buf = take (LINE_MAX - 1) bytes
           in if w_exec w path \<and> is_shebang buf then {shebang_path buf} - {[]} else {})
      | _ \<Rightarrow> {})"

text \<open>The paths a file cannot do without: its directory, the targets of a symlink, the interpreter of a script.\<close>

definition needs :: "put_conf \<Rightarrow> world \<Rightarrow> string \<Rightarrow> string set" where
  "needs c w path = parent_of c path \<union>
     (case w_lstat w path of
        Inl _ \<Rightarrow> {}
      | Inr sb \<Rightarrow>
          if st_mode sb AND S_IFMT = S_IFLNK then canon_needs w path
          else if st_mode sb AND S_IFMT = S_IFREG then script_needs w path else {})"

text \<open>
  A finite set of paths that is closed under everything the program may enqueue for a path, and what is assumed of
  the walk over a directory: the \<open>stat\<close> of an entry is the one \<open>lstat\<close> gives.
\<close>

definition put_universe :: "put_conf \<Rightarrow> world \<Rightarrow> string set \<Rightarrow> bool" where
  "put_universe c w U \<longleftrightarrow> finite U \<and>
     (\<forall>p \<in> U. parent_of c p \<subseteq> U \<and> canon_needs w p \<subseteq> U \<and> script_needs w p \<subseteq> U \<and> elf_universe w p \<subseteq> U \<and>
        (\<forall>es. w_fts w p = Some es \<longrightarrow> (\<forall>(i, q, sb) \<in> set es. i \<in> {FTS_DNR, FTS_ERR, FTS_NS, FTS_DP} \<or> q \<in> U \<and> w_lstat w q = Inr sb)))"

definition put_spec_of :: "world \<Rightarrow> string set \<Rightarrow> put_spec" where
  "put_spec_of w U = (\<lambda>p sb. w_lstat w p = Inr sb, U)"

lemma upd_enq:
  assumes inv: "put_inv S st" and g: "keeps_links g"
    and stat: "\<And>f. fheap st a = Some f \<Longrightarrow> f_stat (g f) = f_stat f \<or> fst S (f_src f) (f_stat (g f))"
  shows "enq_ok S ex {} {} st (Inr (upd_file a g st))"
proof -
  have "stats_ok (fst S) (upd_file a g st)"
    using inv g stat by (intro upd_file_stats) (auto simp: put_inv_def side_ok_def)
  then show ?thesis
    using inv by (simp add: enq_ok_def upd_file_extends [OF g] upd_file_known [OF g] put_inv_def side_ok_def)
qed

lemma enqueue_parent_enq:
  assumes "put_inv S st"
  shows "enq_ok S (exclude_match c) (parent_of c path) (parent_of c path) st (enqueue_parent_directory c path st)"
  using enqueue_item_plain [OF assms] enq_ok_skip [OF assms]
  by (simp add: enqueue_parent_directory_def parent_of_def split: option.split prod.split)

lemma enqueue_dir_entry_enq:
  assumes inv: "put_inv S st"
    and e: "fst e \<in> {FTS_DNR, FTS_ERR, FTS_NS, FTS_DP} \<or> fst (snd e) \<in> snd S \<and> fst S (fst (snd e)) (snd (snd e))"
  shows "enq_ok S (exclude_match c) {} (snd S) st (enqueue_dir_entry c e st)"
proof -
  obtain i q sb where ep: "e = (i, q, sb)" by (cases e)
  show ?thesis
  proof (cases "i \<in> {FTS_DNR, FTS_ERR, FTS_NS, FTS_DP} \<or> is_path_added q st")
    case True
    then show ?thesis using enq_ok_skip [OF inv] by (auto simp: enqueue_dir_entry_def ep)
  next
    case False
    then have q: "q \<in> snd S" "fst S q sb" using e ep by auto
    have "enq_ok S (exclude_match c) {item_path q (- 1)} {item_path q (- 1)} st
      (bind_res (enqueue_item (exclude_match c) q (- 1) st)
         (\<lambda>(r, s). Inr (case r of None \<Rightarrow> s | Some a \<Rightarrow> upd_file a (\<lambda>f. f\<lparr>f_stat := sb\<rparr>) s)))"
      using q(2) by (intro enqueue_item_enq [OF inv]) (simp_all add: keeps_links_def)
    then have "enq_ok S (exclude_match c) {} (snd S) st
      (bind_res (enqueue_item (exclude_match c) q (- 1) st)
         (\<lambda>(r, s). Inr (case r of None \<Rightarrow> s | Some a \<Rightarrow> fill_stat a sb s)))"
      unfolding fill_stat_def by (rule enq_ok_weaken) (use q(1) in auto)
    then show ?thesis unfolding enqueue_dir_entry_def ep using False by simp
  qed
qed

lemma enqueue_directory_enq:
  assumes inv: "put_inv (put_spec_of w U) st" and U: "put_universe c w U" "path \<in> U"
  shows "enq_ok (put_spec_of w U) (exclude_match c) {} U st (enqueue_directory c w path st)"
proof (cases "w_fts w path")
  case (Some es)
  have entry: "fst e \<in> {FTS_DNR, FTS_ERR, FTS_NS, FTS_DP} \<or> fst (snd e) \<in> U \<and> w_lstat w (fst (snd e)) = Inr (snd (snd e))"
    if "e \<in> set es" for e
    using U Some that unfolding put_universe_def by fastforce
  have "enq_ok (put_spec_of w U) (exclude_match c) (\<Union>e \<in> set es. {}) (\<Union>e \<in> set es. U) st
      (fold_res (enqueue_dir_entry c) es st)"
  proof (rule enq_ok_fold)
    fix e st
    assume "e \<in> set es" "put_inv (put_spec_of w U) st"
    then show "enq_ok (put_spec_of w U) (exclude_match c) {} U st (enqueue_dir_entry c e st)"
      using enqueue_dir_entry_enq [of "put_spec_of w U" st e c] entry by (simp add: put_spec_of_def)
  qed (rule inv)
  then show ?thesis unfolding enqueue_directory_def Some option.case by (rule enq_ok_weaken) auto
qed (simp add: enqueue_directory_def enq_ok_Inl)

lemma canon_loop_benign: "snd (canon_loop w n dest s) = Inl e \<Longrightarrow> benign e"
proof (induction n dest s rule: canon_induct)
  case (turn n dest s)
  have 1: "first_comp s \<noteq> [] \<Longrightarrow> snd (canon_loop w n d (rest_comps s)) = Inl e \<Longrightarrow> benign e" for d
    using turn.IH [of n "rest_comps s"] rest_comps_shorter by simp
  have 2: "n + 1 \<le> MAXSYMLINKS \<Longrightarrow> snd (canon_loop w (n + 1) d s') = Inl e \<Longrightarrow> benign e" for d s'
    using turn.IH [of "n + 1"] by simp
  show ?case
    using turn.prems 1 2
    by (subst (asm) canon_loop.simps)
       (auto simp: Let_def snd_consed simp flip: first_comp_def rest_comps_def split: if_splits sum.splits)
qed

lemma canonicalize_benign: "snd (canonicalize w name) = Inl e \<Longrightarrow> benign e"
  by (auto simp: canonicalize_def split: if_splits option.splits prod.splits sum.splits)
     (metis canon_loop_benign snd_conv)+

lemma enqueue_canonicalized_enq:
  assumes inv: "put_inv S st"
  shows "enq_ok S ex (canon_needs w name) (canon_needs w name) st (enqueue_canonicalized_path ex w name b st)"
proof -
  obtain links res where can: "canonicalize w name = (links, res)" by force
  let ?enq = "\<lambda>l s. bind_res (enqueue_item ex l (- 1) s) (\<lambda>(_, s'). Inr s')"
  have "enq_ok S ex (\<Union>l \<in> set links. {l}) (\<Union>l \<in> set links. {l}) st (fold_res ?enq links st)"
  proof (rule enq_ok_fold)
    show "enq_ok S ex {l} {l} st (?enq l st)" if "put_inv S st" for l st
      using enqueue_item_plain [OF that, of ex l "- 1"] by simp
  qed (rule inv)
  then have links: "enq_ok S ex (set links) (set links) st (fold_res ?enq links st)" by simp
  show ?thesis
  proof (cases res)
    case (Inl e)
    then have "benign e" using canonicalize_benign [of w name e] can by simp
    then have "enq_ok S ex (set links \<union> {}) (set links \<union> {}) st (bind_res (fold_res ?enq links st) (\<lambda>_. Inl e))"
      by (intro enq_ok_seq [OF inv links]) (simp add: enq_ok_Inl)
    then show ?thesis by (simp add: enqueue_canonicalized_path_def canon_needs_def can Inl)
  next
    case (Inr r)
    let ?fin = "\<lambda>st1. bind_res (enqueue_item ex r (- 1) st1)
      (\<lambda>(f, st2). Inr (case f of None \<Rightarrow> st2 | Some a \<Rightarrow> upd_file a (\<lambda>g. g\<lparr>f_recursive := b\<rparr>) st2))"
    have "enq_ok S ex {r} {r} st1 (?fin st1)" if "put_inv S st1" for st1
      using enqueue_item_enq [OF that, of "\<lambda>g. g\<lparr>f_recursive := b\<rparr>" r "- 1" ex] by (simp add: keeps_links_def)
    then have "enq_ok S ex (set links \<union> {r}) (set links \<union> {r}) st (bind_res (fold_res ?enq links st) ?fin)"
      by (rule enq_ok_seq [OF inv links])
    then show ?thesis by (simp add: enqueue_canonicalized_path_def canon_needs_def can Inr)
  qed
qed

lemma ok_ret_then:
  "ok_ret (bind_res r (\<lambda>(ret, st). if ret = 0 then bind_res (g st) (\<lambda>s. Inr (0, s)) else Inr (ret, st))) = bind_res (ok_ret r) g"
proof (cases r)
  case (Inr p)
  then show ?thesis by (cases p; cases "g (snd p)") (auto simp: ok_ret_def)
qed (simp add: ok_ret_def)

lemma ok_ret_zero: "ok_ret (bind_res r (\<lambda>st1. bind_res (h st1) (\<lambda>st2. Inr (0, st2)))) = bind_res r h"
proof (cases r)
  case (Inr st)
  then show ?thesis by (cases "h st") (simp_all add: ok_ret_def)
qed (simp add: ok_ret_def)

lemma enqueue_libraries_enq:
  assumes inv: "put_inv S st" and U: "elf_universe w filename \<subseteq> snd S"
  shows "enq_ok S ex {} (snd S) st (ok_ret (enqueue_libraries ex w filename st))"
proof -
  have skip: "enq_ok S ex {} (snd S) st (Inr st)" using enq_ok_skip [OF inv] by simp
  have sub: "ldd_paths w filename \<subseteq> snd S" "dlopen_paths w \<subseteq> snd S" using U by (auto simp: elf_universe_def)
  show ?thesis
  proof (cases "w_elf w filename")
    case None
    then show ?thesis using skip by (simp add: enqueue_libraries_def ok_ret_def)
  next
    case (Some e)
    show ?thesis
    proof (cases "ev_kind_ok e \<and> ev_ident e \<noteq> None \<and> ev_dynamic e \<noteq> None")
      case False
      then show ?thesis using skip Some by (auto simp: enqueue_libraries_def ok_ret_def split: option.splits)
    next
      case True
      then obtain cl ma dyns where e: "ev_kind_ok e" "ev_ident e = Some (cl, ma)" "ev_dynamic e = Some dyns" by auto
      obtain rp needed where ds: "dyn_scan dyns = (rp, needed)" by force
      let ?can = "\<not> rp \<and> \<not> is_elf_cache_disabled w"
      let ?all = "?can \<and> list_all (\<lambda>n. elf_cache_lookup cl ma n st \<noteq> None) needed"
      let ?i = "elf_interp (ev_phdrs e)"
      let ?cached = "bind_res (fold_res (enqueue_if_new ex) (map (\<lambda>n. the (elf_cache_lookup cl ma n st)) needed) st)
        (\<lambda>st1. if ?i \<noteq> [] \<and> hd ?i = CHR ''/'' then enqueue_if_new ex ?i st1 else Inr st1)"
      let ?dl = "enqueue_elf_dlopen ex w filename e"
      have "enq_ok S ex {} (snd S) st ?cached" if all: ?all
      proof -
        let ?ps = "map (\<lambda>n. the (elf_cache_lookup cl ma n st)) needed"
        have ps: "set ?ps \<subseteq> snd S"
          using all elf_cache_lookup_side inv by (fastforce simp: list_all_iff put_inv_def)
        have "enq_ok S ex (\<Union>p \<in> set ?ps. {p}) (\<Union>p \<in> set ?ps. {p}) st (fold_res (enqueue_if_new ex) ?ps st)"
          using inv by (intro enq_ok_fold enqueue_if_new_enq)
        then have "enq_ok S ex {} (snd S) st (fold_res (enqueue_if_new ex) ?ps st)"
          by (rule enq_ok_weaken) (use ps in auto)
        moreover have "enq_ok S ex {} (snd S) st1 (if ?i \<noteq> [] \<and> hd ?i = CHR ''/'' then enqueue_if_new ex ?i st1 else Inr st1)"
          if "put_inv S st1" for st1
          using enq_ok_weaken [OF enqueue_if_new_enq [OF that], of "{}" ?i "snd S"] enq_ok_skip [OF that] U Some
          by (simp add: elf_universe_def)
        ultimately show ?thesis using enq_ok_seq [OF inv, of ex "{}" "snd S" _ "{}" "snd S"] by simp
      qed
      moreover have "enq_ok S ex {} (snd S) st (ok_ret (enqueue_shared_libraries ex w filename cl ma ?can st))"
        using enq_ok_weaken [OF enqueue_shared_libraries_enq [OF inv sub(1)]] sub(1) by simp
      moreover have "enq_ok S ex {} (snd S) st1 (?dl st1)" if "put_inv S st1" for st1
        using enq_ok_weaken [OF enqueue_elf_dlopen_enq [OF that]] sub(2) by simp
      ultimately have "enq_ok S ex {} (snd S) st (bind_res (if ?all then ?cached
          else ok_ret (enqueue_shared_libraries ex w filename cl ma ?can st)) ?dl)"
        using enq_ok_seq [OF inv, of ex "{}" "snd S" _ "{}" "snd S" ?dl] by simp
      moreover have "ok_ret (enqueue_libraries ex w filename st) = bind_res (if ?all then ?cached
          else ok_ret (enqueue_shared_libraries ex w filename cl ma ?can st)) ?dl"
        unfolding enqueue_libraries_def Some option.case e ds prod.case Let_def enqueue_cached_fold
        by (simp only: e(1) not_True_eq_False if_False ok_ret_then if_distrib [of ok_ret] ok_ret_zero)
      ultimately show ?thesis by simp
    qed
  qed
qed

text \<open>\<open>enqueue_libraries\<close> returns 0 or -1.\<close>

lemma enqueue_libraries_ret:
  assumes "enqueue_libraries ex w filename st = Inr (ret, st')"
  shows "ret = 0 \<or> ret < 0"
proof -
  have sh: "enqueue_shared_libraries ex w filename cl ma b st = Inr (r, s) \<Longrightarrow> r = 0 \<or> r = - 1" for cl ma b r s
    by (auto simp: enqueue_shared_libraries_def Let_def bind_res_Inr_iff split: option.splits if_splits)
  show ?thesis
    using assms sh
    by (fastforce simp: enqueue_libraries_def Let_def bind_res_Inr_iff split: option.splits if_splits prod.splits)
qed

lemma enqueue_regular_file_enq:
  assumes inv: "put_inv S st" and U: "elf_universe w path \<subseteq> snd S" "script_needs w path \<subseteq> snd S"
  shows "enq_ok S (exclude_match c) (script_needs w path) (snd S) st
    (bind_res (enqueue_regular_file c w path st)
       (\<lambda>(ret, st2). if ret < 0 then Inl (PutFailed ''failed to read regular file'') else Inr st2))"
proof (cases "w_read w path")
  case (Inl e)
  then show ?thesis using enq_ok_skip [OF inv] by (auto simp: enqueue_regular_file_def script_needs_def enq_ok_Inl)
next
  case (Inr d)
  show ?thesis
  proof (cases d)
    case None
    then show ?thesis using Inr by (simp add: enqueue_regular_file_def script_needs_def enq_ok_Inl)
  next
    case (Some bytes)
    let ?buf = "take (LINE_MAX - 1) bytes"
    let ?ex = "exclude_match c"
    let ?s = "if w_exec w path \<and> is_shebang ?buf then enqueue_shebang ?ex ?buf st else Inr st"
    let ?l = "\<lambda>st1. if is_elf_file ?buf then bind_res (enqueue_libraries ?ex w path st1)
       (\<lambda>(ret, st2). if ret < 0 then Inl (PutFailed ''failed to read regular file'') else Inr st2) else Inr st1"
    have n: "script_needs w path = (if w_exec w path \<and> is_shebang ?buf then {shebang_path ?buf} - {[]} else {})"
      unfolding script_needs_def Inr Some by (simp only: Let_def sum.case option.case)
    have "enq_ok S ?ex (script_needs w path) (script_needs w path) st ?s"
      using enqueue_shebang_enq [OF inv, of ?ex ?buf] enq_ok_skip [OF inv] unfolding n by (cases "w_exec w path \<and> is_shebang ?buf") auto
    moreover have "enq_ok S ?ex {} (snd S) st1 (?l st1)" if i: "put_inv S st1" for st1
    proof -
      have "enq_ok S ?ex {} (snd S) st1 (bind_res (enqueue_libraries ?ex w path st1)
         (\<lambda>(ret, st2). if ret < 0 then Inl (PutFailed ''failed to read regular file'') else Inr st2))"
        using enqueue_libraries_enq [OF i U(1), of ?ex] enqueue_libraries_ret [of ?ex w path st1]
        by (cases "enqueue_libraries ?ex w path st1") (auto simp: ok_ret_def enq_ok_Inl split: if_splits prod.splits)
      then show ?thesis using enq_ok_skip [OF i] by simp
    qed
    ultimately have "enq_ok S ?ex (script_needs w path \<union> {}) (script_needs w path \<union> snd S) st (bind_res ?s ?l)"
      by (rule enq_ok_seq [OF inv])
    moreover have "bind_res (enqueue_regular_file c w path st)
       (\<lambda>(ret, st2). if ret < 0 then Inl (PutFailed ''failed to read regular file'') else Inr st2) = bind_res ?s ?l"
      unfolding enqueue_regular_file_def Inr Some sum.case option.case Let_def bind_res_assoc
      by (rule arg_cong [of _ _ "bind_res ?s"]) (auto simp: fun_eq_iff)
    ultimately show ?thesis using U(2) by (simp add: Un_absorb1)
  qed
qed

lemma enqueue_kind_enq:
  assumes i: "put_inv (put_spec_of w U) st1" and U: "put_universe c w U" "p \<in> U"
  shows "enq_ok (put_spec_of w U) (exclude_match c)
    (if m = S_IFLNK then canon_needs w p else if m = S_IFREG then script_needs w p else {}) U st1
    (if m = S_IFDIR
     then (if rec then enqueue_directory c w p st1 else Inr st1)
     else if m = S_IFLNK
     then enqueue_canonicalized_path (exclude_match c) w p False
            (case w_readlink w p of
               Inr target \<Rightarrow> upd_file a (\<lambda>g. g\<lparr>f_symlink := Some (take PATH_MAX target)\<rparr>) st1
             | Inl _ \<Rightarrow> st1)
     else if m = S_IFREG
     then bind_res (enqueue_regular_file c w p st1)
            (\<lambda>(ret, st2). if ret < 0 then Inl (PutFailed ''failed to read regular file'') else Inr st2)
     else Inr st1)"
proof -
  let ?S = "put_spec_of w U" and ?ex = "exclude_match c"
  have S: "snd ?S = U" by (simp add: put_spec_of_def)
  have sub: "canon_needs w p \<subseteq> U" "script_needs w p \<subseteq> U" "elf_universe w p \<subseteq> U"
    using U by (simp_all add: put_universe_def)
  consider "m = S_IFDIR" | "m = S_IFLNK" | "m = S_IFREG" | "m \<noteq> S_IFDIR" "m \<noteq> S_IFLNK" "m \<noteq> S_IFREG" by blast
  then show ?thesis
  proof cases
    case 1
    then have "m \<noteq> S_IFLNK" "m \<noteq> S_IFREG" by (simp_all add: S_IFDIR_def S_IFLNK_def S_IFREG_def)
    then show ?thesis using 1 enqueue_directory_enq [OF i U] enq_ok_skip [OF i] by simp
  next
    case 2
    then have ne: "m \<noteq> S_IFDIR" by (simp add: S_IFDIR_def S_IFLNK_def)
    let ?st2 = "case w_readlink w p of
        Inr target \<Rightarrow> upd_file a (\<lambda>g. g\<lparr>f_symlink := Some (take PATH_MAX target)\<rparr>) st1 | Inl _ \<Rightarrow> st1"
    have "enq_ok ?S ?ex {} {} st1 (Inr ?st2)"
      using upd_enq [OF i] enq_ok_skip [OF i] by (auto simp: keeps_links_def split: sum.split)
    from enq_ok_seq [OF i this enqueue_canonicalized_enq]
    have "enq_ok ?S ?ex ({} \<union> canon_needs w p) ({} \<union> canon_needs w p) st1
        (bind_res (Inr ?st2) (enqueue_canonicalized_path ?ex w p False))" .
    then have "enq_ok ?S ?ex (canon_needs w p) U st1 (enqueue_canonicalized_path ?ex w p False ?st2)"
      using sub(1) by (auto elim: enq_ok_weaken)
    then show ?thesis using 2 ne by simp
  next
    case 3
    then have "m \<noteq> S_IFDIR" "m \<noteq> S_IFLNK" by (simp_all add: S_IFDIR_def S_IFLNK_def S_IFREG_def)
    then show ?thesis using 3 enqueue_regular_file_enq [OF i, of w p c] sub S by simp
  next
    case 4
    then show ?thesis using enq_ok_skip [OF i] by simp
  qed
qed

lemma enqueue_path_enq:
  assumes inv: "put_inv (put_spec_of w U) st" and a: "fheap st a = Some f" "f_src f \<in> known st"
    and U: "put_universe c w U" "f_src f \<in> U"
  shows "enq_ok (put_spec_of w U) (exclude_match c) (needs c w (f_src f)) U st (enqueue_path c w a st)"
proof -
  let ?S = "put_spec_of w U" and ?ex = "exclude_match c" and ?p = "f_src f"
  have S: "snd ?S = U" "fst ?S = (\<lambda>p sb. w_lstat w p = Inr sb)" by (simp_all add: put_spec_of_def)
  obtain xs where ok: "queue_ok st xs" using inv by (auto simp: put_inv_def)
  have added: "is_path_added ?p st" using a(2) is_path_added_iff [OF ok] ok by (simp add: known_def queue_ok_def)
  have sub: "parent_of c ?p \<subseteq> U" "canon_needs w ?p \<subseteq> U" "script_needs w ?p \<subseteq> U" "elf_universe w ?p \<subseteq> U"
    using U by (simp_all add: put_universe_def)
  show ?thesis
  proof (cases "st_ino (f_stat f) = 0 \<and> (\<exists>e. w_lstat w ?p = Inl e)")
    case True
    then show ?thesis using a added by (auto simp: enqueue_path_def enq_ok_Inl)
  next
    case False
    have "w_lstat w ?p = Inr (f_stat f)" if "st_ino (f_stat f) \<noteq> 0"
    proof -
      have "f_stat f \<noteq> stat0" using that by (auto simp: stat0_def)
      then show ?thesis using inv a(1) S by (auto simp: put_inv_def side_ok_def stats_ok_def)
    qed
    then obtain sb where sb: "w_lstat w ?p = Inr sb" "st_ino (f_stat f) \<noteq> 0 \<Longrightarrow> sb = f_stat f"
      using False by (cases "w_lstat w ?p") force+
    let ?st0 = "if st_ino (f_stat f) = 0 then fill_stat a sb st else st"
    let ?k = "\<lambda>st1. if st_mode sb AND S_IFMT = S_IFDIR
              then (if f_recursive f then enqueue_directory c w ?p st1 else Inr st1)
              else if st_mode sb AND S_IFMT = S_IFLNK
              then enqueue_canonicalized_path ?ex w ?p False
                     (case w_readlink w ?p of
                        Inr target \<Rightarrow> upd_file a (\<lambda>g. g\<lparr>f_symlink := Some (take PATH_MAX target)\<rparr>) st1
                      | Inl _ \<Rightarrow> st1)
              else if st_mode sb AND S_IFMT = S_IFREG
              then bind_res (enqueue_regular_file c w ?p st1)
                     (\<lambda>(ret, st2). if ret < 0 then Inl (PutFailed ''failed to read regular file'') else Inr st2)
              else Inr st1"
    let ?m = "if st_mode sb AND S_IFMT = S_IFLNK then canon_needs w ?p
          else if st_mode sb AND S_IFMT = S_IFREG then script_needs w ?p else {}"
    have eq: "enqueue_path c w a st = bind_res (Inr ?st0) (\<lambda>s. bind_res (enqueue_parent_directory c ?p s) ?k)"
    proof -
      have "(if st_ino (f_stat f) = 0 then (case w_lstat w ?p of Inl _ \<Rightarrow> Inl (PutFailed ''lstat'') | Inr sb \<Rightarrow> Inr sb)
          else Inr (f_stat f)) = Inr sb" using sb by auto
      then show ?thesis
        unfolding enqueue_path_def a(1) option.case using added by (simp only: not_True_eq_False if_False bind_res.simps)
    qed
    have s0: "enq_ok ?S ?ex {} {} st (Inr ?st0)"
      using upd_enq [OF inv, of "\<lambda>f. f\<lparr>f_stat := sb\<rparr>" a ?ex] enq_ok_skip [OF inv] a(1) sb(1) S
      by (auto simp: fill_stat_def keeps_links_def)
    have k: "enq_ok ?S ?ex ?m U st1 (?k st1)" if i: "put_inv ?S st1" for st1
      by (rule enqueue_kind_enq [OF i U])
    have "enq_ok ?S ?ex ({} \<union> (parent_of c ?p \<union> ?m)) ({} \<union> (parent_of c ?p \<union> U)) st
        (bind_res (Inr ?st0) (\<lambda>s. bind_res (enqueue_parent_directory c ?p s) ?k))"
      by (rule enq_ok_seq [OF inv s0], rule enq_ok_seq [OF _ enqueue_parent_enq k])
    then show ?thesis unfolding eq needs_def sb(1) using sub(1) by (simp add: Un_absorb1)
  qed
qed

section \<open>The invariant of the loop\<close>

definition tree_paths :: "put_state \<Rightarrow> string set" where
  "tree_paths st = src_of (fheap st) ` set (files st)"

text \<open>A path the destination has already, and a path that is taken care of.\<close>

definition in_dest :: "put_conf \<Rightarrow> world \<Rightarrow> string \<Rightarrow> bool" where
  "in_dest c w q \<longleftrightarrow> \<not> force c \<and>
     (case w_lstat w (destdir c @ dst_of c q) of Inl _ \<Rightarrow> False | Inr sb \<Rightarrow> st_mode sb AND S_IFMT \<noteq> S_IFDIR)"

definition served :: "put_conf \<Rightarrow> world \<Rightarrow> string set \<Rightarrow> string \<Rightarrow> bool" where
  "served c w K q \<longleftrightarrow> list_ex (\<lambda>m. m q) (exclude_match c) \<or> in_dest c w q \<or> q \<in> K"

definition loop_inv :: "put_conf \<Rightarrow> world \<Rightarrow> string set \<Rightarrow> string set \<Rightarrow> put_state \<Rightarrow> nat list \<Rightarrow> bool" where
  "loop_inv c w R U st xs \<longleftrightarrow> queue_ok st xs \<and> side_ok (put_spec_of w U) st \<and> known st \<subseteq> U \<and>
     set xs \<inter> set (files st) = {} \<and> (\<forall>q \<in> R. served c w (known st) q) \<and>
     (\<forall>p \<in> tree_paths st. \<forall>q \<in> needs c w p. served c w (known st) q)"

lemma known_queue: "queue_ok st xs \<Longrightarrow> known st = src_of (fheap st) ` set xs \<union> tree_paths st"
  by (simp add: known_def queue_ok_def tree_paths_def image_Un)

lemma dequeue_item_cache: "elf_cache (dequeue_item a st) = elf_cache st"
  by (simp add: dequeue_item_def Let_def split: option.split)

lemma dequeue_item_src:
  assumes "queue_ok st xs" "a \<in> set xs"
  shows "src_of (fheap (dequeue_item a st)) x = src_of (fheap st) x"
proof (cases "x \<in> dom (fheap st)")
  case True
  then show ?thesis using keeps_files_src [OF dequeue_item_ok(2) [OF assms]] by blast
next
  case False
  then have "fheap (dequeue_item a st) x = None" using dequeue_item_ok(4) [OF assms] by blast
  then show ?thesis using False by (simp add: src_of_def domIff)
qed

lemma dequeue_item_side:
  assumes "queue_ok st xs" "a \<in> set xs" "side_ok S st"
  shows "side_ok S (dequeue_item a st)"
proof -
  have "f_stat f' = stat0 \<or> fst S (f_src f') (f_stat f')" if f': "fheap (dequeue_item a st) x = Some f'" for x f'
  proof -
    have "x \<in> dom (fheap st)" using f' dequeue_item_ok(4) [OF assms(1,2)] by blast
    then obtain f where f: "fheap st x = Some f" by blast
    then have "f_src f' = f_src f \<and> f_stat f' = f_stat f"
      using dequeue_item_ok(2) [OF assms(1,2)] f' unfolding keeps_files_def by (metis option.inject)
    then show ?thesis using assms(3) f unfolding side_ok_def stats_ok_def by metis
  qed
  then show ?thesis using assms(3) by (simp add: side_ok_def stats_ok_def dequeue_item_cache)
qed

lemma free_file_side: "side_ok S st \<Longrightarrow> side_ok S (free_file a st)"
  by (simp add: side_ok_def stats_ok_def free_file_def)

text \<open>A file leaves the queue: the tree and the paths of the others stay.\<close>

lemma dequeue_known:
  assumes "queue_ok st xs" "a \<in> set xs"
  shows "known (dequeue_item a st) = src_of (fheap st) ` set (removeAll a xs) \<union> tree_paths st"
    and "tree_paths (dequeue_item a st) = tree_paths st"
proof -
  have src: "src_of (fheap (dequeue_item a st)) = src_of (fheap st)" using dequeue_item_src [OF assms] by blast
  show "tree_paths (dequeue_item a st) = tree_paths st"
    unfolding tree_paths_def src dequeue_item_ok(3) [OF assms] ..
  then show "known (dequeue_item a st) = src_of (fheap st) ` set (removeAll a xs) \<union> tree_paths st"
    unfolding known_queue [OF dequeue_item_ok(1) [OF assms]] src by simp
qed

lemma loop_inv_drop:
  assumes inv: "loop_inv c w R U st (ys @ a # zs)" and q: "fheap st a = Some f"
    and gone: "in_dest c w (f_src f) \<or> f_src f \<in> tree_paths st"
  shows "loop_inv c w R U (free_file a (dequeue_item a st)) (ys @ zs)"
    and "tree_paths (free_file a (dequeue_item a st)) = tree_paths st"
proof -
  let ?xs = "ys @ a # zs" and ?d = "dequeue_item a st"
  from inv have ok: "queue_ok st ?xs" and side: "side_ok (put_spec_of w U) st" and U: "known st \<subseteq> U"
    and dis: "set ?xs \<inter> set (files st) = {}" and clo: "\<forall>p \<in> tree_paths st. \<forall>q \<in> needs c w p. served c w (known st) q"
    and req: "\<forall>q \<in> R. served c w (known st) q"
    by (auto simp: loop_inv_def)
  have a: "a \<in> set ?xs" by simp
  have ds: "distinct ?xs" using ok by (simp add: queue_ok_def)
  then have rem: "removeAll a ?xs = ys @ zs" by simp
  note d = dequeue_item_ok [OF ok a, unfolded rem] and kn = dequeue_known [OF ok a, unfolded rem]
  have na: "a \<notin> set (ys @ zs)" "a \<notin> set (files ?d)" using ds dis d(3) by auto
  note fr = free_file_ok [OF d(1) na]
  have "tree_paths (free_file a ?d) = tree_paths ?d"
    unfolding tree_paths_def using na(2) by (intro image_cong) (auto simp: free_file_def src_of_def)
  then show tp: "tree_paths (free_file a ?d) = tree_paths st" unfolding kn(2) .
  have k0: "known st = insert (f_src f) (src_of (fheap st) ` set (ys @ zs) \<union> tree_paths st)"
    unfolding known_queue [OF ok] using q by auto
  have k: "known (free_file a ?d) = src_of (fheap st) ` set (ys @ zs) \<union> tree_paths st" unfolding fr(2) kn(1) ..
  have "served c w (known (free_file a ?d)) q" if "served c w (known st) q" for q
    using that gone unfolding served_def k k0 by auto
  then show "loop_inv c w R U (free_file a ?d) (ys @ zs)"
    unfolding loop_inv_def tp
    using fr(1) free_file_side [OF dequeue_item_side [OF ok a side]] U k k0 dis clo req d(3) by (auto simp: free_file_def)
qed

text \<open>A file goes into the tree, its needs are enqueued and it leaves the queue.\<close>

lemma loop_enqueue_path:
  assumes inv: "loop_inv c w R U st xs" and U: "put_universe c w U" and f: "fheap st a = Some f" "a \<in> set xs"
    and t: "set t = insert a (set (files st))" "queue_ok (st\<lparr>files := t, tree_files_nr := n\<rparr>) xs"
  shows "known (st\<lparr>files := t, tree_files_nr := n\<rparr>) = known st"
    and "enq_ok (put_spec_of w U) (exclude_match c) (needs c w (f_src f)) U (st\<lparr>files := t, tree_files_nr := n\<rparr>)
           (enqueue_path c w a (st\<lparr>files := t, tree_files_nr := n\<rparr>))"
proof -
  let ?st1 = "st\<lparr>files := t, tree_files_nr := n\<rparr>" and ?S = "put_spec_of w U"
  from inv have ok: "queue_ok st xs" and side: "side_ok ?S st" and KU: "known st \<subseteq> U" by (auto simp: loop_inv_def)
  have tp1: "tree_paths ?st1 = insert (f_src f) (tree_paths st)" using t(1) f by (simp add: tree_paths_def)
  have fk: "f_src f \<in> src_of (fheap st) ` set xs" using f by force
  then show k1: "known ?st1 = known st" using known_queue [OF t(2)] known_queue [OF ok] tp1 by auto
  have inv1: "put_inv ?S ?st1" using side t(2) unfolding put_inv_def side_ok_def stats_ok_def by auto
  have "f_src f \<in> known st" using fk known_queue [OF ok] by auto
  then show "enq_ok ?S (exclude_match c) (needs c w (f_src f)) U ?st1 (enqueue_path c w a ?st1)"
    using KU f k1 by (intro enqueue_path_enq [OF inv1 _ _ U]) auto
qed

lemma loop_inv_insert:
  assumes inv: "loop_inv c w R U st (ys @ a # zs)" and U: "put_universe c w U" and f: "fheap st a = Some f"
    and t: "set t = insert a (set (files st))" "queue_ok (st\<lparr>files := t, tree_files_nr := n\<rparr>) (ys @ a # zs)"
    and ep: "enqueue_path c w a (st\<lparr>files := t, tree_files_nr := n\<rparr>) = Inr st2"
  shows "\<exists>ns. loop_inv c w R U (dequeue_item a st2) (ns @ ys @ zs)"
    and "tree_paths (dequeue_item a st2) = insert (f_src f) (tree_paths st)"
proof -
  let ?xs = "ys @ a # zs" and ?st1 = "st\<lparr>files := t, tree_files_nr := n\<rparr>" and ?S = "put_spec_of w U"
  from inv have ok: "queue_ok st ?xs" and side: "side_ok ?S st" and KU: "known st \<subseteq> U"
    and dis: "set ?xs \<inter> set (files st) = {}" and clo: "\<forall>p \<in> tree_paths st. \<forall>q \<in> needs c w p. served c w (known st) q"
    and req: "\<forall>q \<in> R. served c w (known st) q"
    by (auto simp: loop_inv_def)
  have "a \<in> set ?xs" by simp
  note enq = loop_enqueue_path [OF inv U f this t]
  have k1: "known ?st1 = known st" by (rule enq(1))
  from enq(2) have e: "extends ?st1 st2" "side_ok ?S st2" "known ?st1 \<subseteq> known st2" "known st2 \<subseteq> known ?st1 \<union> U"
    "\<forall>q \<in> needs c w (f_src f). list_ex (\<lambda>m. m q) (exclude_match c) \<or> q \<in> known st2"
    unfolding ep enq_ok_def by simp_all
  obtain ns where ns: "queue_ok st2 (ns @ ?xs)" "set ns \<inter> dom (fheap st) = {}"
    using e(1) t(2) unfolding extends_def by auto
  have files2: "files st2 = t" using e(1) by (simp add: extends_def)
  have src2: "src_of (fheap st2) x = src_of (fheap st) x" if "x \<in> dom (fheap st)" for x
  proof -
    obtain g where g: "fheap st x = Some g" using \<open>x \<in> dom (fheap st)\<close> by blast
    then obtain g' where "fheap st2 x = Some g'" "f_src g' = f_src g" using e(1) unfolding extends_def by fastforce
    then show ?thesis using g by simp
  qed
  have tdom: "set t \<subseteq> dom (fheap st)" using t(2) by (simp add: queue_ok_def)
  have "src_of (fheap st2) ` set t = src_of (fheap st) ` set t" using src2 tdom by (intro image_cong refl) blast
  then have tp2: "tree_paths st2 = insert (f_src f) (tree_paths st)"
    using t(1) f by (simp add: tree_paths_def files2)
  have a: "a \<in> set (ns @ ?xs)" by simp
  have ds: "distinct (ns @ ?xs)" using ns(1) by (simp add: queue_ok_def)
  then have rem: "removeAll a (ns @ ?xs) = ns @ ys @ zs" by simp
  note d = dequeue_item_ok [OF ns(1) a, unfolded rem] and kn = dequeue_known [OF ns(1) a, unfolded rem]
  show tp3: "tree_paths (dequeue_item a st2) = insert (f_src f) (tree_paths st)" unfolding kn(2) tp2 ..
  have k3: "known (dequeue_item a st2) = known st2"
    unfolding kn(1) known_queue [OF ns(1)] using tp2 src2 [of a] f by auto
  have "set (ns @ ys @ zs) \<inter> set t = {}" using ns(2) tdom dis ds t(1) by auto
  moreover have "served c w (known st2) q" if "p \<in> insert (f_src f) (tree_paths st)" "q \<in> needs c w p" for p q
    using that clo e(3,5) k1 unfolding served_def by blast
  moreover have "served c w (known st2) q" if "q \<in> R" for q
    using that req e(3) k1 unfolding served_def by blast
  ultimately have "loop_inv c w R U (dequeue_item a st2) (ns @ ys @ zs)"
    unfolding loop_inv_def tp3 k3
    using d(1,3) files2 dequeue_item_side [OF ns(1) a e(2)] e(4) k1 KU by auto
  then show "\<exists>ns. loop_inv c w R U (dequeue_item a st2) (ns @ ys @ zs)" ..
qed

lemma loop_inv_upd:
  assumes "loop_inv c w R U st xs" "keeps_links g" "\<And>f. f_stat (g f) = f_stat f"
  shows "loop_inv c w R U (upd_file a g st) xs" and "tree_paths (upd_file a g st) = tree_paths st"
proof -
  show tp: "tree_paths (upd_file a g st) = tree_paths st" by (simp add: tree_paths_def upd_file_src [OF assms(2)])
  have "stats_ok (fst (put_spec_of w U)) (upd_file a g st)"
    using assms by (intro upd_file_stats) (auto simp: loop_inv_def side_ok_def)
  then show "loop_inv c w R U (upd_file a g st) xs"
    using assms(1) upd_file_queue_ok [OF assms(2)] upd_file_known [OF assms(2)]
    unfolding loop_inv_def tp by (simp add: side_ok_def)
qed

section \<open>The loop ends and serves every need\<close>

definition turn_ok :: "put_conf \<Rightarrow> world \<Rightarrow> string set \<Rightarrow> string set \<Rightarrow> put_state \<Rightarrow> nat list \<Rightarrow> put_error + put_state \<Rightarrow> bool" where
  "turn_ok c w R U st xs r \<longleftrightarrow>
     (case r of
        Inl e \<Rightarrow> benign e
      | Inr st' \<Rightarrow> \<exists>ns. loop_inv c w R U st' (ns @ xs) \<and> tree_paths st \<subseteq> tree_paths st' \<and>
          (tree_paths st' \<subseteq> tree_paths st \<longrightarrow> ns = []))"

lemma turn_ok_insert:
  assumes inv: "loop_inv c w R U st (ys @ a # zs)" and U: "put_universe c w U" and f: "fheap st a = Some f"
  shows "turn_ok c w R U st (ys @ zs)
    (case tree_add_file a st of
       (True, st1) \<Rightarrow> bind_res (enqueue_path c w a st1) (\<lambda>st2. Inr (dequeue_item a st2))
     | (False, st1) \<Rightarrow> Inr (free_file a (dequeue_item a st1)))"
proof -
  from inv have ok: "queue_ok st (ys @ a # zs)" and na: "a \<notin> set (files st)" by (auto simp: loop_inv_def)
  show ?thesis
  proof (rule tree_add_file_ok [OF ok f na])
    assume add: "tree_add_file a st = (False, st)" and old: "f_src f \<in> src_of (fheap st) ` set (files st)"
    then have "f_src f \<in> tree_paths st" by (simp add: tree_paths_def)
    then have "loop_inv c w R U (free_file a (dequeue_item a st)) ([] @ ys @ zs)" "tree_paths (free_file a (dequeue_item a st)) = tree_paths st"
      using loop_inv_drop [OF inv f] by auto
    then show ?thesis unfolding turn_ok_def add by auto
  next
    fix t
    let ?st1 = "st\<lparr>files := t, tree_files_nr := tree_files_nr st + 1\<rparr>"
    assume add: "tree_add_file a st = (True, ?st1)" and new: "f_src f \<notin> src_of (fheap st) ` set (files st)"
      and t: "set t = insert a (set (files st))" "queue_ok ?st1 (ys @ a # zs)"
    have "a \<in> set (ys @ a # zs)" by simp
    note enq = loop_enqueue_path(2) [OF inv U f this t]
    show ?thesis
    proof (cases "enqueue_path c w a ?st1")
      case (Inl e)
      then show ?thesis using enq unfolding turn_ok_def add by (simp add: enq_ok_def)
    next
      case (Inr st2)
      obtain ns where "loop_inv c w R U (dequeue_item a st2) (ns @ ys @ zs)"
        using loop_inv_insert(1) [OF inv U f t Inr] by blast
      moreover have "tree_paths (dequeue_item a st2) = insert (f_src f) (tree_paths st)"
        by (rule loop_inv_insert(2) [OF inv U f t Inr])
      moreover have "f_src f \<notin> tree_paths st" using new by (simp add: tree_paths_def)
      ultimately show ?thesis unfolding turn_ok_def add using Inr by auto
    qed
  qed
qed

lemma put_turn_ok:
  assumes inv: "loop_inv c w R U st (ys @ a # zs)" and U: "put_universe c w U"
  shows "turn_ok c w R U st (ys @ zs) (put_turn c w a st)"
proof -
  from inv have ok: "queue_ok st (ys @ a # zs)" by (simp add: loop_inv_def)
  obtain f where f: "fheap st a = Some f" using queue_ok_dom [OF ok] by auto
  let ?g = "\<lambda>g. g\<lparr>f_dst := Some (dst_of c (f_src f))\<rparr>"
  let ?st = "upd_file a ?g st"
  have g: "keeps_links ?g" by (simp add: keeps_links_def)
  have up: "loop_inv c w R U ?st (ys @ a # zs)" "tree_paths ?st = tree_paths st"
    using loop_inv_upd [OF inv g, of a] by simp_all
  have f': "fheap ?st a = Some (?g f)" "f_src (?g f) = f_src f" using f by simp_all
  have ins: "turn_ok c w R U st (ys @ zs) (case tree_add_file a ?st of
       (True, st1) \<Rightarrow> bind_res (enqueue_path c w a st1) (\<lambda>st2. Inr (dequeue_item a st2))
     | (False, st1) \<Rightarrow> Inr (free_file a (dequeue_item a st1)))"
    using turn_ok_insert [OF up(1) U f'(1)] unfolding turn_ok_def up(2) .
  have drop: "turn_ok c w R U st (ys @ zs) (Inr (free_file a (dequeue_item a ?st)))" if "in_dest c w (f_src f)"
    using loop_inv_drop [OF up(1) f'(1)] that f'(2) unfolding turn_ok_def up(2) by auto
  have err: "turn_ok c w R U st (ys @ zs) (Inl (PutFailed m))" for m by (simp add: turn_ok_def)
  have dest: "\<not> force c \<Longrightarrow> w_lstat w (destdir c @ dst_of c (f_src f)) = Inr sb \<Longrightarrow> st_mode sb AND S_IFMT \<noteq> S_IFDIR \<Longrightarrow>
      in_dest c w (f_src f)" for sb by (simp add: in_dest_def)
  show ?thesis
    unfolding put_turn_def f option.case Let_def using ins drop err dest by (simp split: sum.split)
qed

lemma put_inner_ok:
  assumes "put_universe c w U"
  shows "loop_inv c w R U st (ys @ zs) \<Longrightarrow>
    \<exists>r. put_inner c w (case zs of [] \<Rightarrow> None | z # _ \<Rightarrow> Some z) st = Some r \<and> turn_ok c w R U st ys r"
proof (induction zs arbitrary: ys st)
  case Nil
  then show ?case by (simp add: put_inner.simps turn_ok_def exI [of _ "[]"])
next
  case (Cons a zs)
  from Cons.prems have ok: "queue_ok st (ys @ a # zs)" by (simp add: loop_inv_def)
  obtain f where f: "fheap st a = Some f" using queue_ok_dom [OF ok] by auto
  have "f_next f = (if zs = [] then None else Some (hd zs))"
    using ok f dlinked_split(2) by (fastforce simp: queue_ok_def)
  then have nxt: "f_next f = (case zs of [] \<Rightarrow> None | z # _ \<Rightarrow> Some z)" by (cases zs) simp_all
  note turn = put_turn_ok [OF Cons.prems assms]
  show ?case
  proof (cases "put_turn c w a st")
    case (Inl e)
    then show ?thesis using turn f by (simp add: put_inner.simps turn_ok_def)
  next
    case (Inr st')
    then obtain ns where ns: "loop_inv c w R U st' (ns @ ys @ zs)" "tree_paths st \<subseteq> tree_paths st'"
      "tree_paths st' \<subseteq> tree_paths st \<longrightarrow> ns = []" using turn by (auto simp: turn_ok_def)
    obtain r where r: "put_inner c w (f_next f) st' = Some r" "turn_ok c w R U st' (ns @ ys) r"
      using Cons.IH [of st' "ns @ ys"] ns(1) nxt by auto
    have "put_inner c w (Some a) st = Some r" using f Inr r(1) by (simp add: put_inner.simps)
    moreover have "turn_ok c w R U st ys r"
    proof (cases r)
      case (Inr st2)
      then obtain ms where ms: "loop_inv c w R U st2 (ms @ ns @ ys)" "tree_paths st' \<subseteq> tree_paths st2"
        "tree_paths st2 \<subseteq> tree_paths st' \<longrightarrow> ms = []" using r(2) by (auto simp: turn_ok_def)
      then have "loop_inv c w R U st2 ((ms @ ns) @ ys)" "tree_paths st2 \<subseteq> tree_paths st \<longrightarrow> ms @ ns = []"
        using ns(2,3) by auto
      then show ?thesis unfolding turn_ok_def Inr sum.case using ns(2) ms(2) by blast
    qed (use r(2) in \<open>simp add: turn_ok_def\<close>)
    ultimately show ?thesis by simp
  qed
qed

lemma put_outer_ok:
  assumes U: "put_universe c w U"
  shows "loop_inv c w R U st xs \<Longrightarrow>
    \<exists>r. put_outer c w st = Some r \<and> (case r of Inl e \<Rightarrow> benign e | Inr st' \<Rightarrow> loop_inv c w R U st' [])"
proof (induction "card (U - tree_paths st)" arbitrary: st xs rule: less_induct)
  case less
  then have ok: "queue_ok st xs" and KU: "known st \<subseteq> U" by (auto simp: loop_inv_def)
  have q: "inqueue st = (case xs of [] \<Rightarrow> None | x # _ \<Rightarrow> Some x)"
    using ok dlinked_head by (auto simp: queue_ok_def)
  show ?case
  proof (cases xs)
    case Nil
    then show ?thesis using q less.prems by (simp add: put_outer.simps)
  next
    case (Cons x xs')
    then have ne: "inqueue st \<noteq> None" using q by simp
    obtain r where r: "put_inner c w (inqueue st) st = Some r" "turn_ok c w R U st [] r"
      using put_inner_ok [OF U, of R st "[]" xs] less.prems q by auto
    show ?thesis
    proof (cases r)
      case (Inl e)
      then show ?thesis using r ne by (auto simp: put_outer.simps turn_ok_def)
    next
      case (Inr st')
      then obtain ns where ns: "loop_inv c w R U st' ns" "tree_paths st \<subseteq> tree_paths st'"
        "tree_paths st' \<subseteq> tree_paths st \<longrightarrow> ns = []" using r(2) by (auto simp: turn_ok_def)
      have eq: "put_outer c w st = put_outer c w st'" using r(1) ne Inr by (subst put_outer.simps) auto
      show ?thesis
      proof (cases "ns = []")
        case True
        then have "queue_ok st' []" using ns(1) by (simp add: loop_inv_def)
        then have "inqueue st' = None" by (simp add: queue_ok_def)
        then show ?thesis using eq ns(1) True by (simp add: put_outer.simps)
      next
        case False
        have "tree_paths st' \<subseteq> U" using ns(1) by (auto simp: loop_inv_def known_def tree_paths_def)
        then have "U - tree_paths st' \<subset> U - tree_paths st" using False ns(2,3) by blast
        then have "card (U - tree_paths st') < card (U - tree_paths st)"
          using U by (intro psubset_card_mono) (auto simp: put_universe_def)
        from less.hyps [OF this ns(1)] show ?thesis unfolding eq .
      qed
    qed
  qed
qed

lemma put_args_ok:
  assumes "\<Union>(canon_needs w ` set args) \<subseteq> U"
  shows "enq_ok (put_spec_of w U) (exclude_match c) (\<Union>(canon_needs w ` set args)) (\<Union>(canon_needs w ` set args)) put_init
    (fold_res (\<lambda>name. enqueue_canonicalized_path (exclude_match c) w name True) args put_init)"
proof (rule enq_ok_fold)
  show "put_inv (put_spec_of w U) put_init"
    using put_init_ok by (auto simp: put_inv_def side_ok_def stats_ok_def put_init_def)
qed (rule enqueue_canonicalized_enq)

lemma put_collect_cases:
  assumes U: "put_universe c w U" and args: "\<Union>(canon_needs w ` set args) \<subseteq> U"
  shows "\<exists>r. put_collect c w args = Some r \<and>
    (case r of Inl e \<Rightarrow> benign e | Inr st \<Rightarrow> loop_inv c w (\<Union>(canon_needs w ` set args)) U st [])"
proof (cases "fold_res (\<lambda>name. enqueue_canonicalized_path (exclude_match c) w name True) args put_init")
  case (Inl e)
  then show ?thesis using put_args_ok [OF args, of c] by (simp add: put_collect_def enq_ok_def)
next
  case (Inr st)
  let ?R = "\<Union>(canon_needs w ` set args)"
  have e: "extends put_init st" "side_ok (put_spec_of w U) st" "known st \<subseteq> known put_init \<union> ?R"
    "\<forall>q \<in> ?R. list_ex (\<lambda>m. m q) (exclude_match c) \<or> q \<in> known st"
    using put_args_ok [OF args, of c] unfolding Inr enq_ok_def by simp_all
  obtain xs where xs: "queue_ok st xs" using e(1) put_init_ok unfolding extends_def by blast
  have "files st = []" using e(1) by (simp add: extends_def put_init_def)
  moreover have "known put_init = {}" by (simp add: known_def put_init_def)
  ultimately have "loop_inv c w ?R U st xs"
    using xs e args unfolding loop_inv_def by (auto simp: tree_paths_def served_def)
  from put_outer_ok [OF U this] show ?thesis by (simp add: put_collect_def Inr)
qed

text \<open>
  C4: When the paths the program may meet are finitely many, the loop over the queue ends. It never uses a file that was
  freed and never finds the queue broken. When it ends without an error the queue is empty, and every file that an argument
  leads to, every directory of a file of the tree, every target of a symlink of the tree on its way and at its end, and
  every interpreter of a script of the tree is itself in the tree, or excluded, or in the destination already.
\<close>
theorem put_collect_serves:
  assumes "put_universe c w U" and "\<Union>(canon_needs w ` set args) \<subseteq> U"
  shows "\<exists>r. put_collect c w args = Some r \<and>
    (case r of
       Inl e \<Rightarrow> e \<noteq> BadQueueHead \<and> e \<noteq> UseAfterFree
     | Inr st \<Rightarrow> inqueue st = None \<and> queued_files st = [] \<and> tree_files_nr st = length (files st) \<and>
         (\<forall>name \<in> set args. \<forall>q \<in> canon_needs w name. served c w (tree_paths st) q) \<and>
         (\<forall>p \<in> tree_paths st. \<forall>q \<in> needs c w p. served c w (tree_paths st) q))"
proof -
  obtain r where r: "put_collect c w args = Some r"
    "case r of Inl e \<Rightarrow> benign e | Inr st \<Rightarrow> loop_inv c w (\<Union>(canon_needs w ` set args)) U st []"
    using put_collect_cases [OF assms] by blast
  show ?thesis
  proof (cases r)
    case (Inl e)
    then show ?thesis using r by (simp add: benign_def)
  next
    case (Inr st)
    then have inv: "loop_inv c w (\<Union>(canon_needs w ` set args)) U st []" using r(2) by simp
    then have ok: "queue_ok st []" by (simp add: loop_inv_def)
    then have k: "known st = tree_paths st" using known_queue by simp
    then show ?thesis using inv ok r(1) Inr unfolding loop_inv_def by (auto simp: queue_ok_def)
  qed
qed

text \<open>A script \<open>/sh\<close> that is its own interpreter.\<close>

definition tiny_world :: world where
  "tiny_world = sample_world\<lparr>w_readlink := (\<lambda>p. Inl EINVAL), w_lstat := (\<lambda>p. if p = ''/sh'' then Inr reg_stat else Inl ENOENT),
     w_read := (\<lambda>p. Inr (Some ''#! /sh -e'')), w_exec := (\<lambda>p. True)\<rparr>"

definition tiny_conf :: put_conf where
  "tiny_conf = \<lparr>exclude_match = [], prefix = None, destdir = ''/dest'', force = False\<rparr>"

lemma tiny_canonicalize: "canonicalize tiny_world ''/sh'' = ([], Inr ''/sh'')"
proof -
  have "canon_loop tiny_world 0 ''/'' ''/sh'' = canon_loop tiny_world 0 ''/sh'' []"
    by (subst canon_loop.simps) (simp add: tiny_world_def Let_def IS_DIR_SEPARATOR_def drop_last_def rname_size_def
        PATH_MAX_def dir_suffix_def suffix_requires_dir_check.simps)
  also have "\<dots> = ([], Inr ''/sh'')" by (subst canon_loop.simps) simp
  finally show ?thesis by (simp add: canonicalize_def IS_DIR_SEPARATOR_def)
qed

lemma tiny_universe: "put_universe tiny_conf tiny_world {''/sh''}"
proof -
  have "script_needs tiny_world ''/sh'' = {''/sh''}"
    by (simp add: script_needs_def tiny_world_def is_shebang_def shebang_path_def isspace_def LINE_MAX_def Let_def)
  moreover have "elf_universe tiny_world ''/sh'' = {}"
    by (simp add: elf_universe_def ldd_paths_def dlopen_paths_def tiny_world_def sample_world_def)
  moreover have "parent_of tiny_conf ''/sh'' = {}" by (simp add: parent_of_def tiny_conf_def)
  moreover have "w_fts tiny_world ''/sh'' = None" by (simp add: tiny_world_def sample_world_def)
  ultimately show ?thesis by (simp add: put_universe_def canon_needs_def tiny_canonicalize)
qed

theorem put_collect_serves_witness:
  "\<exists>r. put_collect tiny_conf tiny_world [''/sh''] = Some r \<and>
    (case r of
       Inl e \<Rightarrow> e \<noteq> BadQueueHead \<and> e \<noteq> UseAfterFree
     | Inr st \<Rightarrow> inqueue st = None \<and> queued_files st = [] \<and> tree_files_nr st = length (files st) \<and>
         (\<forall>name \<in> set [''/sh'']. \<forall>q \<in> canon_needs tiny_world name. served tiny_conf tiny_world (tree_paths st) q) \<and>
         (\<forall>p \<in> tree_paths st. \<forall>q \<in> needs tiny_conf tiny_world p. served tiny_conf tiny_world (tree_paths st) q))"
  using put_collect_serves [OF tiny_universe, of "[''/sh'']"] by (simp add: canon_needs_def tiny_canonicalize)

text \<open>
  C33: When a path is canonicalised for a symlink and the result is still queued, the queued file loses its
  flag for recursion, also when it was given as an argument and would have been copied with everything below it.
\<close>
theorem followed_link_clears_recursive:
  assumes "queue_ok st xs" and "a \<in> set xs" and "src_of (fheap st) a = r" and "\<not> list_ex (\<lambda>m. m r) ex"
    and "canonicalize w name = (links, Inr r)" and "enqueue_canonicalized_path ex w name False st = Inr st'"
  shows "\<exists>f. fheap st' a = Some f \<and> f_src f = r \<and> \<not> f_recursive f"
proof -
  let ?enq = "\<lambda>l s. bind_res (enqueue_item ex l (- 1) s) (\<lambda>(_, s'). Inr s')"
  let ?S = "(\<lambda>_ _. True, UNIV) :: put_spec"
  obtain st1 where st1: "fold_res ?enq links st = Inr st1" using assms(5,6)
    by (cases "fold_res ?enq links st") (simp_all add: enqueue_canonicalized_path_def)
  have "put_inv ?S st" using assms(1) by (auto simp: put_inv_def side_ok_def stats_ok_def)
  then have "enq_ok ?S ex (\<Union>l \<in> set links. {item_path l (- 1)}) (\<Union>l \<in> set links. {item_path l (- 1)}) st (fold_res ?enq links st)"
    by (intro enq_ok_fold enqueue_item_plain)
  then have ext: "extends st st1" unfolding st1 enq_ok_def by simp
  then obtain ns where ns: "queue_ok st1 (ns @ xs)" using assms(1) unfolding extends_def by blast
  obtain f0 where f0: "fheap st a = Some f0" using queue_ok_dom [OF assms(1)] assms(2) by blast
  then obtain f where f: "fheap st1 a = Some f" "f_src f = r" using ext assms(3) unfolding extends_def by fastforce
  have a: "a \<in> set (ns @ xs)" using assms(2) by simp
  have "r \<in> src_of (fheap st1) ` set (ns @ xs)" using a f by force
  then obtain b where b: "enqueue_item ex r (- 1) st1 = Inr (Some b, st1)" "b \<in> set (ns @ xs)" "src_of (fheap st1) b = r"
    using enqueue_item_ok [OF ns, of ex r "- 1"] assms(4) by auto
  have "b = a" using queue_find_Some [OF ns, of r a] queue_find_Some [OF ns, of r b] a b f by auto
  then have "st' = upd_file a (\<lambda>g. g\<lparr>f_recursive := False\<rparr>) st1"
    using assms(5,6) st1 b(1) by (simp add: enqueue_canonicalized_path_def)
  then show ?thesis using f by simp
qed

definition sh_queued :: put_state where
  "sh_queued = upd_file 0 (\<lambda>f. f\<lparr>f_recursive := True\<rparr>) (snd (projr (enqueue_item [] ''/sh'' (- 1) put_init)))"

lemma sh_queued_ok: "queue_ok sh_queued [0]" "src_of (fheap sh_queued) 0 = ''/sh''"
proof -
  have eq: "sh_queued = put_init\<lparr>fheap := [0 \<mapsto> (file0 ''/sh'')\<lparr>f_recursive := True\<rparr>], brk := 1, queued_files := [0], inqueue := Some 0, queue_nr := 1\<rparr>"
    by (simp add: sh_queued_def enqueue_item_def put_init_def queue_find_def is_path_added_def is_path_queued_def Let_def
        upd_file_def)
  show "queue_ok sh_queued [0]" unfolding eq by (simp add: queue_ok_def put_init_def tree_sorted_def file0_def)
  show "src_of (fheap sh_queued) 0 = ''/sh''" unfolding eq by (simp add: file0_def)
qed

theorem followed_link_clears_recursive_witness:
  "\<exists>st' f. enqueue_canonicalized_path [] tiny_world ''/sh'' False sh_queued = Inr st' \<and>
     fheap st' 0 = Some f \<and> f_src f = ''/sh'' \<and> \<not> f_recursive f"
proof -
  obtain r s0 where "enqueue_item [] ''/sh'' (- 1) sh_queued = Inr (r, s0)"
    using enqueue_item_ok [OF sh_queued_ok(1), of "[]" "''/sh''" "- 1"] by blast
  then obtain st' where "enqueue_canonicalized_path [] tiny_world ''/sh'' False sh_queued = Inr st'"
    by (simp add: enqueue_canonicalized_path_def tiny_canonicalize)
  moreover from followed_link_clears_recursive [OF sh_queued_ok(1) _ sh_queued_ok(2) _ tiny_canonicalize this]
  have "\<exists>f. fheap st' 0 = Some f \<and> f_src f = ''/sh'' \<and> \<not> f_recursive f" by simp
  ultimately show ?thesis by blast
qed

end
