(* ===== verification/PutCopy.thy ===== *)
theory PutCopy
  imports PutMain
begin

text \<open>
  Copying the bytes of a regular file in \<open>initrd-put\<close> (the end of \<open>install_file\<close> in \<open>utils/initrd-put/initrd-put.c\<close>):
  \<open>copy_file_range\<close>, then \<open>sendfile\<close>, then reading and writing, each of the first two given up when the kernel does not
  support it. What the kernel answers to the \<open>i\<close>-th call is a parameter: an error, or how many bytes it is willing
  to move; it moves no more than asked for and no more than the source has.
\<close>

section \<open>The copy loops\<close>

type_synonym kernel = "nat \<Rightarrow> errno + nat"

datatype copied = CopyDone string | CopyFallback string | CopyFail

text \<open>Bytes written at an offset of the destination.\<close>

definition write_at :: "string \<Rightarrow> nat \<Rightarrow> string \<Rightarrow> string" where
  "write_at dst off bs = take off dst @ bs @ drop (off + length bs) dst"

text \<open>The loops of \<open>copy_file_range\<close> and of \<open>sendfile\<close>: \<open>len\<close> bytes are still to be moved.\<close>

function transfer_loop :: "errno set \<Rightarrow> kernel \<Rightarrow> nat \<Rightarrow> string \<Rightarrow> nat \<Rightarrow> nat \<Rightarrow> string \<Rightarrow> copied" where
  "transfer_loop unsupported k i src off len dst =
     (case k i of
        Inl e \<Rightarrow> if e \<in> unsupported then CopyFallback dst else CopyFail
      | Inr n \<Rightarrow>
          let ret = min n (min len (length src - off));
              dst' = write_at dst off (take ret (drop off src))
          in if len - ret > 0 \<and> ret > 0 then transfer_loop unsupported k (i + 1) src (off + ret) (len - ret) dst'
             else CopyDone dst')"
  by pat_completeness auto
termination by (relation "measure (\<lambda>(u, k, i, src, off, len, dst). len)") auto

declare transfer_loop.simps [simp del]

definition copy_range :: "kernel \<Rightarrow> string \<Rightarrow> nat \<Rightarrow> string \<Rightarrow> copied" where
  "copy_range k src len dst = transfer_loop {EXDEV, ENOSYS, EOPNOTSUPP, EINVAL} k 0 src 0 len dst"

definition send_file :: "kernel \<Rightarrow> string \<Rightarrow> nat \<Rightarrow> string \<Rightarrow> copied" where
  "send_file k src len dst = transfer_loop {EINVAL, ENOSYS, EOPNOTSUPP} k 0 src 0 len dst"

definition BUFSIZ :: nat where "BUFSIZ = 8192"

text \<open>The inner loop that writes a buffer; a write of no bytes is an error.\<close>

function write_loop :: "kernel \<Rightarrow> nat \<Rightarrow> string \<Rightarrow> nat \<Rightarrow> string \<Rightarrow> (nat \<times> string) option" where
  "write_loop k i buf off dst =
     (if buf = [] then Some (i, dst)
      else case k i of
             Inl _ \<Rightarrow> None
           | Inr n \<Rightarrow>
               let w = min n (length buf)
               in if w = 0 then None else write_loop k (i + 1) (drop w buf) (off + w) (write_at dst off (take w buf)))"
  by pat_completeness auto
termination by (relation "measure (\<lambda>(k, i, buf, off, dst). length buf)") auto

declare write_loop.simps [simp del]

function readwrite_loop :: "kernel \<Rightarrow> kernel \<Rightarrow> nat \<Rightarrow> nat \<Rightarrow> string \<Rightarrow> nat \<Rightarrow> nat \<Rightarrow> string \<Rightarrow> copied" where
  "readwrite_loop kr kw i j src off len dst =
     (case kr i of
        Inl _ \<Rightarrow> CopyFail
      | Inr n \<Rightarrow>
          let ret = min n (min BUFSIZ (length src - off))
          in if ret = 0 then CopyDone dst
             else (case write_loop kw j (take ret (drop off src)) off dst of
                     None \<Rightarrow> CopyFail
                   | Some (j', dst') \<Rightarrow>
                       if len - ret > 0 then readwrite_loop kr kw (i + 1) j' src (off + ret) (len - ret) dst' else CopyDone dst'))"
  by pat_completeness auto
termination by (relation "measure (\<lambda>(kr, kw, i, j, src, off, len, dst). len)") auto

declare readwrite_loop.simps [simp del]

text \<open>
  The three ways one after the other, with the flags that remember what the kernel does not support. The
  destination has \<open>st_size\<close> bytes from \<open>posix_fallocate\<close>; each way starts at its beginning.
\<close>

record copy_kernel =
  k_range :: kernel
  k_send :: kernel
  k_read :: kernel
  k_write :: kernel

definition copy_readwrite :: "copy_kernel \<Rightarrow> string \<Rightarrow> nat \<Rightarrow> string \<Rightarrow> string option" where
  "copy_readwrite k src siz dst =
     (case readwrite_loop (k_read k) (k_write k) 0 0 src 0 siz dst of CopyDone d \<Rightarrow> Some d | _ \<Rightarrow> None)"

definition copy_send :: "copy_kernel \<Rightarrow> bool \<Rightarrow> string \<Rightarrow> nat \<Rightarrow> string \<Rightarrow> bool \<times> string option" where
  "copy_send k use_sendfile src siz dst =
     (if \<not> use_sendfile then (False, copy_readwrite k src siz dst)
      else (case send_file (k_send k) src siz dst of
              CopyDone d \<Rightarrow> (True, Some d)
            | CopyFallback d \<Rightarrow> (False, copy_readwrite k src siz d)
            | CopyFail \<Rightarrow> (True, None)))"

definition copy_file :: "copy_kernel \<Rightarrow> bool \<times> bool \<Rightarrow> string \<Rightarrow> nat \<Rightarrow> (bool \<times> bool) \<times> string option" where
  "copy_file k flags src siz =
     (let dst0 = replicate siz NUL;
          send = (\<lambda>dst. case copy_send k (snd flags) src siz dst of (s, r) \<Rightarrow> ((False, s), r))
      in if \<not> fst flags then send dst0
         else (case copy_range (k_range k) src siz dst0 of
                 CopyDone d \<Rightarrow> (flags, Some d)
               | CopyFallback d \<Rightarrow> send d
               | CopyFail \<Rightarrow> (flags, None)))"

section \<open>All bytes arrive\<close>

text \<open>A kernel that supports a call and moves at least a byte each time, and one that at some call says it does not.\<close>

definition moves :: "kernel \<Rightarrow> bool" where
  "moves k \<longleftrightarrow> (\<forall>i. \<exists>n. k i = Inr n \<and> 0 < n)"

definition moves_or :: "errno set \<Rightarrow> kernel \<Rightarrow> bool" where
  "moves_or E k \<longleftrightarrow> (\<forall>i. (\<exists>n. k i = Inr n \<and> 0 < n) \<or> (\<exists>e \<in> E. k i = Inl e))"

lemma write_at_prefix:
  assumes "take off dst = take off src" "length dst = length src" "off + n \<le> length src"
  shows "take (off + n) (write_at dst off (take n (drop off src))) = take (off + n) src"
    and "length (write_at dst off (take n (drop off src))) = length src"
proof -
  have len: "length (take off dst @ take n (drop off src)) = off + n" using assms by simp
  have "take off dst @ take n (drop off src) = take (off + n) src" using assms(1) by (simp add: take_add)
  then show "take (off + n) (write_at dst off (take n (drop off src))) = take (off + n) src"
    unfolding write_at_def using len by (metis append.assoc append_eq_conv_conj)
  show "length (write_at dst off (take n (drop off src))) = length src"
    using assms by (simp add: write_at_def)
qed

text \<open>What a loop leaves behind: the whole source, or something of its length.\<close>

definition delivers :: "string \<Rightarrow> copied \<Rightarrow> bool" where
  "delivers src r \<longleftrightarrow> (case r of CopyDone d \<Rightarrow> d = src | CopyFallback d \<Rightarrow> length d = length src | CopyFail \<Rightarrow> False)"

lemma transfer_loop_delivers:
  assumes "moves_or E k"
  shows "take off dst = take off src \<Longrightarrow> length dst = length src \<Longrightarrow> off + len = length src \<Longrightarrow>
    delivers src (transfer_loop E k i src off len dst)"
proof (induction len arbitrary: i off dst rule: less_induct)
  case (less len)
  show ?case
  proof (cases "k i")
    case (Inl e)
    then have "e \<in> E" using assms unfolding moves_or_def by (metis Inl_inject Inl_Inr_False)
    then show ?thesis using Inl less.prems by (subst transfer_loop.simps) (simp add: delivers_def)
  next
    case (Inr n)
    then have n: "0 < n" using assms unfolding moves_or_def by (metis Inr_inject Inr_Inl_False)
    define ret where "ret = min n (min len (length src - off))"
    let ?dst = "write_at dst off (take ret (drop off src))"
    have le: "off + ret \<le> length src" "ret = min n len" using less.prems(3) by (simp_all add: ret_def)
    note pre = write_at_prefix [OF less.prems(1,2) le(1)]
    have eq: "transfer_loop E k i src off len dst =
        (if len - ret > 0 \<and> ret > 0 then transfer_loop E k (i + 1) src (off + ret) (len - ret) ?dst else CopyDone ?dst)"
      by (subst transfer_loop.simps) (simp only: Inr sum.case Let_def ret_def)
    show ?thesis
    proof (cases "len - ret > 0 \<and> ret > 0")
      case True
      have "delivers src (transfer_loop E k (i + 1) src (off + ret) (len - ret) ?dst)"
        using True less.prems(3) by (intro less.IH pre) simp_all
      then show ?thesis using True unfolding eq by simp
    next
      case False
      then have "off + ret = length src" using n less.prems(3) le(2) by auto
      then have "?dst = src" using pre by simp
      then show ?thesis using False unfolding eq by (auto simp: delivers_def)
    qed
  qed
qed

lemma write_at_append:
  assumes "off + length (a @ b) \<le> length dst"
  shows "write_at (write_at dst off a) (off + length a) b = write_at dst off (a @ b)"
proof -
  define p where "p = take off dst @ a"
  have len: "off + length a = length p" using assms by (simp add: p_def)
  have w: "write_at dst off a = p @ drop (length p) dst" unfolding write_at_def len by (simp add: p_def)
  have "write_at (write_at dst off a) (length p) b = p @ b @ drop (length p + length b) dst"
    unfolding w unfolding write_at_def [of "p @ drop (length p) dst"] by (simp add: add.commute)
  moreover have "write_at dst off (a @ b) = p @ b @ drop (length p + length b) dst"
    using len by (simp add: write_at_def p_def add.assoc [symmetric])
  ultimately show ?thesis unfolding len by simp
qed

lemma write_loop_delivers:
  assumes "moves k"
  shows "off + length buf \<le> length dst \<Longrightarrow> \<exists>j. write_loop k i buf off dst = Some (j, write_at dst off buf)"
proof (induction "length buf" arbitrary: i buf off dst rule: less_induct)
  case less
  show ?case
  proof (cases "buf = []")
    case True
    then show ?thesis by (subst write_loop.simps) (simp add: write_at_def)
  next
    case False
    obtain n where n: "k i = Inr n" "0 < n" using assms by (auto simp: moves_def)
    define w where "w = min n (length buf)"
    let ?dst = "write_at dst off (take w buf)"
    have len: "length ?dst = length dst" using less.prems by (simp add: write_at_def w_def)
    have w: "0 < w" "w \<le> length buf" using False n(2) by (simp_all add: w_def)
    have "length (drop w buf) < length buf" using w False by simp
    moreover have "off + w + length (drop w buf) \<le> length ?dst" using less.prems w len by simp
    ultimately obtain j where j: "write_loop k (i + 1) (drop w buf) (off + w) ?dst = Some (j, write_at ?dst (off + w) (drop w buf))"
      using less.hyps [of "drop w buf"] by blast
    have "write_at ?dst (off + w) (drop w buf) = write_at dst off buf"
      using write_at_append [of off "take w buf" "drop w buf" dst] less.prems w by simp
    moreover have "write_loop k i buf off dst = write_loop k (i + 1) (drop w buf) (off + w) ?dst"
      using False w(1) by (subst write_loop.simps) (simp add: n(1) Let_def flip: w_def)
    ultimately show ?thesis using j by simp
  qed
qed

lemma readwrite_loop_delivers:
  assumes "moves kr" "moves kw"
  shows "take off dst = take off src \<Longrightarrow> length dst = length src \<Longrightarrow> off + len = length src \<Longrightarrow>
    readwrite_loop kr kw i j src off len dst = CopyDone src"
proof (induction len arbitrary: i j off dst rule: less_induct)
  case (less len)
  obtain n where n: "kr i = Inr n" "0 < n" using assms(1) by (auto simp: moves_def)
  define ret where "ret = min n (min BUFSIZ (length src - off))"
  let ?bs = "take ret (drop off src)"
  have le: "off + ret \<le> length src" using less.prems(3) by (simp add: ret_def)
  note pre = write_at_prefix [OF less.prems(1,2) le]
  show ?case
  proof (cases "ret = 0")
    case True
    then have "off = length src" using n(2) less.prems(3) by (auto simp: BUFSIZ_def ret_def)
    moreover have "readwrite_loop kr kw i j src off len dst = CopyDone dst"
      using True by (subst readwrite_loop.simps) (simp add: n ret_def)
    ultimately show ?thesis using less.prems by simp
  next
    case False
    obtain j' where j': "write_loop kw j ?bs off dst = Some (j', write_at dst off ?bs)"
      using write_loop_delivers [OF assms(2), of off ?bs dst j] less.prems le by auto
    have eq: "readwrite_loop kr kw i j src off len dst =
        (if len - ret > 0 then readwrite_loop kr kw (i + 1) j' src (off + ret) (len - ret) (write_at dst off ?bs)
         else CopyDone (write_at dst off ?bs))"
      using False j' by (subst readwrite_loop.simps) (simp only: n sum.case Let_def ret_def if_False option.case prod.case)
    show ?thesis
    proof (cases "len - ret > 0")
      case True
      have "readwrite_loop kr kw (i + 1) j' src (off + ret) (len - ret) (write_at dst off ?bs) = CopyDone src"
        using False True less.prems(3) by (intro less.IH pre) simp_all
      then show ?thesis using True unfolding eq by simp
    next
      case stop: False
      then have "off + ret = length src" using less.prems(3) le by linarith
      then have "write_at dst off ?bs = src" using pre by simp
      then show ?thesis using stop unfolding eq by simp
    qed
  qed
qed

text \<open>
  C13: A regular file is copied byte for byte, whatever the sizes of the pieces the kernel moves are, and also when
  \<open>copy_file_range\<close> or \<open>sendfile\<close> turn out to be unsupported before the first byte or in the middle of the file.
\<close>
theorem copy_file_delivers:
  assumes "moves_or {EXDEV, ENOSYS, EOPNOTSUPP, EINVAL} (k_range k)" and "moves_or {EINVAL, ENOSYS, EOPNOTSUPP} (k_send k)"
    and "moves (k_read k)" and "moves (k_write k)"
  shows "snd (copy_file k flags src (length src)) = Some src"
proof -
  have rw: "length d = length src \<Longrightarrow> copy_readwrite k src (length src) d = Some src" for d
    using readwrite_loop_delivers [OF assms(3,4), of 0 d src] by (simp add: copy_readwrite_def)
  have send: "length d = length src \<Longrightarrow> snd (copy_send k b src (length src) d) = Some src" for b d
  proof -
    assume len: "length d = length src"
    have "delivers src (send_file (k_send k) src (length src) d)"
      using transfer_loop_delivers [OF assms(2), of 0 d src "length src" 0] len by (simp add: send_file_def)
    then show ?thesis
      using rw len by (cases "send_file (k_send k) src (length src) d") (simp_all add: copy_send_def delivers_def)
  qed
  have "delivers src (copy_range (k_range k) src (length src) (replicate (length src) NUL))"
    using transfer_loop_delivers [OF assms(1), of 0 "replicate (length src) NUL" src "length src" 0] by (simp add: copy_range_def)
  then show ?thesis
    using send by (cases "copy_range (k_range k) src (length src) (replicate (length src) NUL)")
      (simp_all add: copy_file_def delivers_def split_beta Let_def)
qed

definition sample_kernel :: copy_kernel where
  "sample_kernel = \<lparr>k_range = (\<lambda>i. if i = 0 then Inr 2 else Inl EXDEV), k_send = (\<lambda>i. Inl ENOSYS), k_read = (\<lambda>i. Inr 3), k_write = (\<lambda>i. Inr 2)\<rparr>"

theorem copy_file_delivers_witness:
  "snd (copy_file sample_kernel (True, True) ''initramfs'' 9) = Some ''initramfs''"
proof -
  have "moves_or {EXDEV, ENOSYS, EOPNOTSUPP, EINVAL} (k_range sample_kernel)"
    by (auto simp: sample_kernel_def moves_or_def)
  then have "snd (copy_file sample_kernel (True, True) ''initramfs'' (length ''initramfs'')) = Some ''initramfs''"
    by (rule copy_file_delivers) (simp_all add: sample_kernel_def moves_def moves_or_def)
  moreover have "length ''initramfs'' = 9" by simp
  ultimately show ?thesis by (simp only:)
qed

end
