(* ===== verification/PutInstall.thy ===== *)
theory PutInstall
  imports PutCopy
begin

text \<open>
  The copying of \<open>initrd-put\<close> (\<open>print_file\<close>, \<open>install_file\<close>, \<open>install_hardlink\<close>, \<open>apply_permissions\<close>,
  \<open>classify_file\<close>, the worker threads and the end of \<open>main\<close> in \<open>utils/initrd-put/initrd-put.c\<close>). The destination is
  a list of paths with their nodes; a regular file is an inode number, so that hard links share it. Paths are taken as
  they are spelled. What the kernel decides beyond missing directories and existing files is a parameter, one for each
  kind of call; whether the path of a symbolic link leads to a file, and creating a node below one, are parameters too.
\<close>

section \<open>The destination\<close>

datatype dnode = NDir | NDev u32 u64 | NLink string | NFifo u32 | NSock | NReg nat

record inst_env =
  e_conf :: put_conf
  e_create :: "string \<Rightarrow> errno option"
  e_below_link :: "string \<Rightarrow> errno option"
  e_follow :: "string \<Rightarrow> bool"
  e_remove :: "string \<Rightarrow> errno option"
  e_link :: "string \<Rightarrow> errno option"
  e_source :: "string \<Rightarrow> string option"
  e_copy :: "string \<Rightarrow> copy_kernel"
  e_chown :: "string \<Rightarrow> errno option"
  e_chmod :: "string \<Rightarrow> errno option"

record inst_state =
  i_files :: "nat \<rightharpoonup> put_file"
  i_dest :: "(string \<times> dnode) list"
  i_data :: "nat \<rightharpoonup> string"
  i_next :: nat
  i_perm :: "string \<rightharpoonup> (u32 \<times> u32) option \<times> u32 option"
  i_installed :: nat
  i_flags :: "bool \<times> bool"

definition parent_dir :: "string \<Rightarrow> string" where
  "parent_dir p = (case split_last (CHR ''/'') p of None \<Rightarrow> ''.'' | Some (d, _) \<Rightarrow> if d = [] then ''/'' else d)"

abbreviation node_at :: "inst_state \<Rightarrow> string \<Rightarrow> dnode option" where
  "node_at st \<equiv> map_of (i_dest st)"

text \<open>
  Creating a node: \<open>ENOENT\<close> when the directory is missing, another error when it is no directory, \<open>EEXIST\<close> when there
  is a node already, and otherwise what the kernel says.
\<close>

definition dir_error :: "inst_env \<Rightarrow> string \<Rightarrow> inst_state \<Rightarrow> errno option" where
  "dir_error env p st =
     (case node_at st (parent_dir p) of
        None \<Rightarrow> Some ENOENT
      | Some NDir \<Rightarrow> None
      | Some (NLink _) \<Rightarrow> e_below_link env p
      | Some _ \<Rightarrow> Some EOTHER)"

definition create_node :: "(string \<Rightarrow> errno option) \<Rightarrow> inst_env \<Rightarrow> string \<Rightarrow> dnode \<Rightarrow> inst_state \<Rightarrow> errno + inst_state" where
  "create_node refuse env p n st =
     (case dir_error env p st of
        Some e \<Rightarrow> Inl e
      | None \<Rightarrow>
          if node_at st p \<noteq> None then Inl EEXIST
          else case refuse p of
                 Some e \<Rightarrow> Inl e
               | None \<Rightarrow> Inr (st\<lparr>i_dest := (p, n) # i_dest st\<rparr>))"

text \<open>\<open>remove\<close>: a directory has to be empty.\<close>

definition remove_node :: "inst_env \<Rightarrow> string \<Rightarrow> inst_state \<Rightarrow> errno + inst_state" where
  "remove_node env p st =
     (if node_at st p = None then Inl ENOENT
      else if node_at st p = Some NDir \<and> list_ex (\<lambda>(q, _). q \<noteq> p \<and> parent_dir q = p) (i_dest st) then Inl EOTHER
      else case e_remove env p of
             Some e \<Rightarrow> Inl e
           | None \<Rightarrow> Inr (st\<lparr>i_dest := filter (\<lambda>(q, _). q \<noteq> p) (i_dest st)\<rparr>))"

section \<open>Installing a file\<close>

definition file_kind :: "put_file \<Rightarrow> u32" where
  "file_kind f = st_mode (f_stat f) AND S_IFMT"

definition install_path :: "inst_env \<Rightarrow> put_file \<Rightarrow> put_error + string" where
  "install_path env f =
     (if length (destdir (e_conf env)) > PATH_MAX + 1 then Inl BufferOverflow
      else case f_dst f of
             None \<Rightarrow> Inl UseAfterFree
           | Some dst \<Rightarrow>
               if length dst \<ge> PATH_MAX + 1 - length (destdir (e_conf env)) then Inl (PutFailed ''destination path too long'')
               else Inr (destdir (e_conf env) @ dst))"

text \<open>\<open>force\<close>: what is there is removed first.\<close>

definition force_remove :: "inst_env \<Rightarrow> bool \<Rightarrow> string \<Rightarrow> inst_state \<Rightarrow> put_error + inst_state" where
  "force_remove env wanted p st =
     (if wanted
      then (case remove_node env p st of
              Inr st' \<Rightarrow> Inr st'
            | Inl e \<Rightarrow> if e \<noteq> ENOENT then Inl (PutFailed ''remove'') else Inr st)
      else Inr st)"

text \<open>The label \<open>end\<close>: the file is installed and counted.\<close>

definition install_end :: "nat \<Rightarrow> inst_state \<Rightarrow> inst_state" where
  "install_end a st =
     st\<lparr>i_files := (i_files st)(a := map_option (\<lambda>f. f\<lparr>f_installed := True\<rparr>) (i_files st a)), i_installed := i_installed st + 1\<rparr>"

text \<open>The end of a branch after a system call: an existing file is skipped, a missing directory leaves the file for the next round.\<close>

definition install_result :: "nat \<Rightarrow> inst_state \<Rightarrow> errno + inst_state \<Rightarrow> put_error + inst_state" where
  "install_result a st r =
     (case r of
        Inr st' \<Rightarrow> Inr (install_end a st')
      | Inl e \<Rightarrow> if e = EEXIST then Inr (install_end a st) else if e = ENOENT then Inr st else Inl (PutFailed ''cannot create''))"

definition symlink_target :: "put_conf \<Rightarrow> string \<Rightarrow> string" where
  "symlink_target c target =
     (case prefix c of
        None \<Rightarrow> target
      | Some p \<Rightarrow>
          if p \<noteq> [] \<and> length target \<ge> length p \<and> (length target = length p \<or> target ! length p = CHR ''/'') \<and> take (length p) target = p
          then (if length target = length p then ''/'' else drop (length p) target) else target)"

text \<open>\<open>bind\<close> reports an existing path as \<open>EADDRINUSE\<close>, not as \<open>EEXIST\<close>.\<close>

definition mksock :: "inst_env \<Rightarrow> string \<Rightarrow> inst_state \<Rightarrow> errno + inst_state" where
  "mksock env p st =
     (if length p < 108
      then (case create_node (e_create env) env p NSock st of
              Inl e \<Rightarrow> Inl (if e = EEXIST then EOTHER else e)
            | Inr st' \<Rightarrow> Inr st')
      else Inl EINVAL)"

text \<open>
  A regular file. \<open>access\<close> follows a symbolic link; when that leads nowhere, \<open>creat\<close> writes through the link, outside of
  the nodes of the destination.
\<close>

definition creat_node :: "inst_env \<Rightarrow> string \<Rightarrow> inst_state \<Rightarrow> errno + inst_state" where
  "creat_node env p st =
     (case node_at st p of
        Some (NLink _) \<Rightarrow> (case e_create env p of Some e \<Rightarrow> Inl e | None \<Rightarrow> Inr st)
      | _ \<Rightarrow> create_node (e_create env) env p (NReg (i_next st)) st)"

definition accessible :: "inst_env \<Rightarrow> string \<Rightarrow> inst_state \<Rightarrow> bool" where
  "accessible env p st = (case node_at st p of None \<Rightarrow> False | Some (NLink _) \<Rightarrow> e_follow env p | Some _ \<Rightarrow> True)"

definition install_regular :: "inst_env \<Rightarrow> nat \<Rightarrow> put_file \<Rightarrow> string \<Rightarrow> inst_state \<Rightarrow> put_error + inst_state" where
  "install_regular env a f p st =
     (if accessible env p st then Inr (install_end a st)
      else case e_source env (f_src f) of
             None \<Rightarrow> Inl (PutFailed ''open'')
           | Some bytes \<Rightarrow>
               (case creat_node env p st of
                  Inl e \<Rightarrow> if e = ENOENT then Inr st else Inl (PutFailed ''creat'')
                | Inr st1 \<Rightarrow>
                    (case copy_file (e_copy env (f_src f)) (i_flags st) bytes (unat (st_size (f_stat f))) of
                       (flags, None) \<Rightarrow> Inl (PutFailed ''copy'')
                     | (flags, Some d) \<Rightarrow>
                         Inr (install_end a (st1\<lparr>i_data := (i_data st)(i_next st \<mapsto> d), i_next := i_next st + 1, i_flags := flags\<rparr>)))))"

definition install_kind :: "inst_env \<Rightarrow> nat \<Rightarrow> put_file \<Rightarrow> string \<Rightarrow> inst_state \<Rightarrow> put_error + inst_state" where
  "install_kind env a f p st =
     (let kind = file_kind f; mk = (\<lambda>n. install_result a st (create_node (e_create env) env p n st))
      in if kind = S_IFDIR then mk NDir
         else if kind = S_IFBLK \<or> kind = S_IFCHR then mk (NDev (st_mode (f_stat f)) (st_dev (f_stat f)))
         else if kind = S_IFLNK
         then (case f_symlink f of None \<Rightarrow> Inr st | Some target \<Rightarrow> mk (NLink (symlink_target (e_conf env) target)))
         else if kind = S_IFIFO then mk (NFifo (st_mode (f_stat f)))
         else if kind = S_IFSOCK then install_result a st (mksock env p st)
         else if kind \<noteq> S_IFREG then Inl (PutFailed ''not implemented'')
         else install_regular env a f p st)"

definition install_file :: "inst_env \<Rightarrow> nat \<Rightarrow> inst_state \<Rightarrow> put_error + inst_state" where
  "install_file env a st0 =
     (case i_files st0 a of
        None \<Rightarrow> Inl UseAfterFree
      | Some f \<Rightarrow>
          if f_installed f then Inr st0
          else bind_res (install_path env f) (\<lambda>p.
               bind_res (force_remove env (force (e_conf env) \<and> file_kind f \<noteq> S_IFDIR) p st0)
                 (install_kind env a f p)))"

text \<open>A hard link to the file with the same inode that was installed first; without one, or when the link is refused, a copy.\<close>

definition link_node :: "inst_env \<Rightarrow> string \<Rightarrow> string \<Rightarrow> inst_state \<Rightarrow> errno + inst_state" where
  "link_node env q p st = (case node_at st q of None \<Rightarrow> Inl ENOENT | Some n \<Rightarrow> create_node (e_link env) env p n st)"

definition install_hardlink :: "inst_env \<Rightarrow> nat \<Rightarrow> inst_state \<Rightarrow> put_error + inst_state" where
  "install_hardlink env a st0 =
     (case i_files st0 a of
        None \<Rightarrow> Inl UseAfterFree
      | Some f \<Rightarrow>
          if f_installed f then Inr st0
          else case f_hardlink_target f of
                 None \<Rightarrow> install_file env a st0
               | Some b \<Rightarrow>
                   (case i_files st0 b of
                      None \<Rightarrow> Inl UseAfterFree
                    | Some t \<Rightarrow>
                        if \<not> f_installed t then install_file env a st0
                        else bind_res (install_path env f) (\<lambda>p.
                             bind_res (install_path env t) (\<lambda>q.
                             if p = q then Inr (install_end a st0)
                             else bind_res (force_remove env (force (e_conf env)) p st0) (\<lambda>st.
                                  (case link_node env q p st of
                                     Inr st' \<Rightarrow> Inr (install_end a st')
                                   | Inl e \<Rightarrow>
                                       if e = EEXIST then Inr (install_end a st)
                                       else if e \<in> {EXDEV, EPERM, EACCES, EOPNOTSUPP, EMLINK} then install_file env a st
                                       else Inl (PutFailed ''link'')))))))"

definition apply_permissions :: "inst_env \<Rightarrow> nat \<Rightarrow> inst_state \<Rightarrow> put_error + inst_state" where
  "apply_permissions env a st =
     (case i_files st a of
        None \<Rightarrow> Inl UseAfterFree
      | Some f \<Rightarrow>
          if \<not> f_installed f then Inr st
          else bind_res (install_path env f) (\<lambda>p.
               bind_res (case e_chown env p of
                           None \<Rightarrow> Inr (Some (st_uid (f_stat f), st_gid (f_stat f)))
                         | Some e \<Rightarrow> if e \<noteq> EPERM then Inl (PutFailed ''lchown'') else Inr None) (\<lambda>owner.
               if file_kind f \<noteq> S_IFLNK
               then (if e_chmod env p \<noteq> None then Inl (PutFailed ''chmod'')
                     else Inr (st\<lparr>i_perm := (i_perm st)(p \<mapsto> (owner, Some (st_mode (f_stat f))))\<rparr>))
               else Inr (st\<lparr>i_perm := (i_perm st)(p \<mapsto> (owner, None))\<rparr>))))"

text \<open>The line of a file in the log.\<close>

definition print_file :: "put_conf \<Rightarrow> put_file \<Rightarrow> string" where
  "print_file c f =
     (let kind = file_kind f;
          type = (if kind = S_IFBLK then CHR ''b'' else if kind = S_IFCHR then CHR ''c'' else if kind = S_IFDIR then CHR ''d''
                  else if kind = S_IFIFO then CHR ''p'' else if kind = S_IFLNK then CHR ''l'' else if kind = S_IFREG then CHR ''f''
                  else if kind = S_IFSOCK then CHR ''s'' else CHR ''?'');
          tab = CHR 0x09
      in [type, tab] @ f_src f @ [tab] @ destdir c @ (case f_dst f of None \<Rightarrow> ''(null)'' | Some d \<Rightarrow> d) @ [tab]
         @ (case f_symlink f of None \<Rightarrow> [] | Some t \<Rightarrow> t) @ [CHR 0x0A])"

definition print_uninstalled_file :: "put_conf \<Rightarrow> put_file \<Rightarrow> string" where
  "print_uninstalled_file c f = (if \<not> f_installed f then print_file c f else [])"

section \<open>Sorting the files\<close>

text \<open>The entries of the tree of inodes: device, inode number and the first file with them.\<close>

record file_collector =
  dirs :: "nat list"
  non_dirs :: "nat list"
  hardlinks :: "nat list"
  hardlinks_root :: "((u64 \<times> u64) \<times> nat) list"

definition collector0 :: file_collector where
  "collector0 = \<lparr>dirs = [], non_dirs = [], hardlinks = [], hardlinks_root = []\<rparr>"

fun compare_hardlink_entry :: "u64 \<times> u64 \<Rightarrow> u64 \<times> u64 \<Rightarrow> int" where
  "compare_hardlink_entry (da, ia) (db, ib) =
     (if da < db then - 1 else if db < da then 1 else if ia < ib then - 1 else if ib < ia then 1 else 0)"

definition classify_file :: "nat \<Rightarrow> inst_state \<times> file_collector \<Rightarrow> inst_state \<times> file_collector" where
  "classify_file a sc =
     (case sc of (st, c) \<Rightarrow>
        case i_files st a of
          None \<Rightarrow> (st, c)
        | Some f \<Rightarrow>
            if file_kind f = S_IFDIR then (st, c\<lparr>dirs := dirs c @ [a]\<rparr>)
            else if file_kind f = S_IFREG \<and> st_nlink (f_stat f) > 1
            then (case tsearch compare_hardlink_entry fst ((st_dev (f_stat f), st_ino (f_stat f)), a) (hardlinks_root c) of
                    (orig, t) \<Rightarrow>
                      if snd orig \<noteq> a
                      then (st\<lparr>i_files := (i_files st)(a \<mapsto> f\<lparr>f_hardlink_target := Some (snd orig)\<rparr>)\<rparr>, c\<lparr>hardlinks := hardlinks c @ [a]\<rparr>)
                      else (st, c\<lparr>hardlinks_root := t, non_dirs := non_dirs c @ [a]\<rparr>))
            else (st, c\<lparr>non_dirs := non_dirs c @ [a]\<rparr>))"

definition compare_dir_order :: "string \<Rightarrow> string \<Rightarrow> int" where
  "compare_dir_order a b =
     (if length a \<noteq> length b then (if length a < length b then - 1 else 1) else strcmp a b)"

text \<open>\<open>qsort\<close> with that order, on the paths in the destination.\<close>

definition dst_path :: "inst_state \<Rightarrow> nat \<Rightarrow> string" where
  "dst_path st a = (case Option.bind (i_files st a) f_dst of None \<Rightarrow> [] | Some d \<Rightarrow> d)"

fun insert_dir :: "(nat \<Rightarrow> string) \<Rightarrow> nat \<Rightarrow> nat list \<Rightarrow> nat list" where
  "insert_dir d a [] = [a]"
| "insert_dir d a (b # bs) = (if compare_dir_order (d a) (d b) \<le> 0 then a # b # bs else b # insert_dir d a bs)"

definition sort_dirs :: "(nat \<Rightarrow> string) \<Rightarrow> nat list \<Rightarrow> nat list" where
  "sort_dirs d xs = foldr (insert_dir d) xs []"

section \<open>The rounds\<close>

definition is_installed :: "inst_state \<Rightarrow> nat \<Rightarrow> bool" where
  "is_installed st a = (case i_files st a of None \<Rightarrow> False | Some f \<Rightarrow> f_installed f)"

definition install_each :: "(nat \<Rightarrow> inst_state \<Rightarrow> put_error + inst_state) \<Rightarrow> nat list \<Rightarrow> inst_state \<Rightarrow> put_error + inst_state" where
  "install_each ins as st = fold_res (\<lambda>a s. if is_installed s a then Inr s else ins a s) as st"

text \<open>One round with a single worker: directories, other files, hard links.\<close>

definition install_round :: "inst_env \<Rightarrow> file_collector \<Rightarrow> inst_state \<Rightarrow> put_error + inst_state" where
  "install_round env c st =
     bind_res (install_each (install_file env) (dirs c) st) (\<lambda>st1.
     bind_res (install_each (install_file env) (non_dirs c) st1) (\<lambda>st2.
     install_each (install_hardlink env) (hardlinks c) st2))"

text \<open>The rounds go on while a round installs something.\<close>

partial_function (option) install_loop :: "inst_env \<Rightarrow> file_collector \<Rightarrow> inst_state \<Rightarrow> (put_error + inst_state) option" where
  "install_loop env c st =
     (case install_round env c st of
        Inl e \<Rightarrow> Some (Inl e)
      | Inr st' \<Rightarrow> if i_installed st' = i_installed st then Some (Inr st') else install_loop env c st')"

text \<open>The end of \<open>main\<close>: files that were not installed are an error, then permissions, of directories last and inner ones first.\<close>

definition install_finish :: "inst_env \<Rightarrow> file_collector \<Rightarrow> nat \<Rightarrow> inst_state \<Rightarrow> put_error + inst_state" where
  "install_finish env c tree_nr st =
     (if tree_nr > i_installed st then Inl (PutFailed ''unable to create the files listed above'')
      else fold_res (apply_permissions env) (non_dirs c @ hardlinks c @ rev (dirs c)) st)"

definition put_install :: "inst_env \<Rightarrow> nat list \<Rightarrow> nat \<Rightarrow> inst_state \<Rightarrow> (put_error + inst_state) option" where
  "put_install env files_in_order tree_nr st0 =
     (case fold classify_file files_in_order (st0, collector0) of
        (st, c0) \<Rightarrow>
          let c = (if length (dirs c0) > 1 then c0\<lparr>dirs := sort_dirs (dst_path st) (dirs c0)\<rparr> else c0)
          in map_option (\<lambda>r. bind_res r (install_finish env c tree_nr)) (install_loop env c st))"

section \<open>The worker threads\<close>

definition worker_count :: "int \<Rightarrow> int \<Rightarrow> nat \<Rightarrow> int" where
  "worker_count jobs nprocs non_dir_count =
     (let n = (if jobs \<le> 0 then (if nprocs > 0 then nprocs else 1) else jobs)
      in if nat n > non_dir_count then (if non_dir_count > 0 then int non_dir_count else 1) else n)"

datatype worker = Idle | Holding nat | Finished

text \<open>The pool: the files from \<open>next_idx\<close> on, the threads, and the files handed out so far, in order.\<close>

record worker_pool =
  p_rest :: "nat list"
  p_workers :: "worker list"
  p_taken :: "nat list"
  p_inst :: inst_state

text \<open>The critical section: the next file that is not installed.\<close>

fun pool_take :: "inst_state \<Rightarrow> nat list \<Rightarrow> nat option \<times> nat list" where
  "pool_take st [] = (None, [])"
| "pool_take st (a # as) = (if is_installed st a then pool_take st as else (Some a, as))"

text \<open>The threads run in any order; one step is a critical section or the installation of the file a thread holds.\<close>

inductive pool_step :: "inst_env \<Rightarrow> worker_pool \<Rightarrow> worker_pool \<Rightarrow> bool" for env where
  take_file: "t < length (p_workers s) \<Longrightarrow> p_workers s ! t = Idle \<Longrightarrow> pool_take (p_inst s) (p_rest s) = (Some a, r)
    \<Longrightarrow> pool_step env s (s\<lparr>p_rest := r, p_workers := (p_workers s)[t := Holding a], p_taken := p_taken s @ [a]\<rparr>)"
| take_none: "t < length (p_workers s) \<Longrightarrow> p_workers s ! t = Idle \<Longrightarrow> pool_take (p_inst s) (p_rest s) = (None, r)
    \<Longrightarrow> pool_step env s (s\<lparr>p_rest := r, p_workers := (p_workers s)[t := Finished]\<rparr>)"
| install: "t < length (p_workers s) \<Longrightarrow> p_workers s ! t = Holding a \<Longrightarrow> install_file env a (p_inst s) = Inr st'
    \<Longrightarrow> pool_step env s (s\<lparr>p_workers := (p_workers s)[t := Idle], p_inst := st'\<rparr>)"

definition pool_init :: "nat \<Rightarrow> nat list \<Rightarrow> inst_state \<Rightarrow> worker_pool" where
  "pool_init n as st = \<lparr>p_rest = as, p_workers = replicate n Idle, p_taken = [], p_inst = st\<rparr>"

section \<open>Small instances\<close>

definition sample_file :: "string \<Rightarrow> u32 \<Rightarrow> put_file" where
  "sample_file p mode = (file0 p)\<lparr>f_dst := Some p, f_stat := stat0\<lparr>st_mode := mode, st_dev := 5, st_rdev := 9, st_nlink := 2\<rparr>\<rparr>"

definition sample_env :: inst_env where
  "sample_env = \<lparr>e_conf = tiny_conf, e_create = (\<lambda>_. None), e_below_link = (\<lambda>_. None), e_follow = (\<lambda>_. False),
     e_remove = (\<lambda>_. None), e_link = (\<lambda>_. None), e_source = (\<lambda>_. Some []), e_copy = (\<lambda>_. sample_kernel),
     e_chown = (\<lambda>_. None), e_chmod = (\<lambda>_. None)\<rparr>"

definition sample_inst :: "(nat \<rightharpoonup> put_file) \<Rightarrow> (string \<times> dnode) list \<Rightarrow> inst_state" where
  "sample_inst h d = \<lparr>i_files = h, i_dest = d, i_data = Map.empty, i_next = 0, i_perm = Map.empty, i_installed = 0, i_flags = (True, True)\<rparr>"

lemmas sample_simps = sample_inst_def sample_env_def sample_file_def file0_def stat0_def tiny_conf_def install_path_def
  file_kind_def S_IFMT_def S_IFDIR_def S_IFBLK_def S_IFCHR_def S_IFLNK_def S_IFIFO_def S_IFSOCK_def S_IFREG_def PATH_MAX_def

section \<open>Every file is counted once\<close>

definition counts :: "nat \<Rightarrow> inst_state \<Rightarrow> inst_state \<Rightarrow> bool" where
  "counts a st st' \<longleftrightarrow>
     (i_files st' = i_files st \<and> i_installed st' = i_installed st) \<or>
     (\<exists>f. i_files st a = Some f \<and> \<not> f_installed f \<and> i_files st' = (i_files st)(a \<mapsto> f\<lparr>f_installed := True\<rparr>)
          \<and> i_installed st' = i_installed st + 1)"

lemma counts_same: "i_files st' = i_files st \<Longrightarrow> i_installed st' = i_installed st \<Longrightarrow> counts a st st'"
  by (simp add: counts_def)

lemma counts_end:
  assumes "i_files st a = Some f" "\<not> f_installed f" "i_files s = i_files st" "i_installed s = i_installed st"
  shows "counts a st (install_end a s)"
  using assms by (simp add: counts_def install_end_def)

lemma create_node_counts:
  "create_node r env p n st = Inr st' \<Longrightarrow> i_files st' = i_files st \<and> i_installed st' = i_installed st"
  by (auto simp: create_node_def split: option.splits if_splits)

lemma mksock_counts: "mksock env p st = Inr st' \<Longrightarrow> i_files st' = i_files st \<and> i_installed st' = i_installed st"
  by (auto simp: mksock_def split: sum.splits if_splits dest: create_node_counts)

lemma creat_node_counts: "creat_node env p st = Inr st' \<Longrightarrow> i_files st' = i_files st \<and> i_installed st' = i_installed st"
  by (auto simp: creat_node_def split: option.splits dnode.splits dest: create_node_counts)

lemma force_remove_counts:
  "force_remove env w p st = Inr st' \<Longrightarrow> i_files st' = i_files st \<and> i_installed st' = i_installed st"
  by (auto simp: force_remove_def remove_node_def split: sum.splits if_splits option.splits)

lemma install_result_counts:
  assumes "install_result a st r = Inr st'" "i_files st a = Some f" "\<not> f_installed f"
    and "\<And>s. r = Inr s \<Longrightarrow> i_files s = i_files st \<and> i_installed s = i_installed st"
  shows "counts a st st'"
proof (cases r)
  case (Inl e)
  then have "st' = install_end a st \<or> st' = st" using assms(1) by (simp add: install_result_def split: if_splits)
  then show ?thesis using counts_end [OF assms(2,3) refl refl] counts_same [of st st] by metis
next
  case (Inr s)
  then have "st' = install_end a s" using assms(1) by (simp add: install_result_def)
  then show ?thesis using counts_end [OF assms(2,3)] assms(4) [OF Inr] by simp
qed

lemma install_regular_counts:
  assumes "install_regular env a f p st = Inr st'" "i_files st a = Some f" "\<not> f_installed f"
  shows "counts a st st'"
proof -
  consider "st' = install_end a st" | "st' = st"
    | s d n g where "creat_node env p st = Inr s" "st' = install_end a (s\<lparr>i_data := d, i_next := n, i_flags := g\<rparr>)"
    using assms(1) unfolding install_regular_def
    by (force split: if_splits option.splits sum.splits prod.splits)
  then show ?thesis
  proof cases
    case 1
    then show ?thesis using counts_end [OF assms(2,3) refl refl] by simp
  next
    case 2
    then show ?thesis by (simp add: counts_same)
  next
    case 3
    then show ?thesis using counts_end [OF assms(2,3)] creat_node_counts by simp
  qed
qed

lemma install_mk_counts:
  assumes "i_files st a = Some f" "\<not> f_installed f" "install_result a st (create_node r env p n st) = Inr st'"
  shows "counts a st st'"
  by (rule install_result_counts [OF assms(3,1,2)]) (rule create_node_counts)

lemma install_kind_counts:
  assumes "install_kind env a f p st = Inr st'" and f: "i_files st a = Some f" "\<not> f_installed f"
  shows "counts a st st'"
proof -
  consider (same) "st' = st" | (node) n where "install_result a st (create_node (e_create env) env p n st) = Inr st'"
    | (sock) "install_result a st (mksock env p st) = Inr st'" | (reg) "install_regular env a f p st = Inr st'"
    using assms(1) unfolding install_kind_def Let_def by (fastforce split: if_splits option.splits)
  then show ?thesis
  proof cases
    case same
    then show ?thesis by (simp add: counts_same)
  next
    case node
    then show ?thesis by (rule install_mk_counts [OF f])
  next
    case sock
    then show ?thesis by (rule install_result_counts [OF _ f]) (rule mksock_counts)
  next
    case reg
    then show ?thesis by (rule install_regular_counts [OF _ f])
  qed
qed

lemma counts_shift: "i_files s = i_files st \<Longrightarrow> i_installed s = i_installed st \<Longrightarrow> counts a s st' \<Longrightarrow> counts a st st'"
  by (simp add: counts_def)

lemma install_file_counts:
  assumes "install_file env a st = Inr st'"
  shows "counts a st st'"
proof -
  obtain f where f: "i_files st a = Some f" using assms by (auto simp: install_file_def split: option.splits)
  show ?thesis
  proof (cases "f_installed f")
    case True
    then show ?thesis using assms f by (simp add: install_file_def counts_same)
  next
    case False
    obtain p s where s: "force_remove env (force (e_conf env) \<and> file_kind f \<noteq> S_IFDIR) p st = Inr s"
      and k: "install_kind env a f p s = Inr st'"
      using assms f False by (auto simp: install_file_def bind_res_Inr_iff)
    note fr = force_remove_counts [OF s]
    have "counts a s st'" using install_kind_counts [OF k] f False fr by simp
    then show ?thesis using counts_shift [of s st a st'] fr by simp
  qed
qed



text \<open>The files of a set that are still to be installed, and the sum that no step changes.\<close>

definition todo :: "nat set \<Rightarrow> inst_state \<Rightarrow> nat set" where
  "todo S st = {a \<in> S. \<not> is_installed st a}"

lemma counts_sum:
  assumes "counts a st st'" "a \<in> S" "finite S"
  shows "i_installed st' + card (todo S st') = i_installed st + card (todo S st) \<and> i_installed st \<le> i_installed st'"
proof -
  consider (same) "i_files st' = i_files st" "i_installed st' = i_installed st"
    | (one) f where "i_files st a = Some f" "\<not> f_installed f" "i_files st' = (i_files st)(a \<mapsto> f\<lparr>f_installed := True\<rparr>)"
        "i_installed st' = i_installed st + 1"
    using assms(1) unfolding counts_def by blast
  then show ?thesis
  proof cases
    case same
    then show ?thesis by (simp add: todo_def is_installed_def)
  next
    case one
    have "a \<in> todo S st" "todo S st' = todo S st - {a}" using one assms(2) by (auto simp: todo_def is_installed_def)
    moreover have "finite (todo S st)" using assms(3) by (simp add: todo_def)
    ultimately show ?thesis using one(4) card_Suc_Diff1 [of "todo S st" a] by simp
  qed
qed




section \<open>No two threads install the same file\<close>

lemma pool_take_spec:
  "pool_take st as = (r, bs) \<Longrightarrow>
     \<exists>skipped. (\<forall>a \<in> set skipped. is_installed st a) \<and>
       (case r of None \<Rightarrow> as = skipped \<and> bs = [] | Some a \<Rightarrow> as = skipped @ a # bs \<and> \<not> is_installed st a)"
proof (induction as)
  case (Cons x xs)
  show ?case
  proof (cases "is_installed st x")
    case True
    then obtain sk where "\<forall>a \<in> set sk. is_installed st a"
      "case r of None \<Rightarrow> xs = sk \<and> bs = [] | Some a \<Rightarrow> xs = sk @ a # bs \<and> \<not> is_installed st a"
      using Cons by auto
    then show ?thesis using True by (intro exI [of _ "x # sk"]) (simp split: option.splits)
  next
    case False
    then show ?thesis using Cons.prems by (intro exI [of _ "[]"]) auto
  qed
qed auto

lemma counts_installed:
  "counts a st st' \<Longrightarrow> is_installed st b \<Longrightarrow> is_installed st' b"
  "counts a st st' \<Longrightarrow> b \<noteq> a \<Longrightarrow> is_installed st' b = is_installed st b"
  by (auto simp: counts_def is_installed_def)

definition held :: "worker_pool \<Rightarrow> nat \<Rightarrow> nat \<Rightarrow> bool" where
  "held s t a \<longleftrightarrow> t < length (p_workers s) \<and> p_workers s ! t = Holding a"

definition pool_inv :: "nat list \<Rightarrow> nat \<Rightarrow> worker_pool \<Rightarrow> bool" where
  "pool_inv as tot s \<longleftrightarrow>
     distinct (p_taken s @ p_rest s) \<and> set (p_taken s) \<subseteq> set as \<and> set (p_rest s) \<subseteq> set as \<and>
     (\<forall>t u a. held s t a \<and> held s u a \<longrightarrow> t = u) \<and>
     (\<forall>t a. held s t a \<longrightarrow> a \<in> set (p_taken s) \<and> \<not> is_installed (p_inst s) a) \<and>
     (\<forall>a \<in> set as. a \<in> set (p_taken s) \<or> a \<in> set (p_rest s) \<or> is_installed (p_inst s) a) \<and>
     (Finished \<in> set (p_workers s) \<longrightarrow> p_rest s = []) \<and>
     i_installed (p_inst s) + card (todo (set as) (p_inst s)) = tot"

lemma pool_inv_init:
  assumes "distinct as"
  shows "pool_inv as (i_installed st + card (todo (set as) st)) (pool_init n as st)"
proof -
  have "\<not> held (pool_init n as st) t a" for t a by (simp add: held_def pool_init_def)
  then show ?thesis using assms by (simp add: pool_inv_def) (simp add: pool_init_def)
qed

lemma pool_inv_take_file:
  assumes I: "pool_inv as tot s" and t: "t < length (p_workers s)" "p_workers s ! t = Idle"
    and k: "pool_take (p_inst s) (p_rest s) = (Some a, r)"
  shows "pool_inv as tot (s\<lparr>p_rest := r, p_workers := (p_workers s)[t := Holding a], p_taken := p_taken s @ [a]\<rparr>)"
    (is "pool_inv as tot ?s")
proof -
  obtain sk where sk: "\<forall>b \<in> set sk. is_installed (p_inst s) b" and e: "p_rest s = sk @ a # r" and n: "\<not> is_installed (p_inst s) a"
    using pool_take_spec [OF k] by auto
  have h: "held ?s u b \<longleftrightarrow> (if u = t then b = a else held s u b)" for u b
    using t by (auto simp: held_def nth_list_update)
  have old: "held s u b \<Longrightarrow> b \<noteq> a" for u b using I e by (auto simp: pool_inv_def)
  have fin: "Finished \<in> set (p_workers ?s) \<Longrightarrow> Finished \<in> set (p_workers s)"
    using set_update_subset_insert [of "p_workers s" t "Holding a"] by auto
  have uniq: "\<forall>u v b. held ?s u b \<and> held ?s v b \<longrightarrow> u = v"
    using I old unfolding pool_inv_def h by metis
  have own: "\<forall>u b. held ?s u b \<longrightarrow> b \<in> set (p_taken ?s) \<and> \<not> is_installed (p_inst ?s) b"
    using I n unfolding pool_inv_def h by auto
  have all: "\<forall>b \<in> set as. b \<in> set (p_taken ?s) \<or> b \<in> set (p_rest ?s) \<or> is_installed (p_inst ?s) b"
    using I e sk unfolding pool_inv_def by fastforce
  have "p_rest s \<noteq> []" using e by simp
  then show ?thesis using I e uniq own all fin unfolding pool_inv_def by auto
qed

lemma pool_inv_take_none:
  assumes I: "pool_inv as tot s" and t: "t < length (p_workers s)" "p_workers s ! t = Idle"
    and k: "pool_take (p_inst s) (p_rest s) = (None, r)"
  shows "pool_inv as tot (s\<lparr>p_rest := r, p_workers := (p_workers s)[t := Finished]\<rparr>)" (is "pool_inv as tot ?s")
proof -
  have sk: "\<forall>b \<in> set (p_rest s). is_installed (p_inst s) b" and r: "r = []" using pool_take_spec [OF k] by auto
  have h: "held ?s u b \<longleftrightarrow> held s u b" for u b using t by (auto simp: held_def nth_list_update)
  show ?thesis using I sk r unfolding pool_inv_def h by auto
qed

lemma pool_inv_install:
  assumes I: "pool_inv as tot s" and t: "t < length (p_workers s)" "p_workers s ! t = Holding a"
    and k: "install_file env a (p_inst s) = Inr st'"
  shows "pool_inv as tot (s\<lparr>p_workers := (p_workers s)[t := Idle], p_inst := st'\<rparr>)" (is "pool_inv as tot ?s")
proof -
  note c = install_file_counts [OF k]
  have a: "a \<in> set as" "held s t a" using I t by (auto simp: pool_inv_def held_def)
  have h: "held ?s u b \<longleftrightarrow> u \<noteq> t \<and> held s u b" for u b using t by (auto simp: held_def nth_list_update)
  have other: "u \<noteq> t \<Longrightarrow> held s u b \<Longrightarrow> b \<noteq> a" for u b using I a(2) unfolding pool_inv_def by metis
  have fin: "Finished \<in> set (p_workers ?s) \<Longrightarrow> Finished \<in> set (p_workers s)"
    using set_update_subset_insert [of "p_workers s" t Idle] by auto
  have sum: "i_installed st' + card (todo (set as) st') = tot"
    using counts_sum [OF c a(1)] I by (simp add: pool_inv_def)
  have keep: "\<forall>b. is_installed (p_inst s) b \<longrightarrow> is_installed st' b" using counts_installed(1) [OF c] by blast
  have free: "\<forall>u b. u \<noteq> t \<and> held s u b \<longrightarrow> \<not> is_installed st' b"
    using other counts_installed(2) [OF c] I unfolding pool_inv_def by metis
  show ?thesis using I fin sum keep free unfolding pool_inv_def h by simp blast
qed

lemma pool_inv_reach:
  assumes "(pool_step env)\<^sup>*\<^sup>* s0 s" "pool_inv as tot s0"
  shows "pool_inv as tot s"
  using assms
proof (induction rule: rtranclp_induct)
  case (step y z)
  then have "pool_inv as tot y" by blast
  with step(2) show ?case
    by cases (simp_all add: pool_inv_take_file pool_inv_take_none pool_inv_install)
qed

text \<open>
  C10: However the threads are scheduled, no file is handed out twice, no two threads hold the same file and a file that a
  thread holds is not installed yet, so the counter of installed files stays exact; when a thread has found nothing more
  to do, every file of the pool has been handed out or is installed.
\<close>

theorem worker_pool_safe:
  assumes "distinct as" and "(pool_step env)\<^sup>*\<^sup>* (pool_init n as st) s"
  shows "distinct (p_taken s)
    \<and> (\<forall>t u a. held s t a \<and> held s u a \<longrightarrow> t = u)
    \<and> (\<forall>t a. held s t a \<longrightarrow> \<not> is_installed (p_inst s) a)
    \<and> i_installed (p_inst s) + card (todo (set as) (p_inst s)) = i_installed st + card (todo (set as) st)
    \<and> (Finished \<in> set (p_workers s) \<longrightarrow> (\<forall>a \<in> set as. a \<in> set (p_taken s) \<or> is_installed (p_inst s) a))"
  using pool_inv_reach [OF assms(2) pool_inv_init [OF assms(1)]] unfolding pool_inv_def by auto

theorem worker_pool_safe_witness:
  "distinct (p_taken (pool_init 2 [0, 1] (sample_inst [0 \<mapsto> sample_file ''/a'' 0x2000, 1 \<mapsto> sample_file ''/b'' 0x2000] [])
     \<lparr>p_rest := [1], p_workers := [Holding 0, Idle], p_taken := [0]\<rparr>))"
proof -
  let ?st = "sample_inst [0 \<mapsto> sample_file ''/a'' 0x2000, 1 \<mapsto> sample_file ''/b'' 0x2000] []"
  have "pool_step sample_env (pool_init 2 [0, 1] ?st) ((pool_init 2 [0, 1] ?st)\<lparr>p_rest := [1],
      p_workers := (p_workers (pool_init 2 [0, 1] ?st))[0 := Holding 0], p_taken := p_taken (pool_init 2 [0, 1] ?st) @ [0]\<rparr>)"
    by (rule take_file) (simp_all add: pool_init_def is_installed_def sample_inst_def sample_file_def file0_def)
  then have "(pool_step sample_env)\<^sup>*\<^sup>* (pool_init 2 [0, 1] ?st)
      ((pool_init 2 [0, 1] ?st)\<lparr>p_rest := [1], p_workers := [Holding 0, Idle], p_taken := [0]\<rparr>)"
    by (simp add: pool_init_def numeral_2_eq_2 r_into_rtranclp)
  then show ?thesis using worker_pool_safe [of "[0, 1]" sample_env 2 ?st] by simp
qed

section \<open>Directories are created in one round\<close>

lemma set_insert_dir [simp]: "set (insert_dir d a xs) = insert a (set xs)"
  by (induction xs) auto

lemma set_sort_dirs [simp]: "set (sort_dirs d xs) = set xs"
  unfolding sort_dirs_def by (induction xs) auto

lemma insert_dir_sorted:
  "sorted_wrt (\<lambda>a b. length (d a) \<le> length (d b)) xs \<Longrightarrow> sorted_wrt (\<lambda>a b. length (d a) \<le> length (d b)) (insert_dir d a xs)"
  by (induction xs) (auto simp: compare_dir_order_def split: if_splits)

lemma sort_dirs_sorted: "sorted_wrt (\<lambda>a b. length (d a) \<le> length (d b)) (sort_dirs d xs)"
  unfolding sort_dirs_def by (induction xs) (auto intro: insert_dir_sorted)

lemma split_last_length: "split_last c p = Some (d, r) \<Longrightarrow> length p = length d + length r + 1"
  by (induction p arbitrary: d) (auto split: option.splits if_splits)

lemma parent_dir_shorter:
  assumes "split_last (CHR ''/'') p \<noteq> None" "length p > 1"
  shows "length (parent_dir p) < length p"
  using assms split_last_length by (fastforce simp: parent_dir_def split: option.splits)

text \<open>
  A list of directories that can be created: each has a path, is not installed, nothing but a directory is at its path,
  the kernel does not refuse it, and its parent is a directory of the destination or of the list.
\<close>

definition dir_ready :: "inst_env \<Rightarrow> inst_state \<Rightarrow> nat set \<Rightarrow> nat \<Rightarrow> bool" where
  "dir_ready env st ds a =
     (case i_files st a of
        None \<Rightarrow> False
      | Some f \<Rightarrow>
          file_kind f = S_IFDIR \<and> \<not> f_installed f
          \<and> (case install_path env f of
               Inl _ \<Rightarrow> False
             | Inr p \<Rightarrow>
                 length p > 1 \<and> split_last (CHR ''/'') p \<noteq> None \<and> (node_at st p = None \<or> node_at st p = Some NDir)
                 \<and> e_create env p = None
                 \<and> (node_at st (parent_dir p) = Some NDir
                    \<or> (\<exists>b \<in> ds. destdir (e_conf env) @ dst_path st b = parent_dir p))))"

definition dir_path :: "inst_env \<Rightarrow> inst_state \<Rightarrow> nat \<Rightarrow> string" where
  "dir_path env st a = destdir (e_conf env) @ dst_path st a"

lemma install_path_dir_path: "i_files st a = Some f \<Longrightarrow> install_path env f = Inr p \<Longrightarrow> p = dir_path env st a"
  by (auto simp: install_path_def dir_path_def dst_path_def split: if_splits option.splits)

lemma dir_readyE:
  assumes "dir_ready env st ds a"
  obtains f where "i_files st a = Some f" "file_kind f = S_IFDIR" "\<not> f_installed f" "install_path env f = Inr (dir_path env st a)"
    "node_at st (dir_path env st a) = None \<or> node_at st (dir_path env st a) = Some NDir" "e_create env (dir_path env st a) = None"
    "length (parent_dir (dir_path env st a)) < length (dir_path env st a)"
    "node_at st (parent_dir (dir_path env st a)) = Some NDir \<or> (\<exists>b \<in> ds. dir_path env st b = parent_dir (dir_path env st a))"
proof -
  obtain f where f: "i_files st a = Some f" using assms by (cases "i_files st a") (simp_all add: dir_ready_def)
  obtain p where p: "install_path env f = Inr p" using assms f by (cases "install_path env f") (simp_all add: dir_ready_def)
  have e: "p = dir_path env st a" by (rule install_path_dir_path [OF f p])
  note r = assms [unfolded dir_ready_def f option.case p sum.case, folded dir_path_def]
  have "length (parent_dir p) < length p" using r parent_dir_shorter by metis
  then show ?thesis using that f p r unfolding e by metis
qed

text \<open>What is kept while the directories are created: only directories of the list are added and marked.\<close>

definition dirs_kept :: "inst_env \<Rightarrow> inst_state \<Rightarrow> nat set \<Rightarrow> inst_state \<Rightarrow> bool" where
  "dirs_kept env st0 made st \<longleftrightarrow>
     (\<forall>p. node_at st p = (if p \<in> dir_path env st0 ` made then Some NDir else node_at st0 p))
     \<and> (\<forall>a. i_files st a = (if a \<in> made then map_option (\<lambda>f. f\<lparr>f_installed := True\<rparr>) (i_files st0 a) else i_files st0 a))"

lemma install_dir_step:
  assumes k: "dirs_kept env st0 made st" and r: "dir_ready env st0 ds a" and new: "a \<notin> made"
    and par: "node_at st (parent_dir (dir_path env st0 a)) = Some NDir"
  shows "\<exists>st'. install_file env a st = Inr st' \<and> dirs_kept env st0 (insert a made) st'"
proof -
  obtain f where f: "i_files st0 a = Some f" "file_kind f = S_IFDIR" "\<not> f_installed f" and
    p: "install_path env f = Inr (dir_path env st0 a)" and
    n: "node_at st0 (dir_path env st0 a) = None \<or> node_at st0 (dir_path env st0 a) = Some NDir" "e_create env (dir_path env st0 a) = None"
    using dir_readyE [OF r] by metis
  let ?p = "dir_path env st0 a"
  have fa: "i_files st a = Some f" using k new f by (simp add: dirs_kept_def)
  have run: "install_file env a st = install_result a st (create_node (e_create env) env ?p NDir st)"
    using fa f p by (simp add: install_file_def force_remove_def install_kind_def Let_def)
  have de: "dir_error env ?p st = None" using par by (simp add: dir_error_def)
  show ?thesis
  proof (cases "node_at st ?p")
    case None
    then have "install_file env a st = Inr (install_end a (st\<lparr>i_dest := (?p, NDir) # i_dest st\<rparr>))"
      using run de n by (simp add: create_node_def install_result_def)
    then show ?thesis using k f(1) new by (auto simp: dirs_kept_def install_end_def)
  next
    case (Some x)
    have x: "x = NDir" using Some k n by (auto simp: dirs_kept_def split: if_splits)
    have "install_file env a st = Inr (install_end a st)" using run de Some by (simp add: create_node_def install_result_def)
    then show ?thesis using k f(1) new Some x by (auto simp: dirs_kept_def install_end_def)
  qed
qed

lemma install_dirs_rest:
  assumes sorted: "sorted_wrt (\<lambda>a b. length (dst_path st0 a) \<le> length (dst_path st0 b)) (pre @ post)"
    and ready: "\<forall>a \<in> set (pre @ post). dir_ready env st0 (set (pre @ post)) a"
    and k: "dirs_kept env st0 (set pre) st"
  shows "\<exists>st'. install_each (install_file env) post st = Inr st' \<and> dirs_kept env st0 (set (pre @ post)) st'"
  using assms
proof (induction post arbitrary: pre st)
  case Nil
  then show ?case by (simp add: install_each_def)
next
  case (Cons a post)
  let ?p = "dir_path env st0 a"
  have "dir_ready env st0 (set (pre @ a # post)) a" using Cons.prems(2) by simp
  then obtain f where f: "i_files st0 a = Some f" "\<not> f_installed f" and len: "length (parent_dir ?p) < length ?p"
    and par: "node_at st0 (parent_dir ?p) = Some NDir \<or> (\<exists>b \<in> set (pre @ a # post). dir_path env st0 b = parent_dir ?p)"
    by (rule dir_readyE)
  have step: "\<exists>s. (if is_installed st a then Inr st else install_file env a st) = Inr s \<and> dirs_kept env st0 (set (pre @ [a])) s"
  proof (cases "a \<in> set pre")
    case True
    then have "is_installed st a" using Cons.prems(3) f by (simp add: dirs_kept_def is_installed_def)
    then show ?thesis using Cons.prems(3) True by (simp add: insert_absorb)
  next
    case False
    have ni: "\<not> is_installed st a" using Cons.prems(3) f False by (simp add: dirs_kept_def is_installed_def)
    have "b \<in> set pre" if "b \<in> set (pre @ a # post)" "dir_path env st0 b = parent_dir ?p" for b
    proof -
      have "length (dst_path st0 b) < length (dst_path st0 a)" using len that(2) by (metis dir_path_def length_append add_less_cancel_left)
      then show ?thesis using that(1) Cons.prems(1) by (auto simp: sorted_wrt_append)
    qed
    then have "node_at st (parent_dir ?p) = Some NDir"
      using par Cons.prems(3) unfolding dirs_kept_def by (metis imageI)
    then show ?thesis using install_dir_step [OF Cons.prems(3) _ False] Cons.prems(2) ni by (auto simp: Un_insert_right)
  qed
  then obtain s where s: "(if is_installed st a then Inr st else install_file env a st) = Inr s" "dirs_kept env st0 (set (pre @ [a])) s"
    by blast
  obtain st' where "install_each (install_file env) post s = Inr st'" "dirs_kept env st0 (set ((pre @ [a]) @ post)) st'"
    using Cons.IH [of "pre @ [a]" s] Cons.prems(1,2) s(2) by auto
  then show ?case using s(1) by (auto simp: install_each_def)
qed

text \<open>
  C11: Sorted by the length of their paths, the directories are created in a single round, in whatever order the tree
  held them: when each can be created and its parent is a directory of the destination or in the list, the first step
  of the round ends without an error, every directory of the list is marked and is a directory of the destination.
\<close>

theorem install_dirs_one_round:
  assumes "\<forall>a \<in> set ds. dir_ready env st (set ds) a"
  shows "\<exists>st'. install_each (install_file env) (sort_dirs (dst_path st) ds) st = Inr st'
    \<and> (\<forall>a \<in> set ds. is_installed st' a \<and> node_at st' (destdir (e_conf env) @ dst_path st a) = Some NDir)"
proof -
  let ?ds = "sort_dirs (dst_path st) ds"
  have "dirs_kept env st (set []) st" by (simp add: dirs_kept_def)
  then obtain st' where r: "install_each (install_file env) ?ds st = Inr st'" and k: "dirs_kept env st (set ?ds) st'"
    using install_dirs_rest [of st "[]" ?ds env st] sort_dirs_sorted assms by (auto simp: sort_dirs_sorted)
  have "is_installed st' a \<and> node_at st' (dir_path env st a) = Some NDir" if a: "a \<in> set ds" for a
  proof -
    obtain f where "i_files st a = Some f" using assms a dir_readyE by metis
    then show ?thesis using k a by (simp add: dirs_kept_def is_installed_def)
  qed
  then show ?thesis using r by (auto simp: dir_path_def)
qed

theorem install_dirs_one_round_witness:
  "\<exists>st'. install_each (install_file sample_env)
      (sort_dirs (dst_path (sample_inst [0 \<mapsto> sample_file ''/a/b'' 0x41ED, 1 \<mapsto> sample_file ''/a'' 0x41ED] [(''/dest'', NDir)])) [0, 1])
      (sample_inst [0 \<mapsto> sample_file ''/a/b'' 0x41ED, 1 \<mapsto> sample_file ''/a'' 0x41ED] [(''/dest'', NDir)]) = Inr st'
    \<and> is_installed st' 0 \<and> is_installed st' 1"
proof -
  let ?st = "sample_inst [0 \<mapsto> sample_file ''/a/b'' 0x41ED, 1 \<mapsto> sample_file ''/a'' 0x41ED] [(''/dest'', NDir)]"
  have "\<forall>a \<in> set [0, 1]. dir_ready sample_env ?st (set [0, 1]) a"
    by (simp add: dir_ready_def sample_simps parent_dir_def dst_path_def)
  from install_dirs_one_round [OF this] show ?thesis by auto
qed

text \<open>
  C35: A device node is created with the number of the device that holds the source (\<open>st_dev\<close>), not with the number of the
  device the source stands for (\<open>st_rdev\<close>): whenever the two differ, the installed node is another device.
\<close>

theorem device_node_number:
  assumes "i_files st a = Some f" "\<not> f_installed f" "file_kind f = S_IFBLK \<or> file_kind f = S_IFCHR"
    and "install_path env f = Inr p" "force (e_conf env) = False"
    and "dir_error env p st = None" "node_at st p = None" "e_create env p = None"
    and "st_rdev (f_stat f) \<noteq> st_dev (f_stat f)"
  shows "\<exists>st'. install_file env a st = Inr st' \<and> node_at st' p = Some (NDev (st_mode (f_stat f)) (st_dev (f_stat f)))
    \<and> node_at st' p \<noteq> Some (NDev (st_mode (f_stat f)) (st_rdev (f_stat f)))"
proof -
  have "file_kind f \<noteq> S_IFDIR" using assms(3) by (auto simp: S_IFDIR_def S_IFBLK_def S_IFCHR_def)
  then have "install_file env a st = Inr (install_end a (st\<lparr>i_dest := (p, NDev (st_mode (f_stat f)) (st_dev (f_stat f))) # i_dest st\<rparr>))"
    using assms by (simp add: install_file_def force_remove_def install_kind_def install_result_def create_node_def Let_def)
  then show ?thesis using assms(9) by (simp add: install_end_def)
qed

theorem device_node_number_witness:
  "\<exists>st'. install_file sample_env 0 (sample_inst [0 \<mapsto> sample_file ''/a'' 0x2000] [(''/dest'', NDir)]) = Inr st'
    \<and> node_at st' ''/dest/a'' = Some (NDev 0x2000 5)"
  using device_node_number [of "sample_inst [0 \<mapsto> sample_file ''/a'' 0x2000] [(''/dest'', NDir)]" 0 "sample_file ''/a'' 0x2000"
      sample_env "''/dest/a''"]
  by (auto simp: sample_simps dir_error_def parent_dir_def)



section \<open>Hard links\<close>

interpretation inode_order: comparator compare_hardlink_entry
proof
  fix a b c :: "u64 \<times> u64"
  show "compare_hardlink_entry a b = 0 \<longleftrightarrow> a = b" by (cases a; cases b) auto
  show "compare_hardlink_entry a b < 0 \<longleftrightarrow> 0 < compare_hardlink_entry b a" by (cases a; cases b) auto
  show "compare_hardlink_entry a b < 0 \<Longrightarrow> compare_hardlink_entry b c < 0 \<Longrightarrow> compare_hardlink_entry a c < 0"
    by (cases a; cases b; cases c) (auto split: if_splits)
qed

definition inode_of :: "inst_state \<Rightarrow> nat \<Rightarrow> (u64 \<times> u64) option" where
  "inode_of st a = map_option (\<lambda>f. (st_dev (f_stat f), st_ino (f_stat f))) (i_files st a)"

definition link_target :: "inst_state \<Rightarrow> nat \<Rightarrow> nat option" where
  "link_target st a = Option.bind (i_files st a) f_hardlink_target"

definition class_inv :: "inst_state \<Rightarrow> nat list \<Rightarrow> inst_state \<times> file_collector \<Rightarrow> bool" where
  "class_inv st0 seen sc =
     (case sc of (st, c) \<Rightarrow>
        tree_sorted compare_hardlink_entry fst (hardlinks_root c)
        \<and> (\<forall>(k, b) \<in> set (hardlinks_root c). b \<in> set (non_dirs c) \<and> inode_of st0 b = Some k)
        \<and> (\<forall>a \<in> set (hardlinks c). \<exists>b. link_target st a = Some b \<and> b \<in> set (non_dirs c) \<and> inode_of st0 a = inode_of st0 b)
        \<and> mset (dirs c @ non_dirs c @ hardlinks c) = mset seen
        \<and> (\<forall>a. map_option f_stat (i_files st a) = map_option f_stat (i_files st0 a)))"

lemma inode_of_stat: "map_option f_stat (i_files st a) = map_option f_stat (i_files st0 a) \<Longrightarrow> inode_of st0 a = inode_of st a"
  by (cases "i_files st a"; cases "i_files st0 a") (simp_all add: inode_of_def)

lemma inode_hit:
  assumes "tree_sorted compare_hardlink_entry fst t" and "(k, b) \<in> set t"
  shows "tsearch compare_hardlink_entry fst (k, a) t = ((k, b), t)"
proof (rule prod_eqI)
  show "fst (tsearch compare_hardlink_entry fst (k, a) t) = fst ((k, b), t)"
    using inode_order.tsearch_result(2) [OF assms] by simp
  show "snd (tsearch compare_hardlink_entry fst (k, a) t) = snd ((k, b), t)"
    using inode_order.tsearch_found [OF assms] by simp
qed

lemma classify_step:
  assumes I: "class_inv st0 seen (st, c)" and new: "a \<notin> set seen" and f0: "i_files st0 a \<noteq> None"
  shows "class_inv st0 (seen @ [a]) (classify_file a (st, c))"
proof -
  note I' = I [unfolded class_inv_def prod.case]
  obtain f where f: "i_files st a = Some f" using I' f0 by (metis not_None_eq option.map_disc_iff)
  let ?k = "(st_dev (f_stat f), st_ino (f_stat f))"
  have k: "inode_of st0 a = Some ?k" 
  proof -
    have "inode_of st0 a = inode_of st a" by (rule inode_of_stat) (use I' in blast)
    then show ?thesis using f by (simp add: inode_of_def)
  qed
  have set_seen: "set seen = set (dirs c) \<union> set (non_dirs c) \<union> set (hardlinks c)"
    using I' by (metis set_append set_mset_mset sup_assoc)
  consider (dir) "file_kind f = S_IFDIR" | (link) "file_kind f \<noteq> S_IFDIR" "file_kind f = S_IFREG \<and> st_nlink (f_stat f) > 1"
    | (other) "file_kind f \<noteq> S_IFDIR" "\<not> (file_kind f = S_IFREG \<and> st_nlink (f_stat f) > 1)" by blast
  then show ?thesis
  proof cases
    case dir
    then show ?thesis using I' f by (simp add: classify_file_def class_inv_def)
  next
    case other
    then show ?thesis using I' f by (simp add: classify_file_def class_inv_def) fastforce
  next
    case link
    show ?thesis
    proof (cases "\<exists>b. (?k, b) \<in> set (hardlinks_root c)")
      case True
      then obtain b where b: "(?k, b) \<in> set (hardlinks_root c)" by blast
      have o: "tsearch compare_hardlink_entry fst (?k, a) (hardlinks_root c) = ((?k, b), hardlinks_root c)"
        using inode_hit [OF _ b] I' by blast
      have bn: "b \<in> set (non_dirs c)" "inode_of st0 b = Some ?k" using I' b by auto
      have ne: "b \<noteq> a" using bn new set_seen by auto
      let ?st = "st\<lparr>i_files := (i_files st)(a \<mapsto> f\<lparr>f_hardlink_target := Some b\<rparr>)\<rparr>"
      have run: "classify_file a (st, c) = (?st, c\<lparr>hardlinks := hardlinks c @ [a]\<rparr>)"
        using f link o ne by (simp add: classify_file_def)
      have lt: "link_target ?st x = (if x = a then Some b else link_target st x)" for x by (simp add: link_target_def)
      have old: "x \<in> set (hardlinks c) \<Longrightarrow> x \<noteq> a" for x using new set_seen by auto
      have st: "map_option f_stat (i_files ?st x) = map_option f_stat (i_files st0 x)" for x
        using I' f by (cases "x = a") (auto, metis option.simps(9))
      show ?thesis unfolding run class_inv_def prod.case using I' lt old bn k st by simp
    next
      case False
      have o: "fst (tsearch compare_hardlink_entry fst (?k, a) (hardlinks_root c)) = (?k, a)"
        by (rule inode_order.tsearch_result(1)) (use I' False in force)+
      obtain t where t: "tsearch compare_hardlink_entry fst (?k, a) (hardlinks_root c) = ((?k, a), t)"
        using o by (metis prod.collapse)
      have ts: "tree_sorted compare_hardlink_entry fst t" "set t \<subseteq> insert (?k, a) (set (hardlinks_root c))"
        using inode_order.tsearch_sorted [of fst "hardlinks_root c" "(?k, a)"]
          inode_order.tsearch_set [of fst "hardlinks_root c" "(?k, a)"] I' t by (auto split: if_splits)
      have run: "classify_file a (st, c) = (st, c\<lparr>hardlinks_root := t, non_dirs := non_dirs c @ [a]\<rparr>)"
        using f link t by (simp add: classify_file_def)
      show ?thesis unfolding run class_inv_def prod.case using I' ts k by simp fastforce
    qed
  qed
qed

lemma classify_fold:
  assumes "distinct (seen @ as)" "\<forall>a \<in> set as. i_files st0 a \<noteq> None" "class_inv st0 seen sc"
  shows "class_inv st0 (seen @ as) (fold classify_file as sc)"
  using assms
proof (induction as arbitrary: seen sc)
  case (Cons a as)
  have "class_inv st0 (seen @ [a]) (classify_file a sc)"
    using classify_step [of st0 seen "fst sc" "snd sc" a] Cons.prems by simp
  then show ?case using Cons.IH [of "seen @ [a]"] Cons.prems by simp
qed simp

text \<open>
  C21: Classifying puts every file of the tree into exactly one of the three lists, and every file in the list of hard links
  names as its target a file of the list of other files that has the same device and inode number.
\<close>

theorem classify_partitions:
  assumes "distinct as" and "\<forall>a \<in> set as. i_files st a \<noteq> None" and "fold classify_file as (st, collector0) = (st', c)"
  shows "mset (dirs c @ non_dirs c @ hardlinks c) = mset as
    \<and> (\<forall>a \<in> set (hardlinks c). \<exists>b. link_target st' a = Some b \<and> b \<in> set (non_dirs c) \<and> inode_of st a = inode_of st b)"
proof -
  have "class_inv st [] (st, collector0)" by (simp add: class_inv_def collector0_def tree_sorted_def)
  then have "class_inv st as (st', c)" using classify_fold [of "[]" as st "(st, collector0)"] assms by simp
  then show ?thesis unfolding class_inv_def prod.case by blast
qed

theorem classify_partitions_witness:
  "link_target (fst (fold classify_file [0, 1] (sample_inst [0 \<mapsto> sample_file ''/a'' 0x8000, 1 \<mapsto> sample_file ''/b'' 0x8000] [], collector0))) 1 = Some 0
   \<and> mset (non_dirs (snd (fold classify_file [0, 1] (sample_inst [0 \<mapsto> sample_file ''/a'' 0x8000, 1 \<mapsto> sample_file ''/b'' 0x8000] [], collector0)))
        @ [1]) = mset [0, 1]"
proof -
  let ?st = "sample_inst [0 \<mapsto> sample_file ''/a'' 0x8000, 1 \<mapsto> sample_file ''/b'' 0x8000] []"
  let ?r = "fold classify_file [0, 1] (?st, collector0)"
  have c: "dirs (snd ?r) = []" "non_dirs (snd ?r) = [0]" "hardlinks (snd ?r) = [1]"
    by (simp_all add: classify_file_def collector0_def sample_simps)
  have "\<forall>a \<in> set [0, 1]. i_files ?st a \<noteq> None" by (simp add: sample_inst_def)
  from classify_partitions [OF _ this, of "fst ?r" "snd ?r"] c show ?thesis by auto
qed

end
