(* ===== verification/Ueventd.thy ===== *)
theory Ueventd
  imports CLib
begin

text \<open>
  The daemon \<open>ueventd\<close> (\<open>features/runtime/src/ueventd\<close>): the list of watched directories, pausing of queues, timer
  queues, the handlers of its four file descriptors, a turn of its main loop, and the worker process that hands the
  events of a queue to the handler program. What the kernel and other processes do is a record of answers that every
  call gets anew; \<open>rd_fatal\<close> and \<open>exit\<close> are errors.
\<close>

section \<open>Watches and the state\<close>

definition F_ROOT_DIR :: u32 where "F_ROOT_DIR = 1"
definition F_QUEUE_DIR :: u32 where "F_QUEUE_DIR = 2"
definition F_PAUSE_DIR :: u32 where "F_PAUSE_DIR = 4"
definition F_DIRTY :: u32 where "F_DIRTY = 8"
definition F_PAUSED :: u32 where "F_PAUSED = 16"
definition F_TIMER_ROOT :: u32 where "F_TIMER_ROOT = 32"
definition F_TIMER_DIR :: u32 where "F_TIMER_DIR = 64"

definition IN_CREATE :: u32 where "IN_CREATE = 0x100"
definition IN_DELETE :: u32 where "IN_DELETE = 0x200"
definition IN_DELETE_SELF :: u32 where "IN_DELETE_SELF = 0x400"
definition IN_CLOSE_WRITE :: u32 where "IN_CLOSE_WRITE = 8"
definition IN_MOVED_TO :: u32 where "IN_MOVED_TO = 0x80"
definition IN_ONLYDIR :: u32 where "IN_ONLYDIR = 0x1000000"
definition IN_MASK_CREATE :: u32 where "IN_MASK_CREATE = 0x10000000"

definition EV_PAUSE_MASK :: u32 where "EV_PAUSE_MASK = IN_CREATE OR IN_DELETE OR IN_ONLYDIR"
definition EV_ROOT_MASK :: u32 where "EV_ROOT_MASK = IN_CREATE OR IN_ONLYDIR"
definition EV_QUEUE_MASK :: u32 where "EV_QUEUE_MASK = IN_CLOSE_WRITE OR IN_MOVED_TO OR IN_DELETE_SELF"
definition EV_TIMER_MASK :: u32 where "EV_TIMER_MASK = IN_CLOSE_WRITE OR IN_MOVED_TO OR IN_DELETE_SELF"

definition has_flag :: "u32 \<Rightarrow> u32 \<Rightarrow> bool" where
  "has_flag w f \<longleftrightarrow> w AND f \<noteq> 0"

record watch =
  q_flags :: u32
  q_watchfd :: int
  q_parentfd :: int
  q_ino :: u64
  q_pid :: int
  q_name :: string

text \<open>
  The variables of the program; the watch descriptors that were given back to the kernel and the time the timer is set
  to (0 when it is off) are what the calls left behind.
\<close>

record ued =
  watch_list :: "watch list"
  pause_all :: bool
  dirty_queues :: int
  timer_changed :: bool
  session :: u64
  rm_watches :: "int list"
  timer_at :: int

datatype dtype = DT_DIR | DT_REG | DT_UNKNOWN
type_synonym dirent = "string \<times> dtype"

datatype add_result = Watched int | AlreadyWatched | AddFails
datatype rename_result = Renamed | SourceGone | RenameFails

record uworld =
  u_readdir :: "string \<Rightarrow> dirent list option"
  u_add_watch :: "string \<Rightarrow> u32 \<Rightarrow> add_result"
  u_stat :: "string \<Rightarrow> u64 option"
  u_mkdir_fails :: "string \<Rightarrow> bool"
  u_rename :: "string \<Rightarrow> string \<Rightarrow> rename_result"
  u_now :: "u64 option"
  u_settime_ok :: "int \<Rightarrow> bool"
  u_fork :: "u64 \<Rightarrow> int"

text \<open>The environment variables and the write end of the pipe.\<close>

record uconf =
  filter_dir :: string
  timer_dir :: string
  uevent_dir :: string
  uevent_confdb :: string
  pipe_write :: int

datatype ued_error = Fatal string | ExitFailure

section \<open>Directories\<close>

definition is_dot_dir :: "dirent \<Rightarrow> bool" where
  "is_dot_dir e \<longleftrightarrow> snd e = DT_DIR \<and> (fst e = ''.'' \<or> fst e = ''..'')"

definition xopendir :: "uworld \<Rightarrow> string \<Rightarrow> ued_error + dirent list" where
  "xopendir w path = (case u_readdir w path of None \<Rightarrow> Inl (Fatal ''opendir'') | Some es \<Rightarrow> Inr es)"

fun no_visible :: "dirent list \<Rightarrow> bool" where
  "no_visible [] = True"
| "no_visible (e # es) = (if fst e = [] \<or> hd (fst e) \<noteq> CHR ''.'' then False else no_visible es)"

definition empty_directory :: "uworld \<Rightarrow> string \<Rightarrow> ued_error + bool" where
  "empty_directory w path = bind_res (xopendir w path) (\<lambda>es. Inr (no_visible es))"

section \<open>Watching paths\<close>

definition queue_path :: "string \<Rightarrow> string \<Rightarrow> string" where
  "queue_path dir name = dir @ ''/'' @ name"

definition add_queue_dir :: "uworld \<Rightarrow> string \<Rightarrow> u32 \<Rightarrow> int" where
  "add_queue_dir w path evmask =
     (case u_add_watch w path (evmask OR IN_MASK_CREATE) of Watched wd \<Rightarrow> wd | AlreadyWatched \<Rightarrow> - 128 | AddFails \<Rightarrow> - 1)"

definition watch_path :: "uworld \<Rightarrow> uconf \<Rightarrow> string \<Rightarrow> string \<Rightarrow> u32 \<Rightarrow> u32 \<Rightarrow> ued \<Rightarrow> ued_error + int \<times> ued" where
  "watch_path w c dir name evmask flags st =
     (let path = queue_path dir name; wfd = add_queue_dir w path evmask
      in if wfd < 0 then Inr (if wfd = - 128 then 0 else wfd, st)
         else case u_stat w path of
                None \<Rightarrow> Inr (- 1, st\<lparr>rm_watches := wfd # rm_watches st\<rparr>)
              | Some ino \<Rightarrow>
                  bind_res (if has_flag flags F_QUEUE_DIR then map_sum id Not (empty_directory w path) else Inr False) (\<lambda>dirty.
                  bind_res (if has_flag flags F_TIMER_DIR then map_sum id Not (empty_directory w path) else Inr False) (\<lambda>timer.
                    let f1 = (if dirty then flags OR F_DIRTY else flags);
                        f2 = (if pause_all st then f1 OR F_PAUSED else f1);
                        new = \<lparr>q_flags = f2, q_watchfd = wfd, q_parentfd = (if has_flag flags F_QUEUE_DIR then pipe_write c else 0),
                               q_ino = ino, q_pid = 0, q_name = name\<rparr>
                    in Inr (0, st\<lparr>watch_list := new # watch_list st,
                                  dirty_queues := dirty_queues st + (if dirty then 1 else 0),
                                  timer_changed := timer_changed st \<or> timer\<rparr>))))"

text \<open>The first element with that inode is unlinked and its watch descriptor given back.\<close>

fun unlink_watch :: "u64 \<Rightarrow> watch list \<Rightarrow> watch list \<times> int list" where
  "unlink_watch ino [] = ([], [])"
| "unlink_watch ino (e # es) =
     (if q_ino e = ino then (es, [q_watchfd e])
      else case unlink_watch ino es of (es', r) \<Rightarrow> (e # es', r))"

definition unwatch_path :: "u64 \<Rightarrow> ued \<Rightarrow> ued" where
  "unwatch_path ino st =
     (case unlink_watch ino (watch_list st) of (ws, r) \<Rightarrow> st\<lparr>watch_list := ws, rm_watches := r @ rm_watches st\<rparr>)"

definition pause_dir :: "uconf \<Rightarrow> string" where
  "pause_dir c = uevent_confdb c @ ''/queue/pause''"

definition watch_pauses :: "uworld \<Rightarrow> uconf \<Rightarrow> ued \<Rightarrow> ued_error + ued" where
  "watch_pauses w c st =
     bind_res (watch_path w c (pause_dir c) ''.'' EV_PAUSE_MASK F_PAUSE_DIR st) (\<lambda>(r, st').
     if r < 0 then Inl ExitFailure else Inr st')"

definition set_flag :: "u32 \<Rightarrow> watch \<Rightarrow> watch" where
  "set_flag f p = p\<lparr>q_flags := q_flags p OR f\<rparr>"

definition clear_flag :: "u32 \<Rightarrow> watch \<Rightarrow> watch" where
  "clear_flag f p = p\<lparr>q_flags := q_flags p AND NOT f\<rparr>"

text \<open>The loop of \<open>apply_pause\<close> over the entries; it ends early at \<open>.all\<close>.\<close>

fun pause_entries :: "dirent list \<Rightarrow> watch list \<Rightarrow> bool \<times> watch list" where
  "pause_entries [] ws = (False, ws)"
| "pause_entries (e # es) ws =
     (if snd e \<noteq> DT_DIR \<or> is_dot_dir e then pause_entries es ws
      else let all = (fst e = ''.all'');
               ws' = map (\<lambda>p. if has_flag (q_flags p) F_QUEUE_DIR \<and> (all \<or> fst e = q_name p) then set_flag F_PAUSED p else p) ws
           in if all then (True, ws') else pause_entries es ws')"

definition apply_pause :: "uworld \<Rightarrow> uconf \<Rightarrow> ued \<Rightarrow> ued_error + ued" where
  "apply_pause w c st =
     bind_res (xopendir w (pause_dir c)) (\<lambda>es.
       case pause_entries es (map (clear_flag F_PAUSED) (watch_list st)) of
         (all, ws) \<Rightarrow> Inr (st\<lparr>pause_all := all, watch_list := ws\<rparr>))"

definition watch_each :: "uworld \<Rightarrow> uconf \<Rightarrow> string \<Rightarrow> u32 \<Rightarrow> u32 \<Rightarrow> ued \<Rightarrow> ued_error + ued" where
  "watch_each w c dir evmask flags st =
     bind_res (xopendir w dir) (\<lambda>es.
       fold_res (\<lambda>e s. if snd e \<noteq> DT_DIR \<or> is_dot_dir e then Inr s
                       else bind_res (watch_path w c dir (fst e) evmask flags s) (\<lambda>(r, s').
                              if r < 0 then Inl (Fatal ''unable to start watching'') else Inr s')) es st)"

definition watch_queues :: "uworld \<Rightarrow> uconf \<Rightarrow> ued \<Rightarrow> ued_error + ued" where
  "watch_queues w c = watch_each w c (filter_dir c) EV_QUEUE_MASK F_QUEUE_DIR"

definition watch_timer_queues :: "uworld \<Rightarrow> uconf \<Rightarrow> ued \<Rightarrow> ued_error + ued" where
  "watch_timer_queues w c = watch_each w c (timer_dir c) EV_TIMER_MASK F_TIMER_DIR"

definition is_queue :: "string \<Rightarrow> watch \<Rightarrow> bool" where
  "is_queue name p \<longleftrightarrow> has_flag (q_flags p) F_QUEUE_DIR \<and> q_name p = name"

definition find_queue_watch :: "string \<Rightarrow> ued \<Rightarrow> watch option" where
  "find_queue_watch name st = find (is_queue name) (watch_list st)"

text \<open>A pointer to a watch is the first element of the list for which a test holds.\<close>

fun mark_first :: "(watch \<Rightarrow> bool) \<Rightarrow> watch list \<Rightarrow> int \<Rightarrow> watch list \<times> int" where
  "mark_first P [] n = ([], n)"
| "mark_first P (p # ps) n =
     (if P p
      then (if has_flag (q_flags p) F_DIRTY then (p # ps, n) else (set_flag F_DIRTY p # ps, n + 1))
      else case mark_first P ps n of (ps', n') \<Rightarrow> (p # ps', n'))"

definition mark_queue_dirty :: "(watch \<Rightarrow> bool) \<Rightarrow> ued \<Rightarrow> ued" where
  "mark_queue_dirty P st =
     (case mark_first P (watch_list st) (dirty_queues st) of (ws, n) \<Rightarrow> st\<lparr>watch_list := ws, dirty_queues := n\<rparr>)"

section \<open>Timers\<close>

definition parse_timer_due :: "string \<Rightarrow> u64" where
  "parse_timer_due name =
     (case strtoul name 10 of (due, rest, erange) \<Rightarrow>
        if erange \<or> rest = [] \<or> hd rest \<noteq> CHR ''.'' \<or> rest = name then 0 else due)"

definition ensure_queue_dir :: "uworld \<Rightarrow> uconf \<Rightarrow> string \<Rightarrow> ued \<Rightarrow> ued_error + ued" where
  "ensure_queue_dir w c name st =
     (let path = queue_path (filter_dir c) name
      in if u_mkdir_fails w path \<or> u_mkdir_fails w (path @ ''/.tmp'') then Inl (Fatal ''mkdir'')
         else if find_queue_watch name st \<noteq> None then Inr st
         else bind_res (watch_path w c (filter_dir c) name EV_QUEUE_MASK F_QUEUE_DIR st) (\<lambda>(r, st').
                if r < 0 then Inl (Fatal ''unable to start watching'') else Inr st'))"

definition move_timer_event :: "uworld \<Rightarrow> uconf \<Rightarrow> string \<Rightarrow> string \<Rightarrow> string \<Rightarrow> ued \<Rightarrow> ued_error + ued" where
  "move_timer_event w c queue_name qpath timer_name st =
     (case split_first (CHR ''.'') timer_name of
        None \<Rightarrow> Inr st
      | Some (_, event_name) \<Rightarrow>
          if event_name = [] then Inr st
          else bind_res (ensure_queue_dir w c queue_name st) (\<lambda>st'.
                 case u_rename w (queue_path qpath timer_name) (queue_path (queue_path (filter_dir c) queue_name) event_name) of
                   Renamed \<Rightarrow> Inr (mark_queue_dirty (is_queue queue_name) st')
                 | _ \<Rightarrow> Inr st'))"

text \<open>The inner loop of \<open>update_timerfd\<close>: the earliest time to come and the events that are due.\<close>

definition timer_entry :: "uworld \<Rightarrow> uconf \<Rightarrow> u64 \<Rightarrow> string \<Rightarrow> string \<Rightarrow> dirent \<Rightarrow> u64 \<times> ued \<Rightarrow> ued_error + u64 \<times> ued" where
  "timer_entry w c now queue_name qpath e ns =
     (case ns of (nxt, st) \<Rightarrow>
        if (fst e \<noteq> [] \<and> hd (fst e) = CHR ''.'') \<or> snd e \<noteq> DT_REG then Inr (nxt, st)
        else let due = parse_timer_due (fst e)
             in if due = 0 then Inr (nxt, st)
                else if due > now then Inr (if due < nxt then due else nxt, st)
                else map_sum id (Pair nxt) (move_timer_event w c queue_name qpath (fst e) st))"

definition timer_queue :: "uworld \<Rightarrow> uconf \<Rightarrow> u64 \<Rightarrow> dirent \<Rightarrow> u64 \<times> ued \<Rightarrow> ued_error + u64 \<times> ued" where
  "timer_queue w c now e ns =
     (if snd e \<noteq> DT_DIR \<or> is_dot_dir e then Inr ns
      else let qpath = queue_path (timer_dir c) (fst e)
           in bind_res (xopendir w qpath) (\<lambda>es. fold_res (timer_entry w c now (fst e) qpath) es ns))"

definition update_timerfd :: "uworld \<Rightarrow> uconf \<Rightarrow> ued \<Rightarrow> ued_error + ued" where
  "update_timerfd w c st =
     (case u_now w of
        None \<Rightarrow> Inl (Fatal ''clock_gettime'')
      | Some now \<Rightarrow>
          bind_res (xopendir w (timer_dir c)) (\<lambda>es.
          bind_res (fold_res (timer_queue w c now) es (- 1, st)) (\<lambda>(nxt, st').
            let sec = (if nxt \<noteq> - 1 then sint nxt else 0)
            in if \<not> u_settime_ok w sec then Inl (Fatal ''timerfd_settime'')
               else Inr (st'\<lparr>timer_at := sec, timer_changed := False\<rparr>))))"

section \<open>The handlers\<close>

text \<open>
  A read of the signal descriptor: whether a whole record came, the signal, the children that \<open>waitpid\<close> reports one
  after the other, and whether it then fails with something else than \<open>ECHILD\<close>.
\<close>

record sig_input =
  s_complete :: bool
  s_signo :: nat
  s_reaped :: "int list"
  s_wait_fails :: bool

definition SIGCHLD :: nat where "SIGCHLD = 17"

definition reap :: "int \<Rightarrow> watch list \<Rightarrow> watch list" where
  "reap pid ws = map (\<lambda>p. if q_pid p = pid then p\<lparr>q_pid := 0\<rparr> else p) ws"

definition process_signal_events :: "sig_input \<Rightarrow> ued \<Rightarrow> int \<times> ued" where
  "process_signal_events i st =
     (if \<not> s_complete i then (0, st)
      else if s_signo i = SIGCHLD
      then (if s_wait_fails i then - 1 else 0, st\<lparr>watch_list := fold reap (s_reaped i) (watch_list st)\<rparr>)
      else (- 1, st))"

text \<open>An event, with what the calls made for it see.\<close>

record inotify_event =
  ev_wd :: int
  ev_mask :: u32
  ev_world :: uworld

text \<open>What is done for an event of a watch that is in the list.\<close>

definition watch_event :: "uconf \<Rightarrow> inotify_event \<Rightarrow> watch \<Rightarrow> ued \<Rightarrow> ued_error + ued" where
  "watch_event c ev p st =
     (if has_flag (ev_mask ev) IN_DELETE_SELF then Inr (unwatch_path (q_ino p) st)
      else if has_flag (q_flags p) F_ROOT_DIR
      then (if has_flag (ev_mask ev) IN_CREATE then watch_queues (ev_world ev) c st else Inr st)
      else if has_flag (q_flags p) F_TIMER_ROOT
      then bind_res (if has_flag (ev_mask ev) IN_CREATE then watch_timer_queues (ev_world ev) c st else Inr st)
             (\<lambda>st'. Inr (st'\<lparr>timer_changed := True\<rparr>))
      else if has_flag (q_flags p) F_PAUSE_DIR then apply_pause (ev_world ev) c st
      else if has_flag (q_flags p) F_TIMER_DIR then Inr (st\<lparr>timer_changed := True\<rparr>)
      else Inr (mark_queue_dirty (\<lambda>p. q_watchfd p = ev_wd ev) st))"

definition inotify_one :: "uconf \<Rightarrow> inotify_event \<Rightarrow> ued \<Rightarrow> ued_error + ued" where
  "inotify_one c ev st =
     (case find (\<lambda>p. q_watchfd p = ev_wd ev) (watch_list st) of
        None \<Rightarrow> Inr st
      | Some p \<Rightarrow> watch_event c ev p st)"

text \<open>The reads of a non-blocking descriptor: what came, until there is nothing more or an error.\<close>

datatype 'a reads = More 'a "'a reads" | NoMore | ReadFails

fun process_inotify_events :: "uconf \<Rightarrow> inotify_event list reads \<Rightarrow> ued \<Rightarrow> ued_error + ued" where
  "process_inotify_events c NoMore st = Inr st"
| "process_inotify_events c ReadFails st = Inl (Fatal ''read'')"
| "process_inotify_events c (More evs r) st = bind_res (fold_res (inotify_one c) evs st) (process_inotify_events c r)"

fun process_pipefd_events :: "int reads \<Rightarrow> ued \<Rightarrow> ued_error + ued" where
  "process_pipefd_events NoMore st = Inr st"
| "process_pipefd_events ReadFails st = Inl (Fatal ''read(pipe)'')"
| "process_pipefd_events (More v r) st =
     process_pipefd_events r (mark_queue_dirty (\<lambda>p. has_flag (q_flags p) F_QUEUE_DIR \<and> q_watchfd p = v) st)"

definition process_timerfd_events :: "unit reads \<Rightarrow> ued \<Rightarrow> ued_error + ued" where
  "process_timerfd_events r st =
     (case r of NoMore \<Rightarrow> Inr st | ReadFails \<Rightarrow> Inl (Fatal ''read(timerfd)'') | More _ _ \<Rightarrow> Inr (st\<lparr>timer_changed := True\<rparr>))"

section \<open>The main loop\<close>

definition spawn_worker :: "uworld \<Rightarrow> ued \<Rightarrow> int \<times> ued" where
  "spawn_worker w st =
     (let s = session st + 1; pid = u_fork w s in (if pid < 0 then 0 else pid, st\<lparr>session := s\<rparr>))"

definition startable :: "watch \<Rightarrow> bool" where
  "startable e \<longleftrightarrow> has_flag (q_flags e) F_QUEUE_DIR \<and> has_flag (q_flags e) F_DIRTY \<and> q_pid e = 0 \<and> \<not> has_flag (q_flags e) F_PAUSED"

text \<open>The loop over the watches at the end of a turn; the watches of the state are put together again at its end.\<close>

fun spawn_watches :: "uworld \<Rightarrow> watch list \<Rightarrow> ued \<Rightarrow> ued_error + watch list \<times> ued" where
  "spawn_watches w [] st = Inr ([], st)"
| "spawn_watches w (e # es) st =
     (if \<not> startable e then map_sum id (\<lambda>(es', s). (e # es', s)) (spawn_watches w es st)
      else if dirty_queues st = 0 then Inl (Fatal ''BUG: dirty_queues == 0, but dirty queues are present'')
      else case spawn_worker w (st\<lparr>dirty_queues := dirty_queues st - 1\<rparr>) of
             (pid, st') \<Rightarrow> map_sum id (\<lambda>(es', s). ((clear_flag F_DIRTY e)\<lparr>q_pid := pid\<rparr> # es', s)) (spawn_watches w es st'))"

definition spawn_dirty :: "uworld \<Rightarrow> ued \<Rightarrow> ued_error + ued" where
  "spawn_dirty w st = bind_res (spawn_watches w (watch_list st) st) (\<lambda>(ws, s). Inr (s\<lparr>watch_list := ws\<rparr>))"

text \<open>What a ready descriptor delivers.\<close>

datatype ready = OnInotify "inotify_event list reads" | OnSignal sig_input | OnPipe "int reads" | OnTimer "unit reads"

text \<open>A handler that does not return 0 ends the loop; the second component says whether it goes on.\<close>

fun dispatch :: "uconf \<Rightarrow> ready list \<Rightarrow> ued \<Rightarrow> ued_error + bool \<times> ued" where
  "dispatch c [] st = Inr (True, st)"
| "dispatch c (OnInotify r # rs) st = bind_res (process_inotify_events c r st) (dispatch c rs)"
| "dispatch c (OnPipe r # rs) st = bind_res (process_pipefd_events r st) (dispatch c rs)"
| "dispatch c (OnTimer r # rs) st = bind_res (process_timerfd_events r st) (dispatch c rs)"
| "dispatch c (OnSignal i # rs) st =
     (case process_signal_events i st of (r, st') \<Rightarrow> if r \<noteq> 0 then Inr (False, st') else dispatch c rs st')"

definition ued_turn :: "uconf \<Rightarrow> uworld \<Rightarrow> ready list \<Rightarrow> ued \<Rightarrow> ued_error + bool \<times> ued" where
  "ued_turn c w rs st =
     bind_res (dispatch c rs st) (\<lambda>(go, st1).
     if \<not> go then Inr (False, st1)
     else bind_res (if timer_changed st1 then update_timerfd w c st1 else Inr st1) (\<lambda>st2.
          map_sum id (Pair True) (spawn_dirty w st2)))"

text \<open>The timeout of \<open>epoll_wait\<close>.\<close>

definition epoll_timeout :: "ued \<Rightarrow> int" where
  "epoll_timeout st = (if dirty_queues st \<noteq> 0 then 250 else - 1)"

definition ued_init :: ued where
  "ued_init = \<lparr>watch_list = [], pause_all = False, dirty_queues = 0, timer_changed = False, session = 0, rm_watches = [], timer_at = 0\<rparr>"

definition watch_root :: "uworld \<Rightarrow> uconf \<Rightarrow> string \<Rightarrow> u32 \<Rightarrow> ued \<Rightarrow> ued_error + ued" where
  "watch_root w c dir flags st =
     bind_res (watch_path w c dir ''.'' EV_ROOT_MASK flags st) (\<lambda>(r, st'). if r < 0 then Inl ExitFailure else Inr st')"

definition ued_start :: "uworld \<Rightarrow> uconf \<Rightarrow> ued_error + ued" where
  "ued_start w c =
     bind_res (watch_pauses w c ued_init) (\<lambda>s1.
     bind_res (watch_root w c (filter_dir c) F_ROOT_DIR s1) (\<lambda>s2.
     bind_res (watch_root w c (timer_dir c) F_TIMER_ROOT s2) (\<lambda>s3.
     bind_res (watch_queues w c s3) (\<lambda>s4.
     bind_res (watch_timer_queues w c s4) (\<lambda>s5.
     bind_res (apply_pause w c s5) (update_timerfd w c))))))"

text \<open>The end of \<open>main\<close>: the processes that are killed and the watch descriptors that are given back.\<close>

definition ued_stop :: "ued \<Rightarrow> int list \<times> int list" where
  "ued_stop st = (filter (\<lambda>p. p \<noteq> 0) (map q_pid (watch_list st)), map q_watchfd (watch_list st))"

inductive ued_reach :: "uconf \<Rightarrow> ued \<Rightarrow> bool" for c where
  start: "ued_start w c = Inr st \<Longrightarrow> ued_reach c st"
| turn: "ued_reach c st \<Longrightarrow> ued_turn c w rs st = Inr (True, st') \<Longrightarrow> ued_reach c st'"

section \<open>The worker process\<close>












section \<open>Flags\<close>

lemma has_flag_exp: "has_flag w (2 ^ n) \<longleftrightarrow> bit w n"
  by (simp add: has_flag_def and_exp_eq_0_iff_not_bit)

lemma has_flag_bit [simp]:
  "has_flag w F_ROOT_DIR \<longleftrightarrow> bit w 0" "has_flag w F_QUEUE_DIR \<longleftrightarrow> bit w 1" "has_flag w F_PAUSE_DIR \<longleftrightarrow> bit w 2"
  "has_flag w F_DIRTY \<longleftrightarrow> bit w 3" "has_flag w F_PAUSED \<longleftrightarrow> bit w 4" "has_flag w F_TIMER_ROOT \<longleftrightarrow> bit w 5"
  "has_flag w F_TIMER_DIR \<longleftrightarrow> bit w 6"
  using has_flag_exp [of w 0] has_flag_exp [of w 1] has_flag_exp [of w 2] has_flag_exp [of w 3] has_flag_exp [of w 4]
    has_flag_exp [of w 5] has_flag_exp [of w 6]
  by (simp_all add: F_ROOT_DIR_def F_QUEUE_DIR_def F_PAUSE_DIR_def F_DIRTY_def F_PAUSED_def F_TIMER_ROOT_def F_TIMER_DIR_def)

lemma bit_or_exp: "k < 32 \<Longrightarrow> bit (w OR 2 ^ k) n \<longleftrightarrow> bit w n \<or> n = k" for w :: u32
  by (auto simp: bit_or_iff bit_exp_iff)

lemma bit_clear_exp: "bit (w AND NOT (2 ^ k)) n \<longleftrightarrow> bit w n \<and> n \<noteq> k" for w :: u32
  by (auto simp: bit_and_iff bit_not_iff bit_exp_iff dest: bit_imp_le_length)

lemma bit_set_flag [simp]:
  "bit (w OR F_DIRTY) n \<longleftrightarrow> bit w n \<or> n = 3" "bit (w OR F_PAUSED) n \<longleftrightarrow> bit w n \<or> n = 4"
  using bit_or_exp [of 3 w n] bit_or_exp [of 4 w n] by (simp_all add: F_DIRTY_def F_PAUSED_def)

lemma bit_clear_flag [simp]:
  "bit (w AND NOT F_DIRTY) n \<longleftrightarrow> bit w n \<and> n \<noteq> 3" "bit (w AND NOT F_PAUSED) n \<longleftrightarrow> bit w n \<and> n \<noteq> 4"
  using bit_clear_exp [of w 3 n] bit_clear_exp [of w 4 n] by (simp_all add: F_DIRTY_def F_PAUSED_def)

section \<open>The counter of dirty queues\<close>

text \<open>A watch has a kind, and only queues get dirty.\<close>

definition watch_ok :: "watch \<Rightarrow> bool" where
  "watch_ok p \<longleftrightarrow>
     (has_flag (q_flags p) F_ROOT_DIR \<or> has_flag (q_flags p) F_QUEUE_DIR \<or> has_flag (q_flags p) F_PAUSE_DIR
      \<or> has_flag (q_flags p) F_TIMER_ROOT \<or> has_flag (q_flags p) F_TIMER_DIR)
     \<and> (has_flag (q_flags p) F_DIRTY \<longrightarrow> has_flag (q_flags p) F_QUEUE_DIR)"

definition ndirty :: "watch list \<Rightarrow> int" where
  "ndirty ws = int (length (filter (\<lambda>p. has_flag (q_flags p) F_DIRTY) ws))"

definition dirty_gap :: "ued \<Rightarrow> int" where
  "dirty_gap st = dirty_queues st - ndirty (watch_list st)"

definition watches_ok :: "ued \<Rightarrow> bool" where
  "watches_ok st \<longleftrightarrow> list_all watch_ok (watch_list st)"

text \<open>The contract of every operation: the watches stay well formed and the counter never falls behind.\<close>

definition keeps :: "(ued \<Rightarrow> ued_error + ued) \<Rightarrow> bool" where
  "keeps f \<longleftrightarrow> (\<forall>st st'. watches_ok st \<longrightarrow> f st = Inr st' \<longrightarrow> watches_ok st' \<and> dirty_gap st \<le> dirty_gap st')"

lemma keepsI: "(\<And>st st'. watches_ok st \<Longrightarrow> f st = Inr st' \<Longrightarrow> watches_ok st' \<and> dirty_gap st \<le> dirty_gap st') \<Longrightarrow> keeps f"
  by (simp add: keeps_def)

lemma keepsD: "keeps f \<Longrightarrow> watches_ok st \<Longrightarrow> f st = Inr st' \<Longrightarrow> watches_ok st' \<and> dirty_gap st \<le> dirty_gap st'"
  by (simp add: keeps_def)

lemma keeps_bind [inv_intros]:
  assumes "keeps f" "keeps g"
  shows "keeps (\<lambda>st. bind_res (f st) g)"
proof (rule keepsI)
  fix st st' assume ok: "watches_ok st" and r: "bind_res (f st) g = Inr st'"
  obtain m where m: "f st = Inr m" "g m = Inr st'" using r by (auto simp: bind_res_Inr_iff)
  have 1: "watches_ok m" "dirty_gap st \<le> dirty_gap m" using keepsD [OF assms(1) ok m(1)] by blast+
  then have "watches_ok st'" "dirty_gap m \<le> dirty_gap st'" using keepsD [OF assms(2) 1(1) m(2)] by blast+
  then show "watches_ok st' \<and> dirty_gap st \<le> dirty_gap st'" using 1(2) by linarith
qed

lemma keeps_const [inv_intros]: "(\<And>x. keeps (f x)) \<Longrightarrow> keeps (\<lambda>st. bind_res r (\<lambda>x. f x st))"
  by (cases r) (simp_all add: keeps_def)

lemma keeps_Inr [inv_intros]: "keeps Inr" "keeps (\<lambda>st. Inl e)"
  by (simp_all add: keeps_def)

lemma keeps_if [inv_intros]: "keeps f \<Longrightarrow> keeps g \<Longrightarrow> keeps (\<lambda>st. if P st then f st else g st)"
  by (rule keepsI) (metis keepsD)

lemma keeps_timer [inv_intros]: "keeps (\<lambda>st. Inr (st\<lparr>timer_changed := b\<rparr>))" "keeps (\<lambda>st. Inr (st\<lparr>timer_at := t, timer_changed := b\<rparr>))"
  by (simp_all add: keeps_def dirty_gap_def watches_ok_def)

lemma keeps_fold [inv_intros]:
  assumes "\<And>x. keeps (f x)"
  shows "keeps (fold_res f xs)"
proof (rule keepsI)
  fix st st' assume ok: "watches_ok st" and r: "fold_res f xs st = Inr st'"
  have "watches_ok st' \<and> dirty_gap st \<le> dirty_gap st'"
  proof (rule fold_res_invariant [where I = "\<lambda>s. watches_ok s \<and> dirty_gap st \<le> dirty_gap s" and f = f])
    fix x s s' assume I: "watches_ok s \<and> dirty_gap st \<le> dirty_gap s" and r: "f x s = Inr s'"
    show "watches_ok s' \<and> dirty_gap st \<le> dirty_gap s'" using keepsD [OF assms conjunct1 [OF I] r] I by linarith
  qed (use ok r in auto)
  then show "watches_ok st' \<and> dirty_gap st \<le> dirty_gap st'" .
qed

definition kind_flags :: "u32 set" where
  "kind_flags = {F_ROOT_DIR, F_QUEUE_DIR, F_PAUSE_DIR, F_TIMER_ROOT, F_TIMER_DIR}"

lemma kind_flags_bits:
  "f \<in> kind_flags \<Longrightarrow> \<not> bit f 3 \<and> (bit f 0 \<or> bit f 1 \<or> bit f 2 \<or> bit f 5 \<or> bit f 6)"
  by (auto simp: kind_flags_def F_ROOT_DIR_def F_QUEUE_DIR_def F_PAUSE_DIR_def F_TIMER_ROOT_def F_TIMER_DIR_def)

lemma watch_path_keeps:
  assumes "watch_path w c dir name m flags st = Inr (r, st')" and f: "flags \<in> kind_flags" and ok: "watches_ok st"
  shows "watches_ok st' \<and> dirty_gap st' = dirty_gap st"
proof -
  consider "watch_list st' = watch_list st" "dirty_queues st' = dirty_queues st"
    | fd pfd ino dirty where "watch_list st' = \<lparr>q_flags = (if pause_all st then (if dirty then flags OR F_DIRTY else flags) OR F_PAUSED
          else (if dirty then flags OR F_DIRTY else flags)), q_watchfd = fd, q_parentfd = pfd, q_ino = ino, q_pid = 0, q_name = name\<rparr> # watch_list st"
        "dirty_queues st' = dirty_queues st + (if dirty then 1 else 0)" "dirty \<longrightarrow> bit flags 1"
    using assms(1) unfolding watch_path_def Let_def
    by (fastforce simp: bind_res_Inr_iff split: if_splits option.splits)
  then show ?thesis
  proof cases
    case 1
    then show ?thesis using ok by (simp add: watches_ok_def dirty_gap_def)
  next
    case 2
    then show ?thesis using ok kind_flags_bits [OF f]
      by (auto simp: watches_ok_def dirty_gap_def ndirty_def watch_ok_def)
  qed
qed

lemma watch_path_then_keeps [inv_intros]:
  assumes "flags \<in> kind_flags"
  shows "keeps (\<lambda>st. bind_res (watch_path w c dir name m flags st) (\<lambda>(r, st'). if r < 0 then Inl e else Inr st'))"
proof (rule keepsI)
  fix st st'
  assume ok: "watches_ok st"
    and r: "bind_res (watch_path w c dir name m flags st) (\<lambda>(r, st'). if r < 0 then Inl e else Inr st') = Inr st'"
  obtain k where "watch_path w c dir name m flags st = Inr (k, st')"
    using r by (auto simp: bind_res_Inr_iff split: if_splits)
  from watch_path_keeps [OF this assms ok] show "watches_ok st' \<and> dirty_gap st \<le> dirty_gap st'" by simp
qed

lemma kind_flags_mem [simp]:
  "F_ROOT_DIR \<in> kind_flags" "F_QUEUE_DIR \<in> kind_flags" "F_PAUSE_DIR \<in> kind_flags" "F_TIMER_ROOT \<in> kind_flags"
  "F_TIMER_DIR \<in> kind_flags"
  by (simp_all add: kind_flags_def)

lemma watch_each_keeps [inv_intros]: "flags \<in> kind_flags \<Longrightarrow> keeps (watch_each w c dir m flags)"
  unfolding watch_each_def by (intro inv_intros keeps_fold keeps_if watch_path_then_keeps)

lemma watch_keeps [inv_intros]:
  "keeps (watch_queues w c)" "keeps (watch_timer_queues w c)" "keeps (watch_pauses w c)"
  "keeps (watch_root w c dir F_ROOT_DIR)" "keeps (watch_root w c dir F_TIMER_ROOT)"
  unfolding watch_queues_def watch_timer_queues_def watch_pauses_def watch_root_def
  by (intro watch_each_keeps watch_path_then_keeps kind_flags_mem)+

lemma unlink_watch_sub:
  "unlink_watch ino ws = (ws', r) \<Longrightarrow> set ws' \<subseteq> set ws \<and> ndirty ws' \<le> ndirty ws"
  by (induction ws arbitrary: ws') (auto simp: ndirty_def split: if_splits prod.splits)

lemma unwatch_path_keeps [inv_intros]: "keeps (\<lambda>st. Inr (unwatch_path (f st) st))"
proof (rule keepsI)
  fix st st' assume ok: "watches_ok st" and "Inr (unwatch_path (f st) st) = (Inr st' :: ued_error + ued)"
  then have st': "st' = unwatch_path (f st) st" by simp
  obtain ws r where u: "unlink_watch (f st) (watch_list st) = (ws, r)" by fastforce
  show "watches_ok st' \<and> dirty_gap st \<le> dirty_gap st'"
    using unlink_watch_sub [OF u] ok unfolding st' by (auto simp: unwatch_path_def u watches_ok_def dirty_gap_def list_all_iff)
qed

text \<open>Pausing changes no other flag.\<close>

lemma pause_entries_same:
  "pause_entries es ws = (all, ws') \<Longrightarrow>
     list_all2 (\<lambda>p p'. \<forall>n. n \<noteq> 4 \<longrightarrow> bit (q_flags p') n = bit (q_flags p) n) ws ws'"
proof (induction es ws arbitrary: ws' rule: pause_entries.induct)
  case (2 e es ws)
  let ?f = "\<lambda>all p. if has_flag (q_flags p) F_QUEUE_DIR \<and> (all \<or> fst e = q_name p) then set_flag F_PAUSED p else p"
  have step: "list_all2 (\<lambda>p p'. \<forall>n. n \<noteq> 4 \<longrightarrow> bit (q_flags p') n = bit (q_flags p) n) ws (map (?f a) ws)" for a
    by (simp add: list_all2_conv_all_nth set_flag_def)
  show ?case
  proof (cases "snd e \<noteq> DT_DIR \<or> is_dot_dir e")
    case False
    show ?thesis
    proof (cases "fst e = ''.all''")
      case True
      then show ?thesis using "2.prems" False step [of True] by (simp add: Let_def)
    next
      case ne: False
      then have "pause_entries es (map (?f False) ws) = (all, ws')" using "2.prems" False by (simp add: Let_def)
      then have "list_all2 (\<lambda>p p'. \<forall>n. n \<noteq> 4 \<longrightarrow> bit (q_flags p') n = bit (q_flags p) n) (map (?f False) ws) ws'"
        using "2.IH"(2) [OF False refl refl] ne by simp
      with step [of False] show ?thesis by (rule list_all2_trans [rotated]) simp
    qed
  qed (use 2 in simp)
qed (simp add: list_all2_refl)

lemma same_but_paused:
  assumes "list_all2 (\<lambda>p p'. \<forall>n. n \<noteq> 4 \<longrightarrow> bit (q_flags p') n = bit (q_flags p) n) ws ws'"
  shows "list_all watch_ok ws' = list_all watch_ok ws \<and> ndirty ws' = ndirty ws"
  using assms
proof induction
  case (Cons p ws p' ws')
  have "bit (q_flags p') n = bit (q_flags p) n" if "n \<in> {0, 1, 2, 3, 5, 6}" for n using Cons.hyps(1) that by auto
  then show ?case using Cons.IH by (simp add: watch_ok_def ndirty_def)
qed simp

lemma apply_pause_keeps [inv_intros]: "keeps (apply_pause w c)"
proof (rule keepsI)
  fix st st' assume ok: "watches_ok st" and r: "apply_pause w c st = Inr st'"
  obtain es where x: "xopendir w (pause_dir c) = Inr es" using r by (auto simp: apply_pause_def bind_res_Inr_iff)
  obtain all ws where p: "pause_entries es (map (clear_flag F_PAUSED) (watch_list st)) = (all, ws)" by fastforce
  have st': "st' = st\<lparr>pause_all := all, watch_list := ws\<rparr>" using r x p by (simp add: apply_pause_def)
  have "list_all2 (\<lambda>p p'. \<forall>n. n \<noteq> 4 \<longrightarrow> bit (q_flags p') n = bit (q_flags p) n) (watch_list st) (map (clear_flag F_PAUSED) (watch_list st))"
    by (simp add: list_all2_conv_all_nth clear_flag_def)
  from same_but_paused [OF this] same_but_paused [OF pause_entries_same [OF p]]
  show "watches_ok st' \<and> dirty_gap st \<le> dirty_gap st'" using ok by (simp add: st' watches_ok_def dirty_gap_def)
qed

lemma mark_first_keeps:
  assumes "mark_first P ws n = (ws', n')" "\<forall>p. find P ws = Some p \<longrightarrow> bit (q_flags p) 1" "list_all watch_ok ws"
  shows "list_all watch_ok ws' \<and> n' - ndirty ws' = n - ndirty ws"
  using assms
  by (induction P ws n arbitrary: ws' n' rule: mark_first.induct)
    (auto simp: ndirty_def watch_ok_def set_flag_def split: if_splits prod.splits)

lemma mark_queue_dirty_keeps:
  assumes "watches_ok st" "\<forall>p. find P (watch_list st) = Some p \<longrightarrow> bit (q_flags p) 1"
  shows "watches_ok (mark_queue_dirty P st) \<and> dirty_gap (mark_queue_dirty P st) = dirty_gap st"
proof -
  obtain ws n where m: "mark_first P (watch_list st) (dirty_queues st) = (ws, n)" by fastforce
  show ?thesis using mark_first_keeps [OF m assms(2)] assms(1) by (simp add: mark_queue_dirty_def m watches_ok_def dirty_gap_def)
qed

lemma find_imp: "find P xs = Some x \<Longrightarrow> P x"
  by (induction xs) (auto split: if_splits)

lemma mark_keeps [inv_intros]:
  assumes "\<And>p. P p \<Longrightarrow> has_flag (q_flags p) F_QUEUE_DIR"
  shows "keeps (\<lambda>st. Inr (mark_queue_dirty P st))"
proof (rule keepsI)
  fix st st' assume ok: "watches_ok st" and e: "Inr (mark_queue_dirty P st) = (Inr st' :: ued_error + ued)"
  have "\<forall>p. find P (watch_list st) = Some p \<longrightarrow> bit (q_flags p) 1" using assms find_imp by fastforce
  from mark_queue_dirty_keeps [OF ok this] e show "watches_ok st' \<and> dirty_gap st \<le> dirty_gap st'" by simp
qed

lemma ensure_queue_dir_keeps [inv_intros]: "keeps (ensure_queue_dir w c name)"
  unfolding ensure_queue_dir_def Let_def by (intro keeps_if keeps_Inr watch_path_then_keeps kind_flags_mem)

lemma move_timer_event_keeps [inv_intros]: "keeps (move_timer_event w c q qp t)"
proof -
  have m: "keeps (\<lambda>st. Inr (mark_queue_dirty (is_queue q) st))" by (rule mark_keeps) (simp add: is_queue_def)
  have "keeps (\<lambda>st. case u_rename w a b of Renamed \<Rightarrow> Inr (mark_queue_dirty (is_queue q) st) | _ \<Rightarrow> Inr st)" for a b
    by (cases "u_rename w a b") (simp_all add: m keeps_Inr)
  then have "keeps (\<lambda>st. if b = [] then Inr st else bind_res (ensure_queue_dir w c q st)
      (\<lambda>st. case u_rename w (queue_path qp t) (queue_path (queue_path (filter_dir c) q) b) of
         Renamed \<Rightarrow> Inr (mark_queue_dirty (is_queue q) st) | _ \<Rightarrow> Inr st))" for b
    by (intro keeps_if keeps_Inr keeps_bind ensure_queue_dir_keeps)
  then show ?thesis unfolding move_timer_event_def
    by (cases "split_first (CHR ''.'') t"; cases "the (split_first (CHR ''.'') t)") (simp_all add: keeps_Inr)
qed

lemma fold_snd_keeps:
  assumes "\<And>x ns ns'. f x ns = Inr ns' \<Longrightarrow> watches_ok (snd ns) \<Longrightarrow> watches_ok (snd ns') \<and> dirty_gap (snd ns) \<le> dirty_gap (snd ns')"
    and "fold_res f xs ns = Inr ns'" "watches_ok (snd ns)"
  shows "watches_ok (snd ns') \<and> dirty_gap (snd ns) \<le> dirty_gap (snd ns')"
proof (rule fold_res_invariant [where I = "\<lambda>s. watches_ok (snd s) \<and> dirty_gap (snd ns) \<le> dirty_gap (snd s)" and f = f, OF _ _ assms(2)])
  fix x s s' assume I: "watches_ok (snd s) \<and> dirty_gap (snd ns) \<le> dirty_gap (snd s)" and r: "f x s = Inr s'"
  show "watches_ok (snd s') \<and> dirty_gap (snd ns) \<le> dirty_gap (snd s')" using assms(1) [OF r conjunct1 [OF I]] I by linarith
qed (use assms(3) in simp)

lemma timer_entry_keeps:
  assumes "timer_entry w c now q qp e ns = Inr ns'" "watches_ok (snd ns)"
  shows "watches_ok (snd ns') \<and> dirty_gap (snd ns) \<le> dirty_gap (snd ns')"
proof -
  obtain n st where ns: "ns = (n, st)" by fastforce
  have "snd ns' = st \<or> (\<exists>s. move_timer_event w c q qp (fst e) st = Inr s \<and> snd ns' = s)"
    using assms(1) unfolding ns timer_entry_def Let_def
    by (cases "move_timer_event w c q qp (fst e) st") (auto split: if_splits)
  then show ?thesis using keepsD [OF move_timer_event_keeps] assms(2) unfolding ns by fastforce
qed

lemma timer_queue_keeps:
  assumes "timer_queue w c now e ns = Inr ns'" "watches_ok (snd ns)"
  shows "watches_ok (snd ns') \<and> dirty_gap (snd ns) \<le> dirty_gap (snd ns')"
proof (cases "snd e \<noteq> DT_DIR \<or> is_dot_dir e")
  case True
  then show ?thesis using assms by (auto simp: timer_queue_def)
next
  case False
  then obtain es where "fold_res (timer_entry w c now (fst e) (queue_path (timer_dir c) (fst e))) es ns = Inr ns'"
    using assms(1) by (auto simp: timer_queue_def Let_def bind_res_Inr_iff)
  from fold_snd_keeps [OF _ this assms(2)] show ?thesis using timer_entry_keeps by blast
qed

lemma update_timerfd_keeps [inv_intros]: "keeps (update_timerfd w c)"
proof (rule keepsI)
  fix st st' assume ok: "watches_ok st" and r: "update_timerfd w c st = Inr st'"
  obtain now where n: "u_now w = Some now" using r by (cases "u_now w") (simp_all add: update_timerfd_def)
  obtain es k s where f: "fold_res (timer_queue w c now) es (- 1, st) = Inr (k, s)"
    and st': "st' = s\<lparr>timer_at := (if k \<noteq> - 1 then sint k else 0), timer_changed := False\<rparr>"
    using r n by (auto simp: update_timerfd_def bind_res_Inr_iff Let_def split: if_splits)
  have "watches_ok s \<and> dirty_gap st \<le> dirty_gap s" using fold_snd_keeps [OF _ f] timer_queue_keeps ok by (metis snd_conv)
  then show "watches_ok st' \<and> dirty_gap st \<le> dirty_gap st'" by (simp add: st' watches_ok_def dirty_gap_def)
qed

lemma watch_event_keeps:
  assumes ok: "watches_ok st" and p: "find (\<lambda>p. q_watchfd p = ev_wd ev) (watch_list st) = Some p"
    and r: "watch_event c ev p st = Inr st'"
  shows "watches_ok st' \<and> dirty_gap st \<le> dirty_gap st'"
proof (cases "has_flag (ev_mask ev) IN_DELETE_SELF \<or> bit (q_flags p) 0 \<or> bit (q_flags p) 5 \<or> bit (q_flags p) 2 \<or> bit (q_flags p) 6")
  case True
  define h where "h = (\<lambda>st. if has_flag (ev_mask ev) IN_DELETE_SELF then Inr (unwatch_path (q_ino p) st)
      else if bit (q_flags p) 0 then (if has_flag (ev_mask ev) IN_CREATE then watch_queues (ev_world ev) c st else Inr st)
      else if bit (q_flags p) 5
      then bind_res (if has_flag (ev_mask ev) IN_CREATE then watch_timer_queues (ev_world ev) c st else Inr st)
             (\<lambda>st'. Inr (st'\<lparr>timer_changed := True\<rparr>))
      else if bit (q_flags p) 2 then apply_pause (ev_world ev) c st
      else if bit (q_flags p) 6 then Inr (st\<lparr>timer_changed := True\<rparr>) else Inl ExitFailure)"
  have "keeps h" unfolding h_def
    by (intro keeps_if unwatch_path_keeps watch_keeps keeps_Inr keeps_bind keeps_timer apply_pause_keeps)
  moreover have "watch_event c ev p st = h st" using True unfolding watch_event_def h_def has_flag_bit by argo
  ultimately show ?thesis using keepsD [OF _ ok] r by simp
next
  case False
  have "watch_ok p" using p ok by (auto simp: watches_ok_def list_all_iff find_Some_iff)
  then have "bit (q_flags p) 1" using False by (simp add: watch_ok_def)
  then show ?thesis using mark_queue_dirty_keeps [OF ok] p r False by (auto simp: watch_event_def)
qed

lemma inotify_one_keeps [inv_intros]: "keeps (inotify_one c ev)"
proof (rule keepsI)
  fix st st' assume ok: "watches_ok st" and r: "inotify_one c ev st = Inr st'"
  show "watches_ok st' \<and> dirty_gap st \<le> dirty_gap st'"
  proof (cases "find (\<lambda>p. q_watchfd p = ev_wd ev) (watch_list st)")
    case None
    then show ?thesis using r ok by (simp add: inotify_one_def)
  next
    case (Some p)
    then show ?thesis using r watch_event_keeps [OF ok Some, of c st'] by (simp add: inotify_one_def)
  qed
qed

lemma process_inotify_events_keeps [inv_intros]: "keeps (process_inotify_events c r)"
proof (induction r)
  case (More evs r)
  have "keeps (\<lambda>st. bind_res (fold_res (inotify_one c) evs st) (process_inotify_events c r))"
    by (intro keeps_bind keeps_fold inotify_one_keeps More)
  then show ?case by (simp add: keeps_def)
qed (simp_all add: keeps_def)

lemma process_pipefd_events_keeps [inv_intros]: "keeps (process_pipefd_events r)"
proof (induction r)
  case (More v r)
  have "keeps (\<lambda>st. bind_res (Inr (mark_queue_dirty (\<lambda>p. has_flag (q_flags p) F_QUEUE_DIR \<and> q_watchfd p = v) st)) (process_pipefd_events r))"
    by (intro keeps_bind mark_keeps More) simp
  then show ?case by (simp add: keeps_def)
qed (simp_all add: keeps_def)

lemma process_timerfd_events_keeps [inv_intros]: "keeps (process_timerfd_events r)"
  by (cases r) (simp_all add: keeps_def process_timerfd_events_def watches_ok_def dirty_gap_def)

text \<open>What the main loop relies on in a handler of a descriptor, and its three instances that return a state.\<close>

locale ued_handler =
  fixes handler :: "ued \<Rightarrow> ued_error + ued"
  assumes handler_ok: "watches_ok st \<Longrightarrow> handler st = Inr st' \<Longrightarrow> watches_ok st'"
    and handler_gap: "watches_ok st \<Longrightarrow> handler st = Inr st' \<Longrightarrow> dirty_gap st \<le> dirty_gap st'"
begin

lemma then_rest:
  assumes "bind_res (handler st) rest = Inr r" and "watches_ok st"
    and "\<And>m. rest m = Inr r \<Longrightarrow> watches_ok m \<Longrightarrow> watches_ok s \<and> dirty_gap m \<le> dirty_gap s"
  shows "watches_ok s \<and> dirty_gap st \<le> dirty_gap s"
proof -
  obtain m where m: "handler st = Inr m" "rest m = Inr r" using assms(1) by (auto simp: bind_res_Inr_iff)
  have "watches_ok s \<and> dirty_gap m \<le> dirty_gap s" by (rule assms(3) [OF m(2) handler_ok [OF assms(2) m(1)]])
  then show ?thesis using handler_gap [OF assms(2) m(1)] by linarith
qed

end

interpretation inotify: ued_handler "process_inotify_events c r" for c r
  by unfold_locales (use keepsD [OF process_inotify_events_keeps] in blast)+

interpretation pipe: ued_handler "process_pipefd_events r" for r
  by unfold_locales (use keepsD [OF process_pipefd_events_keeps] in blast)+

interpretation timerfd: ued_handler "process_timerfd_events r" for r
  by unfold_locales (use keepsD [OF process_timerfd_events_keeps] in blast)+

lemma reap_same: "list_all watch_ok (fold reap pids ws) = list_all watch_ok ws \<and> ndirty (fold reap pids ws) = ndirty ws"
proof (induction pids arbitrary: ws)
  case (Cons pid pids)
  have "list_all watch_ok (reap pid ws) = list_all watch_ok ws \<and> ndirty (reap pid ws) = ndirty ws"
    by (induction ws) (auto simp: reap_def ndirty_def watch_ok_def)
  then show ?case using Cons by simp
qed simp

lemma dispatch_keeps:
  "dispatch c rs st = Inr (go, st') \<Longrightarrow> watches_ok st \<Longrightarrow> watches_ok st' \<and> dirty_gap st \<le> dirty_gap st'"
proof (induction c rs st rule: dispatch.induct)
  case (5 c i rs st)
  obtain k s where k: "process_signal_events i st = (k, s)" by fastforce
  have s: "watches_ok s \<and> dirty_gap s = dirty_gap st"
    using k 5(3) reap_same [of "s_reaped i" "watch_list st"]
    by (auto simp: process_signal_events_def watches_ok_def dirty_gap_def split: if_splits)
  show ?case using 5(1) [OF k [symmetric]] 5(2) k s by (cases "k = 0") auto
next
  case (2 c r rs st)
  show ?case by (rule inotify.then_rest [OF _ 2(3)]) (use 2(1,2) in auto)
next
  case (3 c r rs st)
  show ?case by (rule pipe.then_rest [OF _ 3(3)]) (use 3(1,2) in auto)
next
  case (4 c r rs st)
  show ?case by (rule timerfd.then_rest [OF _ 4(3)]) (use 4(1,2) in auto)
qed simp

text \<open>The loop that starts workers: it never meets a counter of 0, and this is what becomes of each watch.\<close>

definition started :: "watch \<Rightarrow> watch \<Rightarrow> bool" where
  "started e e' \<longleftrightarrow> (if startable e then (\<exists>pid \<ge> 0. e' = (clear_flag F_DIRTY e)\<lparr>q_pid := pid\<rparr>) else e' = e)"

lemma spawn_watches_ok:
  assumes "ndirty ws \<le> dirty_queues st"
  shows "\<exists>ws' st'. spawn_watches w ws st = Inr (ws', st') \<and> list_all2 started ws ws'
    \<and> dirty_queues st' = dirty_queues st - int (length (filter startable ws))"
  using assms
proof (induction ws arbitrary: st)
  case (Cons e es)
  show ?case
  proof (cases "startable e")
    case False
    have "ndirty es \<le> dirty_queues st" using Cons.prems by (simp add: ndirty_def split: if_splits)
    moreover have "started e e" using False by (simp add: started_def)
    ultimately show ?thesis using Cons.IH [of st] False by fastforce
  next
    case True
    then have d: "has_flag (q_flags e) F_DIRTY" by (simp add: startable_def)
    have pos: "dirty_queues st \<noteq> 0" using Cons.prems d by (simp add: ndirty_def)
    let ?s = "st\<lparr>dirty_queues := dirty_queues st - 1\<rparr>"
    obtain pid s where k: "spawn_worker w ?s = (pid, s)" by fastforce
    then have s: "pid \<ge> 0" "dirty_queues s = dirty_queues st - 1" by (auto simp: spawn_worker_def Let_def split: if_splits)
    have "ndirty es \<le> dirty_queues s" using Cons.prems d s by (simp add: ndirty_def)
    from Cons.IH [OF this] obtain ws' st' where "spawn_watches w es s = Inr (ws', st')" "list_all2 started es ws'"
      "dirty_queues st' = dirty_queues s - int (length (filter startable es))" by blast
    moreover have "started e ((clear_flag F_DIRTY e)\<lparr>q_pid := pid\<rparr>)" using True s(1) by (auto simp: started_def)
    ultimately show ?thesis using True pos k s(2) by simp
  qed
qed simp

lemma started_keeps:
  assumes "list_all2 started ws ws'"
  shows "(list_all watch_ok ws \<longrightarrow> list_all watch_ok ws') \<and> ndirty ws' = ndirty ws - int (length (filter startable ws))"
  using assms
proof induction
  case (Cons e ws e' ws')
  show ?case
  proof (cases "startable e")
    case True
    then show ?thesis using Cons by (auto simp: started_def startable_def ndirty_def watch_ok_def clear_flag_def)
  next
    case False
    then show ?thesis using Cons by (auto simp: started_def ndirty_def)
  qed
qed (simp add: ndirty_def)

lemma spawn_dirty_ok:
  assumes "watches_ok st" "0 \<le> dirty_gap st"
  shows "\<exists>st'. spawn_dirty w st = Inr st' \<and> watches_ok st' \<and> dirty_gap st' = dirty_gap st \<and> list_all2 started (watch_list st) (watch_list st')"
proof -
  have "ndirty (watch_list st) \<le> dirty_queues st" using assms(2) by (simp add: dirty_gap_def)
  from spawn_watches_ok [OF this, of w] obtain ws' s where
    k: "spawn_watches w (watch_list st) st = Inr (ws', s)" "list_all2 started (watch_list st) ws'"
      "dirty_queues s = dirty_queues st - int (length (filter startable (watch_list st)))" by blast
  show ?thesis using k started_keeps [OF k(2)] assms(1) by (auto simp: spawn_dirty_def watches_ok_def dirty_gap_def)
qed

lemma ued_turn_keeps:
  assumes "ued_turn c w rs st = Inr (go, st')" "watches_ok st" "0 \<le> dirty_gap st"
  shows "watches_ok st' \<and> dirty_gap st \<le> dirty_gap st'"
proof -
  obtain g s1 where d: "dispatch c rs st = Inr (g, s1)" using assms(1) by (auto simp: ued_turn_def bind_res_Inr_iff)
  note k1 = dispatch_keeps [OF d assms(2)]
  show ?thesis
  proof (cases g)
    case False
    then show ?thesis using assms(1) d k1 by (simp add: ued_turn_def)
  next
    case True
    obtain s2 where s2: "(if timer_changed s1 then update_timerfd w c s1 else Inr s1) = Inr s2"
      and sp: "map_sum id (Pair True) (spawn_dirty w s2) = Inr (go, st')"
      using assms(1) d True by (auto simp: ued_turn_def bind_res_Inr_iff)
    have k2: "watches_ok s2 \<and> dirty_gap s1 \<le> dirty_gap s2"
      using s2 k1 keepsD [OF update_timerfd_keeps, of s1 w c s2] by (cases "timer_changed s1") auto
    obtain s3 where "spawn_dirty w s2 = Inr s3" "watches_ok s3" "dirty_gap s3 = dirty_gap s2"
      using spawn_dirty_ok [of s2 w] k1 k2 assms(3) by auto
    then show ?thesis using sp k1 k2 by auto
  qed
qed

lemma ued_start_keeps: "ued_start w c = Inr st \<Longrightarrow> watches_ok st \<and> 0 \<le> dirty_gap st"
proof -
  assume r: "ued_start w c = Inr st"
  have "keeps (\<lambda>s. bind_res (watch_pauses w c s) (\<lambda>s1. bind_res (watch_root w c (filter_dir c) F_ROOT_DIR s1) (\<lambda>s2.
     bind_res (watch_root w c (timer_dir c) F_TIMER_ROOT s2) (\<lambda>s3. bind_res (watch_queues w c s3) (\<lambda>s4.
     bind_res (watch_timer_queues w c s4) (\<lambda>s5. bind_res (apply_pause w c s5) (update_timerfd w c)))))))"
    by (intro keeps_bind watch_keeps apply_pause_keeps update_timerfd_keeps)
  from keepsD [OF this, of ued_init st] r show ?thesis
    by (simp add: ued_start_def ued_init_def watches_ok_def dirty_gap_def ndirty_def)
qed

lemma ued_reach_inv: "ued_reach c st \<Longrightarrow> watches_ok st \<and> 0 \<le> dirty_gap st"
proof (induction rule: ued_reach.induct)
  case (turn st w rs st')
  then show ?case using ued_turn_keeps [OF turn(2)] by linarith
qed (rule ued_start_keeps)

section \<open>A small instance\<close>

definition sample_uconf :: uconf where
  "sample_uconf = \<lparr>filter_dir = ''f'', timer_dir = ''t'', uevent_dir = ''u'', uevent_confdb = ''c'', pipe_write = 4\<rparr>"

definition sample_uworld :: uworld where
  "sample_uworld = \<lparr>u_readdir = (\<lambda>p. if p = ''f'' then Some [(''q'', DT_DIR)] else if p = ''f/q'' then Some [(''ev'', DT_REG)] else Some []),
     u_add_watch = (\<lambda>p m. if p = ''f/.'' then Watched 1 else if p = ''t/.'' then Watched 2 else if p = ''f/q'' then Watched 3 else Watched 9),
     u_stat = (\<lambda>p. if p = ''f/q'' then Some 7 else Some 8), u_mkdir_fails = (\<lambda>_. False), u_rename = (\<lambda>_ _. Renamed),
     u_now = Some 50, u_settime_ok = (\<lambda>t. 0 \<le> t), u_fork = (\<lambda>_. 100)\<rparr>"

definition sample_queue :: watch where
  "sample_queue = \<lparr>q_flags = 10, q_watchfd = 3, q_parentfd = 4, q_ino = 7, q_pid = 0, q_name = ''q''\<rparr>"

definition sample_ued :: ued where
  "sample_ued = \<lparr>watch_list = [sample_queue,
       \<lparr>q_flags = 32, q_watchfd = 2, q_parentfd = 0, q_ino = 8, q_pid = 0, q_name = ''.''\<rparr>,
       \<lparr>q_flags = 1, q_watchfd = 1, q_parentfd = 0, q_ino = 8, q_pid = 0, q_name = ''.''\<rparr>,
       \<lparr>q_flags = 4, q_watchfd = 9, q_parentfd = 0, q_ino = 8, q_pid = 0, q_name = ''.''\<rparr>],
     pause_all = False, dirty_queues = 1, timer_changed = False, session = 0, rm_watches = [], timer_at = 0\<rparr>"

lemmas flag_defs = F_ROOT_DIR_def F_QUEUE_DIR_def F_PAUSE_DIR_def F_DIRTY_def F_PAUSED_def F_TIMER_ROOT_def F_TIMER_DIR_def

lemma sample_start: "ued_start sample_uworld sample_uconf = Inr sample_ued"
proof -
  note defs = ued_start_def ued_init_def watch_pauses_def watch_root_def watch_queues_def watch_timer_queues_def watch_each_def
    apply_pause_def update_timerfd_def watch_path_def add_queue_dir_def xopendir_def empty_directory_def queue_path_def pause_dir_def
    sample_uworld_def sample_uconf_def sample_ued_def sample_queue_def is_dot_dir_def clear_flag_def flag_defs has_flag_def Let_def
  show ?thesis by (simp add: defs del: has_flag_bit bit_set_flag bit_clear_flag)
qed

section \<open>Properties\<close>

text \<open>
  C8: In every state the daemon reaches, the counter of dirty queues is at least the number of queues that are marked
  dirty. So the check that ends the program with \<open>BUG: dirty_queues == 0\<close> never fires: a turn of the main loop fails
  only where a handler or the update of the timer fails.
\<close>

theorem dirty_counter_covers:
  assumes "ued_reach c st"
  shows "ndirty (watch_list st) \<le> dirty_queues st
    \<and> (ued_turn c w rs st = Inl e \<longrightarrow>
         dispatch c rs st = Inl e \<or> (\<exists>s. dispatch c rs st = Inr (True, s) \<and> update_timerfd w c s = Inl e))"
proof -
  note I = ued_reach_inv [OF assms]
  have "dispatch c rs st = Inl e \<or> (\<exists>s. dispatch c rs st = Inr (True, s) \<and> update_timerfd w c s = Inl e)" if r: "ued_turn c w rs st = Inl e"
  proof (cases "dispatch c rs st")
    case (Inl d)
    then show ?thesis using r by (simp add: ued_turn_def)
  next
    case (Inr gs)
    then obtain s where d: "dispatch c rs st = Inr (True, s)" using r by (cases gs; cases "fst gs") (auto simp: ued_turn_def)
    note k = dispatch_keeps [OF d conjunct1 [OF I]]
    have False if s2: "(if timer_changed s then update_timerfd w c s else Inr s) = Inr s2" for s2
    proof -
      have "watches_ok s2 \<and> dirty_gap s \<le> dirty_gap s2"
        using s2 k keepsD [OF update_timerfd_keeps, of s w c s2] by (cases "timer_changed s") auto
      then obtain s3 where "spawn_dirty w s2 = Inr s3" using spawn_dirty_ok [of s2 w] k I by auto
      then show False using r d s2 by (simp add: ued_turn_def)
    qed
    then show ?thesis using r d by (cases "if timer_changed s then update_timerfd w c s else Inr s") (auto simp: ued_turn_def split: if_splits)
  qed
  then show ?thesis using I by (simp add: dirty_gap_def)
qed

theorem dirty_counter_covers_witness:
  "ndirty (watch_list sample_ued) \<le> dirty_queues sample_ued"
  using dirty_counter_covers [OF ued_reach.start [OF sample_start]] by blast





text \<open>Later states.\<close>

inductive ued_later :: "uconf \<Rightarrow> ued \<Rightarrow> ued \<Rightarrow> bool" for c where
  now: "ued_later c st st"
| later: "ued_later c st s \<Longrightarrow> ued_turn c w rs s = Inr (True, s') \<Longrightarrow> ued_later c st s'"

lemma ued_later_gap:
  assumes "ued_later c st s" "watches_ok st" "0 \<le> dirty_gap st"
  shows "watches_ok s \<and> dirty_gap st \<le> dirty_gap s"
  using assms
proof (induction rule: ued_later.induct)
  case (later st s w rs s')
  then show ?case using ued_turn_keeps [OF later(2)] by linarith
qed simp

lemma unlink_found:
  assumes "find (\<lambda>p. q_ino p = ino) ws = Some p"
  shows "ndirty (fst (unlink_watch ino ws)) = ndirty ws - (if has_flag (q_flags p) F_DIRTY then 1 else 0)"
  using assms by (induction ws) (auto simp: ndirty_def split: if_splits prod.splits)

text \<open>
  C38: When the directory of a dirty queue is removed, the counter of dirty queues is not taken back: it stays above zero in
  every later state, so from then on \<open>epoll_wait\<close> is called with the timeout of 250 ms although there is nothing to do.
\<close>

theorem removed_dirty_queue_polls:
  assumes "ued_reach c st" and "find (\<lambda>q. q_watchfd q = ev_wd ev) (watch_list st) = Some p"
    and "has_flag (ev_mask ev) IN_DELETE_SELF" and "has_flag (q_flags p) F_DIRTY"
    and "find (\<lambda>q. q_ino q = q_ino p) (watch_list st) = Some p"
  shows "\<exists>s. inotify_one c ev st = Inr s \<and> (\<forall>s'. ued_later c s s' \<longrightarrow> epoll_timeout s' = 250)"
proof -
  let ?s = "unwatch_path (q_ino p) st"
  have r: "inotify_one c ev st = Inr ?s" using assms(2,3) by (simp add: inotify_one_def watch_event_def)
  note I = ued_reach_inv [OF assms(1)]
  have ok: "watches_ok ?s" using keepsD [OF inotify_one_keeps conjunct1 [OF I] r] by blast
  have "dirty_gap ?s = dirty_gap st + 1"
    using unlink_found [OF assms(5)] assms(4) by (simp add: dirty_gap_def unwatch_path_def case_prod_beta)
  then have g: "1 \<le> dirty_gap ?s" using I by linarith
  have "epoll_timeout s' = 250" if l: "ued_later c ?s s'" for s'
  proof -
    have "1 \<le> dirty_gap s'" using ued_later_gap [OF l ok] g by linarith
    then have "dirty_queues s' \<noteq> 0" by (auto simp: dirty_gap_def ndirty_def)
    then show ?thesis by (simp add: epoll_timeout_def)
  qed
  then show ?thesis using r by blast
qed

theorem removed_dirty_queue_polls_witness:
  "\<exists>s. inotify_one sample_uconf \<lparr>ev_wd = 3, ev_mask = 0x400, ev_world = sample_uworld\<rparr> sample_ued = Inr s \<and> epoll_timeout s = 250"
proof -
  have "\<exists>s. inotify_one sample_uconf \<lparr>ev_wd = 3, ev_mask = 0x400, ev_world = sample_uworld\<rparr> sample_ued = Inr s
      \<and> (\<forall>s'. ued_later sample_uconf s s' \<longrightarrow> epoll_timeout s' = 250)"
    by (rule removed_dirty_queue_polls [OF ued_reach.start [OF sample_start], where p = sample_queue])
      (simp_all add: sample_ued_def sample_queue_def has_flag_def IN_DELETE_SELF_def F_DIRTY_def del: has_flag_bit)
  then show ?thesis using ued_later.now by blast
qed

section \<open>The timer\<close>

text \<open>The times to come that are named by the files of the timer queues, in the order they are read.\<close>

definition queue_dues :: "uworld \<Rightarrow> uconf \<Rightarrow> u64 \<Rightarrow> dirent \<Rightarrow> u64 list" where
  "queue_dues w c now e =
     (if snd e \<noteq> DT_DIR \<or> is_dot_dir e then []
      else case u_readdir w (queue_path (timer_dir c) (fst e)) of
             None \<Rightarrow> []
           | Some es \<Rightarrow>
               filter (\<lambda>d. now < d)
                 (map (\<lambda>f. parse_timer_due (fst f)) (filter (\<lambda>f. \<not> ((fst f \<noteq> [] \<and> hd (fst f) = CHR ''.'') \<or> snd f \<noteq> DT_REG)) es)))"

definition pending :: "uworld \<Rightarrow> uconf \<Rightarrow> u64 \<Rightarrow> u64 list" where
  "pending w c now = concat (map (queue_dues w c now) (case u_readdir w (timer_dir c) of None \<Rightarrow> [] | Some es \<Rightarrow> es))"

lemma timer_entry_next:
  assumes "timer_entry w c now q qp e (n, st) = Inr (n', st')"
  shows "n' = (if \<not> ((fst e \<noteq> [] \<and> hd (fst e) = CHR ''.'') \<or> snd e \<noteq> DT_REG) \<and> now < parse_timer_due (fst e)
               then min (parse_timer_due (fst e)) n else n)"
proof -
  have "now < d \<Longrightarrow> d \<noteq> 0" for d :: u64 using word_not_simps(1) by blast
  then show ?thesis using assms unfolding timer_entry_def Let_def
    by (cases "move_timer_event w c q qp (fst e) st") (auto simp: min_def split: if_splits)
qed

lemma timer_entries_next:
  assumes "fold_res (timer_entry w c now q qp) es (n, st) = Inr (n', st')"
  shows "n' = fold min (filter (\<lambda>d. now < d)
    (map (\<lambda>f. parse_timer_due (fst f)) (filter (\<lambda>f. \<not> ((fst f \<noteq> [] \<and> hd (fst f) = CHR ''.'') \<or> snd f \<noteq> DT_REG)) es))) n"
  using assms
proof (induction es arbitrary: n st)
  case (Cons e es)
  obtain m s where k: "timer_entry w c now q qp e (n, st) = Inr (m, s)" "fold_res (timer_entry w c now q qp) es (m, s) = Inr (n', st')"
    using Cons.prems by (auto simp: bind_res_Inr_iff)
  show ?case using Cons.IH [OF k(2)] timer_entry_next [OF k(1)] by (auto split: if_splits)
qed simp

lemma timer_queues_next:
  assumes "fold_res (timer_queue w c now) es (n, st) = Inr (n', st')"
  shows "n' = fold min (concat (map (queue_dues w c now) es)) n"
  using assms
proof (induction es arbitrary: n st)
  case (Cons e es)
  obtain m s where k: "timer_queue w c now e (n, st) = Inr (m, s)" "fold_res (timer_queue w c now) es (m, s) = Inr (n', st')"
    using Cons.prems by (auto simp: bind_res_Inr_iff)
  have "m = fold min (queue_dues w c now e) n"
  proof (cases "snd e \<noteq> DT_DIR \<or> is_dot_dir e")
    case True
    then show ?thesis using k(1) by (simp add: timer_queue_def queue_dues_def)
  next
    case False
    then obtain fs where "u_readdir w (queue_path (timer_dir c) (fst e)) = Some fs"
      "fold_res (timer_entry w c now (fst e) (queue_path (timer_dir c) (fst e))) fs (n, st) = Inr (m, s)"
      using k(1) by (auto simp: timer_queue_def Let_def bind_res_Inr_iff xopendir_def split: option.splits)
    then show ?thesis using timer_entries_next False by (simp add: queue_dues_def)
  qed
  then show ?case using Cons.IH [OF k(2)] by simp
qed simp

lemma fold_min_least: "fold min ds n = (if ds = [] then n else min n (Min (set ds)))" for n :: "'a::linorder"
proof (induction ds arbitrary: n)
  case (Cons d ds)
  then show ?case by (cases "ds = []") (simp_all add: min.assoc min.commute min.left_commute)
qed simp

lemma min_last [simp]: "min (- 1) d = d" for d :: u64
  by (simp add: min_def word_order.extremum_unique)

lemma sint_big:
  fixes n :: u64
  assumes "2 ^ 63 \<le> n"
  shows "sint n < 0"
proof -
  have n: "2 ^ 63 \<le> uint n" "uint n < 2 ^ 64" using assms uint_lt2p [of n] by (simp_all add: word_le_def)
  then have "uint n div 2 ^ 63 = 1" by (simp add: div_eq_dividend_iff zdiv_eq_0_iff)
  then have "bit (uint n) 63" by (simp add: bit_iff_odd)
  then have "sint n = take_bit 64 (uint n) - 2 ^ 64" by (simp add: sint_uint signed_take_bit_eq_take_bit_minus)
  moreover have "take_bit 64 (uint n) = uint n" using n by (simp add: take_bit_int_eq_self)
  ultimately show ?thesis using n by linarith
qed

lemma update_timerfd_next:
  assumes "update_timerfd w c st = Inr st'" and "u_now w = Some now"
  shows "timer_at st' = (let n = fold min (pending w c now) (- 1) in if n \<noteq> - 1 then sint n else 0)"
proof -
  obtain es n s where x: "u_readdir w (timer_dir c) = Some es" and f: "fold_res (timer_queue w c now) es (- 1, st) = Inr (n, s)"
    and st': "st' = s\<lparr>timer_at := (if n \<noteq> - 1 then sint n else 0), timer_changed := False\<rparr>"
    using assms by (auto simp: update_timerfd_def bind_res_Inr_iff xopendir_def Let_def split: if_splits option.splits)
  have "n = fold min (pending w c now) (- 1)" using timer_queues_next [OF f] x by (simp add: pending_def)
  then show ?thesis by (simp add: st' Let_def)
qed

text \<open>
  C22: An update of the timer sets it to the earliest of the times to come that the files of the timer queues name, and
  switches it off when there is none.
\<close>

theorem timer_set_to_earliest:
  assumes "update_timerfd w c st = Inr st'" and "u_now w = Some now" and "- 1 \<notin> set (pending w c now)"
  shows "if pending w c now = [] then timer_at st' = 0
    else \<exists>d \<in> set (pending w c now). timer_at st' = sint d \<and> (\<forall>d' \<in> set (pending w c now). d \<le> d')"
proof (cases "pending w c now = []")
  case True
  then show ?thesis using update_timerfd_next [OF assms(1,2)] by simp
next
  case False
  let ?d = "Min (set (pending w c now))"
  have d: "?d \<in> set (pending w c now)" "\<forall>d' \<in> set (pending w c now). ?d \<le> d'" using False by simp_all
  have "?d \<noteq> - 1" using d(1) assms(3) by metis
  then have "timer_at st' = sint ?d" using update_timerfd_next [OF assms(1,2)] False by (simp add: fold_min_least)
  then show ?thesis using False d by auto
qed

text \<open>Two timers in one queue, and one that is too late for a signed number.\<close>

definition timer_world :: "string list \<Rightarrow> uworld" where
  "timer_world names = sample_uworld\<lparr>u_readdir := (\<lambda>p. if p = ''t'' then Some [(''q'', DT_DIR)] else Some (map (\<lambda>n. (n, DT_REG)) names))\<rparr>"

lemmas timer_eval = timer_world_def sample_uworld_def sample_uconf_def pending_def queue_dues_def is_dot_dir_def queue_path_def
  parse_timer_due_def strtoul_def strip_sign_def strip_prefix_def isspace_def is_base_digit_def digit_val_def base_val_def Let_def
  update_timerfd_def timer_queue_def timer_entry_def xopendir_def

theorem timer_set_to_earliest_witness:
  "\<exists>st'. update_timerfd (timer_world [''70.a'', ''60.b'']) sample_uconf sample_ued = Inr st' \<and> timer_at st' = 60"
proof -
  let ?w = "timer_world [''70.a'', ''60.b'']"
  have p: "pending ?w sample_uconf 50 = [70, 60]" by (simp add: timer_eval)
  obtain st' where r: "update_timerfd ?w sample_uconf sample_ued = Inr st'" by (simp add: timer_eval)
  have "u_now ?w = Some 50" by (simp add: timer_world_def sample_uworld_def)
  from timer_set_to_earliest [OF r this] p have "\<exists>d \<in> {70, 60 :: u64}. timer_at st' = sint d \<and> (\<forall>d' \<in> {70, 60}. d \<le> d')" by simp
  then show ?thesis using r by auto
qed

text \<open>
  C39: A timer file whose time does not fit into a signed number of seconds ends the daemon: when the earliest time is at
  least \<open>2 ^ 63\<close>, the cast makes it negative, and since the kernel refuses a negative time, \<open>rd_fatal\<close> is called.
\<close>

theorem far_timer_ends_daemon:
  assumes "u_now w = Some now" and "pending w c now \<noteq> []" and "\<forall>d \<in> set (pending w c now). 2 ^ 63 \<le> d \<and> d \<noteq> - 1"
    and "\<And>t. t < 0 \<Longrightarrow> \<not> u_settime_ok w t"
  shows "\<exists>e. update_timerfd w c st = Inl e"
proof (rule ccontr)
  assume "\<nexists>e. update_timerfd w c st = Inl e"
  then obtain st' where r: "update_timerfd w c st = Inr st'" by (cases "update_timerfd w c st") auto
  obtain es n s where x: "u_readdir w (timer_dir c) = Some es" and f: "fold_res (timer_queue w c now) es (- 1, st) = Inr (n, s)"
    and ok: "u_settime_ok w (if n \<noteq> - 1 then sint n else 0)"
    using r assms(1) by (auto simp: update_timerfd_def bind_res_Inr_iff xopendir_def Let_def split: if_splits option.splits)
  have "n = fold min (pending w c now) (- 1)" using timer_queues_next [OF f] x by (simp add: pending_def)
  also have "\<dots> = Min (set (pending w c now))" using assms(2) by (simp add: fold_min_least)
  finally have "n \<in> set (pending w c now)" using assms(2) by simp
  then have n: "2 ^ 63 \<le> n" "n \<noteq> - 1" using assms(3) by auto
  have "sint n < 0" using n(1) by (rule sint_big)
  then show False using assms(4) ok n(2) by auto
qed

theorem far_timer_ends_daemon_witness:
  "\<exists>e. update_timerfd (timer_world [''9223372036854775808.a'']) sample_uconf sample_ued = Inl e"
proof (rule far_timer_ends_daemon [where now = 50])
  have p: "pending (timer_world [''9223372036854775808.a'']) sample_uconf 50 = [0x8000000000000000]" by (simp add: timer_eval)
  then show "pending (timer_world [''9223372036854775808.a'']) sample_uconf 50 \<noteq> []"
    and "\<forall>d \<in> set (pending (timer_world [''9223372036854775808.a'']) sample_uconf 50). 2 ^ 63 \<le> d \<and> d \<noteq> - 1" by simp_all
qed (simp_all add: timer_world_def sample_uworld_def)

section \<open>No event is lost\<close>







end
