(* ===== verification/DepBuiltin.thy ===== *)
theory DepBuiltin
  imports SearchTree
begin

text \<open>
  The table of modules that are built into the kernel (\<open>utils/depinfo/kmod-depinfo.c\<close>, from \<open>struct kernel_builtin\<close> to
  \<open>read_kernel_builtin\<close>): a search tree by name, and the tail queue of those that have aliases, with its pointers. An entry is
  named by its module name. Matching of patterns (\<open>fnmatch\<close>) is a parameter.
\<close>

section \<open>The table\<close>

record kernel_builtin =
  b_name :: string
  b_aliases :: "string list"
  b_firmware :: "string list"
  b_tracked :: bool

text \<open>The head and the links of the \<open>STAILQ\<close>; the last pointer is \<open>None\<close> when it points at the head.\<close>

record builtins =
  kb_tree :: "kernel_builtin list"
  al_first :: "string option"
  al_last :: "string option"
  al_next :: "string \<rightharpoonup> string"

definition free_kernel_builtin :: builtins where
  "free_kernel_builtin = \<lparr>kb_tree = [], al_first = None, al_last = None, al_next = Map.empty\<rparr>"

definition get_builtin :: "builtins \<Rightarrow> string \<Rightarrow> kernel_builtin option" where
  "get_builtin kb n = tfind strcmp b_name n (kb_tree kb)"

text \<open>\<open>STAILQ_FOREACH\<close> up to the first element with a property; it does not end on a cyclic list.\<close>

partial_function (option) alias_walk :: "(string \<Rightarrow> bool) \<Rightarrow> (string \<rightharpoonup> string) \<Rightarrow> string option \<Rightarrow> string option option" where
  "alias_walk test nx cur =
     (case cur of None \<Rightarrow> Some None | Some n \<Rightarrow> if test n then Some (Some n) else alias_walk test nx (nx n))"

definition alias_match :: "(string \<Rightarrow> string \<Rightarrow> bool) \<Rightarrow> builtins \<Rightarrow> string \<Rightarrow> string \<Rightarrow> bool" where
  "alias_match fnm kb str n = (case get_builtin kb n of None \<Rightarrow> False | Some b \<Rightarrow> list_ex (\<lambda>a. fnm a str) (b_aliases b))"

text \<open>The outer option says whether the function returns, the inner one is the pointer.\<close>

definition find_kernel_builtin :: "(string \<Rightarrow> string \<Rightarrow> bool) \<Rightarrow> builtins \<Rightarrow> string \<Rightarrow> kernel_builtin option option" where
  "find_kernel_builtin fnm kb str =
     (if str = [] then Some None
      else case get_builtin kb str of
             Some b \<Rightarrow> Some (Some b)
           | None \<Rightarrow>
               map_option (\<lambda>r. Option.bind r (get_builtin kb)) (alias_walk (alias_match fnm kb str) (al_next kb) (al_first kb)))"

definition new_builtin :: "string \<Rightarrow> kernel_builtin" where
  "new_builtin name = \<lparr>b_name = name, b_aliases = [], b_firmware = [], b_tracked = False\<rparr>"

definition append_kernel_builtin :: "string \<Rightarrow> builtins \<Rightarrow> builtins" where
  "append_kernel_builtin name kb =
     (case get_builtin kb name of
        Some _ \<Rightarrow> kb
      | None \<Rightarrow> kb\<lparr>kb_tree := snd (tsearch strcmp b_name (new_builtin name) (kb_tree kb))\<rparr>)"

definition append_string_entry :: "string \<Rightarrow> string list \<Rightarrow> string list" where
  "append_string_entry str xs = (if str = [] then xs else xs @ [str])"

definition upd_builtin :: "string \<Rightarrow> (kernel_builtin \<Rightarrow> kernel_builtin) \<Rightarrow> builtins \<Rightarrow> builtins" where
  "upd_builtin name f kb = kb\<lparr>kb_tree := map (\<lambda>b. if b_name b = name then f b else b) (kb_tree kb)\<rparr>"

text \<open>\<open>STAILQ_INSERT_TAIL\<close>: the link of the new element is cleared before the last link is set.\<close>

definition stailq_insert_tail :: "string \<Rightarrow> builtins \<Rightarrow> builtins" where
  "stailq_insert_tail n kb =
     (let nx = (al_next kb)(n := None)
      in case al_last kb of
           None \<Rightarrow> kb\<lparr>al_first := Some n, al_next := nx, al_last := Some n\<rparr>
         | Some l \<Rightarrow> kb\<lparr>al_next := nx(l \<mapsto> n), al_last := Some n\<rparr>)"

definition append_kernel_builtin_alias :: "string \<Rightarrow> string \<Rightarrow> builtins \<Rightarrow> builtins" where
  "append_kernel_builtin_alias name alias kb =
     (let kb1 = (case get_builtin kb name of
                   None \<Rightarrow> kb
                 | Some b \<Rightarrow> if b_aliases b = [] then stailq_insert_tail name kb else kb)
      in upd_builtin name (\<lambda>b. b\<lparr>b_aliases := append_string_entry alias (b_aliases b)\<rparr>) kb1)"

section \<open>Reading the table\<close>

datatype builtin_file = NoFile | FileFails | Contents string
datatype builtin_error = OutOfBounds | ReadBuiltinFails

text \<open>A mapping is filled up with zeros to the end of its last page.\<close>

definition mapped :: "string \<Rightarrow> string" where
  "mapped m = m @ replicate ((4096 - length m mod 4096) mod 4096) NUL"

text \<open>A string \<open>module.field=value\<close>; \<open>None\<close> when it has another form.\<close>

definition split_entry :: "string \<Rightarrow> (string \<times> string \<times> string) option" where
  "split_entry s =
     (case split_first (CHR ''='') s of
        None \<Rightarrow> None
      | Some (lhs, val) \<Rightarrow>
          (case split_last (CHR ''.'') lhs of None \<Rightarrow> None | Some (name, field) \<Rightarrow> Some (name, field, val)))"

definition add_entry :: "string \<times> string \<times> string \<Rightarrow> builtins \<Rightarrow> builtins" where
  "add_entry e kb =
     (case e of (name, field, val) \<Rightarrow>
        let kb1 = append_kernel_builtin name kb
        in if field = ''alias'' then append_kernel_builtin_alias name val kb1
           else if field = ''firmware''
           then upd_builtin name (\<lambda>b. b\<lparr>b_firmware := append_string_entry val (b_firmware b)\<rparr>) kb1
           else kb1)"

function read_builtin_loop :: "string \<Rightarrow> nat \<Rightarrow> nat \<Rightarrow> builtins \<Rightarrow> builtin_error + builtins" where
  "read_builtin_loop addr siz bytes kb =
     (if bytes < siz
      then (case cstr addr bytes of
              None \<Rightarrow> Inl OutOfBounds
            | Some s \<Rightarrow>
                (case split_entry s of
                   None \<Rightarrow> Inr free_kernel_builtin
                 | Some e \<Rightarrow> read_builtin_loop addr siz (bytes + length s + 1) (add_entry e kb)))
      else Inr kb)"
  by pat_completeness auto
termination by (relation "measure (\<lambda>(addr, siz, bytes, kb). siz - bytes)") auto

declare read_builtin_loop.simps [simp del]

definition read_kernel_builtin :: "builtin_file \<Rightarrow> builtins \<Rightarrow> builtin_error + builtins" where
  "read_kernel_builtin f kb =
     (case f of
        NoFile \<Rightarrow> Inr kb
      | FileFails \<Rightarrow> Inl ReadBuiltinFails
      | Contents m \<Rightarrow> if m = [] then Inl ReadBuiltinFails else read_builtin_loop (mapped m) (length m) 0 kb)"

section \<open>The queue of modules with aliases\<close>

text \<open>The links form the list \<open>ns\<close>.\<close>

fun alias_linked :: "(string \<rightharpoonup> string) \<Rightarrow> string list \<Rightarrow> bool" where
  "alias_linked nx [] = True"
| "alias_linked nx [n] = (nx n = None)"
| "alias_linked nx (n # m # ns) = (nx n = Some m \<and> alias_linked nx (m # ns))"

definition alias_queue :: "builtins \<Rightarrow> string list \<Rightarrow> bool" where
  "alias_queue kb ns \<longleftrightarrow>
     distinct ns \<and> alias_linked (al_next kb) ns
     \<and> al_first kb = (if ns = [] then None else Some (hd ns)) \<and> al_last kb = (if ns = [] then None else Some (last ns))"

lemma alias_linked_other: "n \<notin> set ns \<Longrightarrow> alias_linked (nx(n := v)) ns = alias_linked nx ns"
  by (induction nx ns rule: alias_linked.induct) auto

lemma alias_linked_snoc:
  "distinct (ns @ [l, n]) \<Longrightarrow> alias_linked nx (ns @ [l]) \<Longrightarrow> nx n = None \<Longrightarrow> alias_linked (nx(l \<mapsto> n)) (ns @ [l, n])"
proof (induction ns)
  case (Cons a ns)
  then show ?case by (cases ns) auto
qed auto

lemma insert_tail_queue:
  assumes q: "alias_queue kb ns" and new: "n \<notin> set ns"
  shows "alias_queue (stailq_insert_tail n kb) (ns @ [n])"
proof (cases ns rule: rev_cases)
  case Nil
  then show ?thesis using q by (simp add: alias_queue_def stailq_insert_tail_def)
next
  case (snoc xs l)
  have "alias_linked ((al_next kb)(n := None)) (xs @ [l])" using q new snoc by (simp add: alias_queue_def alias_linked_other)
  then have "alias_linked ((al_next kb)(n := None, l \<mapsto> n)) (xs @ [l, n])"
    using q new snoc by (intro alias_linked_snoc) (auto simp: alias_queue_def)
  then show ?thesis using q new snoc by (auto simp: alias_queue_def stailq_insert_tail_def Let_def hd_append)
qed

lemma alias_walk_returns: "alias_linked nx ns \<Longrightarrow> \<exists>r. alias_walk P nx (if ns = [] then None else Some (hd ns)) = Some r"
proof (induction nx ns rule: alias_linked.induct)
  case (1 nx)
  then show ?case by (subst alias_walk.simps) simp
next
  case (2 nx n)
  then show ?case by (subst alias_walk.simps, simp, subst alias_walk.simps) simp
next
  case (3 nx n m ns)
  then show ?case by (subst alias_walk.simps) simp
qed

text \<open>The invariant: the tree is sorted, and the queue holds exactly the modules with aliases.\<close>

definition builtins_ok :: "builtins \<Rightarrow> bool" where
  "builtins_ok kb \<longleftrightarrow>
     tree_sorted strcmp b_name (kb_tree kb)
     \<and> (\<exists>ns. alias_queue kb ns \<and> set ns = b_name ` {b \<in> set (kb_tree kb). b_aliases b \<noteq> []})"

lemma find_returns: "builtins_ok kb \<Longrightarrow> \<exists>r. find_kernel_builtin fnm kb str = Some r"
  using alias_walk_returns unfolding builtins_ok_def alias_queue_def find_kernel_builtin_def
  by (fastforce split: option.splits)

section \<open>The table stays well formed\<close>

lemma get_builtin_Some:
  "tree_sorted strcmp b_name (kb_tree kb) \<Longrightarrow> get_builtin kb n = Some b \<longleftrightarrow> b \<in> set (kb_tree kb) \<and> b_name b = n"
  unfolding get_builtin_def by (rule str_order.tfind_Some)

lemma tree_sorted_map:
  "(\<And>b. b_name (f b) = b_name b) \<Longrightarrow> tree_sorted strcmp b_name (map f t) = tree_sorted strcmp b_name t"
  by (simp add: tree_sorted_def sorted_wrt_map)

lemma append_kernel_builtin_ok [inv_intros]:
  assumes "builtins_ok kb"
  shows "builtins_ok (append_kernel_builtin name kb)"
proof (cases "get_builtin kb name")
  case None
  let ?t = "snd (tsearch strcmp b_name (new_builtin name) (kb_tree kb))"
  have so: "tree_sorted strcmp b_name (kb_tree kb)" using assms by (simp add: builtins_ok_def)
  have "set ?t = set (kb_tree kb) \<or> set ?t = insert (new_builtin name) (set (kb_tree kb))"
    using str_order.tsearch_set [OF so, of "new_builtin name"] by metis
  then have "{b \<in> set ?t. b_aliases b \<noteq> []} = {b \<in> set (kb_tree kb). b_aliases b \<noteq> []}"
    by (auto simp: new_builtin_def)
  moreover have "tree_sorted strcmp b_name ?t" by (rule str_order.tsearch_sorted [OF so])
  ultimately show ?thesis using assms None by (simp add: append_kernel_builtin_def builtins_ok_def alias_queue_def)
qed (use assms in \<open>simp add: append_kernel_builtin_def\<close>)

lemma append_kernel_builtin_get:
  assumes "builtins_ok kb"
  shows "\<exists>b. get_builtin (append_kernel_builtin name kb) name = Some b"
proof (cases "get_builtin kb name")
  case None
  have so: "tree_sorted strcmp b_name (kb_tree kb)" using assms by (simp add: builtins_ok_def)
  let ?kb = "append_kernel_builtin name kb"
  have "new_builtin name \<in> set (kb_tree ?kb)"
    using str_order.tsearch_set [OF so, of "new_builtin name"] None get_builtin_Some [OF so, of name]
    by (auto simp: append_kernel_builtin_def new_builtin_def)
  moreover have "tree_sorted strcmp b_name (kb_tree ?kb)" using append_kernel_builtin_ok [OF assms] by (simp add: builtins_ok_def)
  ultimately show ?thesis using get_builtin_Some [of ?kb name "new_builtin name"] by (auto simp: new_builtin_def)
qed (simp add: append_kernel_builtin_def)

lemma upd_builtin_ok:
  assumes "builtins_ok kb" "\<And>b. b_name (f b) = b_name b" "\<And>b. (b_aliases (f b) = []) = (b_aliases b = [])"
  shows "builtins_ok (upd_builtin name f kb)"
proof -
  define g where "g = (\<lambda>b. if b_name b = name then f b else b)"
  have g: "b_name (g b) = b_name b" "(b_aliases (g b) = []) = (b_aliases b = [])" for b using assms(2,3) by (simp_all add: g_def)
  have "{b \<in> g ` set (kb_tree kb). b_aliases b \<noteq> []} = g ` {b \<in> set (kb_tree kb). b_aliases b \<noteq> []}" using g(2) by blast
  then have "b_name ` {b \<in> g ` set (kb_tree kb). b_aliases b \<noteq> []} = b_name ` {b \<in> set (kb_tree kb). b_aliases b \<noteq> []}"
    by (simp add: image_image g(1))
  moreover have "upd_builtin name f kb = kb\<lparr>kb_tree := map g (kb_tree kb)\<rparr>" by (simp add: upd_builtin_def g_def)
  ultimately show ?thesis using assms(1) tree_sorted_map [of g, OF g(1)] by (simp add: builtins_ok_def alias_queue_def)
qed

lemma append_alias_ok:
  assumes ok: "builtins_ok kb" and b: "get_builtin kb name = Some b" and al: "alias \<noteq> []"
  shows "builtins_ok (append_kernel_builtin_alias name alias kb)"
proof (cases "b_aliases b = []")
  case False
  let ?f = "\<lambda>b. b\<lparr>b_aliases := append_string_entry alias (b_aliases b)\<rparr>"
  have so: "tree_sorted strcmp b_name (kb_tree kb)" using ok by (simp add: builtins_ok_def)
  have "upd_builtin name ?f kb = upd_builtin name (\<lambda>x. if x = b then ?f x else x) kb"
  proof -
    have "\<And>x. x \<in> set (kb_tree kb) \<Longrightarrow> b_name x = name \<Longrightarrow> x = b"
      using get_builtin_Some [OF so, of name] b by (metis option.inject)
    then have "map (\<lambda>x. if b_name x = name then ?f x else x) (kb_tree kb)
        = map (\<lambda>x. if b_name x = name then (if x = b then ?f x else x) else x) (kb_tree kb)" by (intro map_cong) auto
    then show ?thesis unfolding upd_builtin_def by (simp only:)
  qed
  moreover have "builtins_ok \<dots>" using False by (intro upd_builtin_ok [OF ok]) (auto simp: append_string_entry_def)
  ultimately show ?thesis using b False by (simp add: append_kernel_builtin_alias_def Let_def)
next
  case True
  define g where "g = (\<lambda>b :: kernel_builtin. if b_name b = name then b\<lparr>b_aliases := b_aliases b @ [alias]\<rparr> else b)"
  have g: "b_name (g b) = b_name b" "b_aliases (g b) \<noteq> [] \<longleftrightarrow> b_aliases b \<noteq> [] \<or> b_name b = name" for b by (simp_all add: g_def)
  obtain ns where q: "alias_queue kb ns" and ns: "set ns = b_name ` {b \<in> set (kb_tree kb). b_aliases b \<noteq> []}"
    and so: "tree_sorted strcmp b_name (kb_tree kb)" using ok by (auto simp: builtins_ok_def)
  have bt: "b \<in> set (kb_tree kb)" "b_name b = name" and uniq: "\<And>x. x \<in> set (kb_tree kb) \<Longrightarrow> b_name x = name \<Longrightarrow> x = b"
    using get_builtin_Some [OF so, of name] b by (metis option.inject)+
  have new: "name \<notin> set ns" using ns uniq True by auto
  have "{x \<in> g ` set (kb_tree kb). b_aliases x \<noteq> []} = g ` {x \<in> set (kb_tree kb). b_aliases x \<noteq> [] \<or> b_name x = name}"
    using g(2) by blast
  then have "b_name ` {x \<in> g ` set (kb_tree kb). b_aliases x \<noteq> []} = b_name ` {x \<in> set (kb_tree kb). b_aliases x \<noteq> [] \<or> b_name x = name}"
    by (simp add: image_image g(1))
  also have "\<dots> = set (ns @ [name])" using ns bt by auto
  finally have img: "b_name ` {x \<in> g ` set (kb_tree kb). b_aliases x \<noteq> []} = set (ns @ [name])" .
  have so': "tree_sorted strcmp b_name (map g (kb_tree kb))" using so tree_sorted_map [of g, OF g(1)] by simp
  have q': "alias_queue (stailq_insert_tail name kb) (ns @ [name])" by (rule insert_tail_queue [OF q new])
  have tree: "kb_tree (stailq_insert_tail name kb) = kb_tree kb" by (simp add: stailq_insert_tail_def Let_def split: option.splits)
  have e: "append_kernel_builtin_alias name alias kb = (stailq_insert_tail name kb)\<lparr>kb_tree := map g (kb_tree kb)\<rparr>"
    using b True al by (simp add: append_kernel_builtin_alias_def upd_builtin_def append_string_entry_def g_def tree)
  show ?thesis unfolding e builtins_ok_def using so' q' img by (auto simp: alias_queue_def intro!: exI [of _ "ns @ [name]"])
qed

definition builtin_entry_ok :: "string \<times> string \<times> string \<Rightarrow> bool" where
  "builtin_entry_ok e = (case e of (name, field, val) \<Rightarrow> field = ''alias'' \<longrightarrow> val \<noteq> [])"

lemma add_entry_ok [inv_intros]:
  assumes "builtins_ok kb" "builtin_entry_ok e"
  shows "builtins_ok (add_entry e kb)"
proof -
  obtain name field val where e: "e = (name, field, val)" by (cases e)
  let ?kb = "append_kernel_builtin name kb"
  have ok: "builtins_ok ?kb" by (rule append_kernel_builtin_ok [OF assms(1)])
  obtain b where b: "get_builtin ?kb name = Some b" using append_kernel_builtin_get [OF assms(1)] by blast
  have "builtins_ok (upd_builtin name (\<lambda>b. b\<lparr>b_firmware := append_string_entry val (b_firmware b)\<rparr>) ?kb)"
    by (rule upd_builtin_ok [OF ok]) simp_all
  then show ?thesis using append_alias_ok [OF ok b] assms(2) ok by (auto simp: e add_entry_def builtin_entry_ok_def Let_def)
qed

lemma free_kernel_builtin_ok [inv_intros]: "builtins_ok free_kernel_builtin"
  by (auto simp: builtins_ok_def free_kernel_builtin_def alias_queue_def tree_sorted_def)

text \<open>The strings of a file are in order when no alias among them is empty.\<close>

definition file_ok :: "string \<Rightarrow> nat \<Rightarrow> bool" where
  "file_ok addr siz \<longleftrightarrow>
     list_all (\<lambda>i. case Option.bind (cstr addr i) split_entry of None \<Rightarrow> True | Some e \<Rightarrow> builtin_entry_ok e) [0..<siz]"

lemma file_okD: "file_ok addr siz \<Longrightarrow> i < siz \<Longrightarrow> cstr addr i = Some s \<Longrightarrow> split_entry s = Some e \<Longrightarrow> builtin_entry_ok e"
proof -
  assume f: "file_ok addr siz" and i: "i < siz" and s: "cstr addr i = Some s" and e: "split_entry s = Some e"
  have "case Option.bind (cstr addr i) split_entry of None \<Rightarrow> True | Some e \<Rightarrow> builtin_entry_ok e"
    using f i unfolding file_ok_def list_all_iff by simp
  then show ?thesis using s e by simp
qed

lemma read_builtin_loop_ok:
  assumes "builtins_ok kb" "file_ok addr siz" "read_builtin_loop addr siz bytes kb = Inr kb'"
  shows "builtins_ok kb'"
  using assms
proof (induction addr siz bytes kb rule: read_builtin_loop.induct)
  case (1 addr siz bytes kb)
  show ?case
  proof (cases "bytes < siz")
    case False
    then show ?thesis using 1 by (simp add: read_builtin_loop.simps)
  next
    case True
    then obtain s where s: "cstr addr bytes = Some s"
      using "1.prems"(3) by (cases "cstr addr bytes") (simp_all add: read_builtin_loop.simps [of addr siz bytes])
    show ?thesis
    proof (cases "split_entry s")
      case None
      then show ?thesis using "1.prems"(3) True s free_kernel_builtin_ok by (simp add: read_builtin_loop.simps [of addr siz bytes])
    next
      case (Some e)
      have "builtin_entry_ok e" by (rule file_okD [OF "1.prems"(2) True s Some])
      then have "builtins_ok (add_entry e kb)" by (rule add_entry_ok [OF "1.prems"(1)])
      then show ?thesis using "1.IH" [OF True s Some _ "1.prems"(2)] "1.prems"(3) True s Some
        by (simp add: read_builtin_loop.simps [of addr siz bytes])
    qed
  qed
qed

text \<open>
  C24: Reading a file in which no alias is empty keeps the table well formed, so every later search for a name or an alias
  returns.
\<close>

theorem builtin_lookup_returns:
  assumes "builtins_ok kb" and "file_ok (mapped m) (length m)" and "read_kernel_builtin (Contents m) kb = Inr kb'"
  shows "builtins_ok kb' \<and> (\<exists>r. find_kernel_builtin fnm kb' str = Some r)"
proof -
  have "builtins_ok kb'"
    using read_builtin_loop_ok [OF assms(1,2)] assms(3) by (auto simp: read_kernel_builtin_def split: if_splits)
  then show ?thesis using find_returns by blast
qed

lemma cstr_mapped: "i < length m \<Longrightarrow> last m = NUL \<Longrightarrow> cstr (mapped m) i = cstr m i"
proof -
  assume i: "i < length m" and l: "last m = NUL"
  then have "NUL \<in> set (drop i m)" by (metis drop_eq_Nil last_drop last_in_set leD)
  then show ?thesis using i by (auto simp: mapped_def cstr_def takeWhile_append)
qed

theorem builtin_lookup_returns_witness:
  "\<exists>kb'. read_kernel_builtin (Contents (''m.alias=x'' @ [NUL])) free_kernel_builtin = Inr kb'
     \<and> (\<exists>r. find_kernel_builtin (\<lambda>a s. a = s) kb' ''y'' = Some r)"
proof -
  let ?m = "''m.alias=x'' @ [NUL]"
  have c: "cstr (mapped ?m) i = cstr ?m i" if "i < 10" for i using that by (intro cstr_mapped) auto
  have f: "file_ok (mapped ?m) (length ?m)"
  proof -
    have "[0..<length ?m] = [0, 1, 2, 3, 4, 5, 6, 7, 8, 9]" by code_simp
    moreover have "case Option.bind (cstr ?m i) split_entry of None \<Rightarrow> True | Some e \<Rightarrow> builtin_entry_ok e" if "i \<in> set [0, 1, 2, 3, 4, 5, 6, 7, 8, 9]" for i
      using that by (auto simp: cstr_def split_entry_def split_first_def builtin_entry_ok_def)
    ultimately show ?thesis unfolding file_ok_def list_all_iff using c by auto
  qed
  have "cstr (mapped ?m) 0 = Some ''m.alias=x''" using c [of 0] by (simp add: cstr_def)
  then obtain kb' where r: "read_kernel_builtin (Contents ?m) free_kernel_builtin = Inr kb'"
    by (simp add: read_kernel_builtin_def read_builtin_loop.simps split_entry_def split_first_def)
  from builtin_lookup_returns [OF free_kernel_builtin_ok f this, of "\<lambda>a s. a = s" "''y''"] r show ?thesis by blast
qed




end
