(* ===== verification/Depinfo.thy ===== *)
theory Depinfo
  imports DepBuiltin
begin

text \<open>
  The search of \<open>depinfo\<close> for the modules and firmware a module needs (\<open>utils/depinfo/kmod-depinfo.c\<close>). libkmod is a record of
  functions (\<open>k_info\<close> to \<open>k_builtin\<close>, and \<open>k_new\<close> for \<open>kmod_new\<close>; \<open>None\<close> is an error), the file system the answers of \<open>access\<close>, \<open>glob\<close> and \<open>stat\<close>,
  the lines of an input file (those of the standard input under the name \<open>-\<close>), the contents of the file with the firmware path and
  the files on built-in modules. Output is a list of depth, keyword and value; \<open>print_line\<close> is
  the text of such a line. A function of the source returns a negative number or not; here it returns whether it failed.
  The recursion between \<open>depinfo\<close>, \<open>depinfo_alias\<close> and \<open>process_module_list\<close> is bounded by a depth; \<open>None\<close> is a search that does not return.
\<close>

section \<open>State and options\<close>

record kmodule =
  m_name :: string
  m_path :: "string option"

record kmod =
  k_info :: "kmodule \<Rightarrow> (string \<times> string) list option"
  k_lookup :: "string \<Rightarrow> kmodule list option"
  k_from_path :: "string \<Rightarrow> kmodule option"
  k_softdeps :: "kmodule \<Rightarrow> (kmodule list \<times> kmodule list) option"
  k_weakdeps :: "kmodule \<Rightarrow> kmodule list option"
  k_blacklist :: "kmodule list \<Rightarrow> kmodule list option"
  k_builtin :: "kmodule list \<Rightarrow> kmodule list option"
  k_fnmatch :: "string \<Rightarrow> string \<Rightarrow> bool"
  k_access :: "string \<Rightarrow> bool"
  k_glob :: "string \<Rightarrow> string list"
  k_is_reg :: "string \<Rightarrow> bool"
  k_lines :: "string \<Rightarrow> string list option"
  k_class_path :: "string option"
  k_modinfo :: "string \<Rightarrow> builtin_file"
  k_new :: "string \<Rightarrow> bool"

record dep_opts =
  SHOW_DEPS :: bool
  SHOW_MODULES :: bool
  SHOW_FIRMWARE :: bool
  SHOW_PREFIX :: bool
  SHOW_BUILTIN :: bool
  SHOW_MISSING_FIRMWARE :: bool
  use_blacklist :: bool
  kversion :: string
  firmware_dir :: string
  firmware_class_path :: string

record dep_state =
  show_tree :: int
  d_builtins :: builtins
  tracked_modules :: "string list"
  d_out :: "(int \<times> string \<times> string) list"

definition default_opts :: "string \<Rightarrow> dep_opts" where
  "default_opts kv = \<lparr>SHOW_DEPS = True, SHOW_MODULES = True, SHOW_FIRMWARE = True, SHOW_PREFIX = True, SHOW_BUILTIN = True,
     SHOW_MISSING_FIRMWARE = False, use_blacklist = False, kversion = kv,
     firmware_dir = ''/lib/firmware/updates:/lib/firmware'', firmware_class_path = []\<rparr>"

section \<open>Output\<close>

definition show_with_prefix :: "string \<Rightarrow> string \<Rightarrow> dep_state \<Rightarrow> dep_state" where
  "show_with_prefix keyword val st = st\<lparr>d_out := d_out st @ [(show_tree st, keyword, val)]\<rparr>"

definition print_line :: "dep_opts \<Rightarrow> int \<times> string \<times> string \<Rightarrow> string" where
  "print_line cf l =
     (case l of (depth, keyword, val) \<Rightarrow>
        (if depth - 1 > 0 then concat (replicate (nat (depth - 1)) ''   '') @ [CHR 0x5C, CHR ''_'', CHR '' ''] else [])
        @ (if SHOW_PREFIX cf then keyword @ '' '' else []) @ val @ [CHR 0x0A])"

section \<open>Modules that were seen\<close>

text \<open>\<open>tracked_module\<close>: whether the path was seen; a new one is remembered. A module without a path is never remembered.\<close>

definition tracked_module :: "kmodule \<Rightarrow> dep_state \<Rightarrow> bool \<times> dep_state" where
  "tracked_module m st =
     (case m_path m of
        None \<Rightarrow> (False, st)
      | Some p \<Rightarrow>
          if tfind strcmp id p (tracked_modules st) \<noteq> None then (True, st)
          else (False, st\<lparr>tracked_modules := snd (tsearch strcmp id p (tracked_modules st))\<rparr>))"

section \<open>Firmware\<close>

definition expand_pattern :: "kmod \<Rightarrow> string \<Rightarrow> string \<Rightarrow> dep_state \<Rightarrow> bool \<times> dep_state" where
  "expand_pattern k keyword pattern st =
     (if k_access k pattern then (True, show_with_prefix keyword pattern st)
      else (k_glob k pattern \<noteq> [], fold (show_with_prefix keyword) (k_glob k pattern) st))"

definition MAXPATHLEN :: nat where "MAXPATHLEN = 4096"

definition suffixes :: "string list" where
  "suffixes = [[], ''.zst'', ''.xz'', ''.bz2'', ''.gz'']"

text \<open>The two names tried for a suffix, cut off by \<open>snprintf\<close> at the end of the buffer.\<close>

definition firmware_names :: "dep_opts \<Rightarrow> string \<Rightarrow> string \<Rightarrow> string \<Rightarrow> string list" where
  "firmware_names cf base pattern suf =
     map (\<lambda>s. base @ take (MAXPATHLEN - length base - 1) s)
       [''/'' @ kversion cf @ ''/'' @ pattern @ suf, ''/'' @ pattern @ suf]"

fun try_names :: "kmod \<Rightarrow> string list \<Rightarrow> dep_state \<Rightarrow> bool \<times> dep_state" where
  "try_names k [] st = (False, st)"
| "try_names k (n # ns) st =
     (case expand_pattern k ''firmware'' n st of (found, st') \<Rightarrow> if found then (True, st') else try_names k ns st')"

definition process_firmware_pattern :: "kmod \<Rightarrow> dep_opts \<Rightarrow> string \<Rightarrow> string \<Rightarrow> dep_state \<Rightarrow> bool \<times> dep_state" where
  "process_firmware_pattern k cf base pattern st =
     (if length base \<ge> MAXPATHLEN then (False, st)
      else try_names k (concat (map (firmware_names cf base pattern) suffixes)) st)"

fun try_dirs :: "kmod \<Rightarrow> dep_opts \<Rightarrow> string \<Rightarrow> string list \<Rightarrow> dep_state \<Rightarrow> bool \<times> dep_state" where
  "try_dirs k cf pattern [] st = (False, st)"
| "try_dirs k cf pattern (d # ds) st =
     (if d = [] then try_dirs k cf pattern ds st
      else case process_firmware_pattern k cf d pattern st of
             (found, st') \<Rightarrow> if found then (True, st') else try_dirs k cf pattern ds st')"

definition process_firmware :: "kmod \<Rightarrow> dep_opts \<Rightarrow> string \<Rightarrow> dep_state \<Rightarrow> dep_state" where
  "process_firmware k cf pattern st =
     (case try_dirs k cf pattern (firmware_class_path cf # split_on (CHR '':'') (firmware_dir cf)) st of
        (found, st') \<Rightarrow>
          if found then st'
          else if SHOW_MISSING_FIRMWARE cf then show_with_prefix ''missing-firmware'' pattern st' else st')"

section \<open>Built-in modules\<close>

definition mark_builtin :: "string \<Rightarrow> dep_state \<Rightarrow> dep_state" where
  "mark_builtin name st = st\<lparr>d_builtins := upd_builtin name (\<lambda>b. b\<lparr>b_tracked := True\<rparr>) (d_builtins st)\<rparr>"

definition find_builtin :: "kmod \<Rightarrow> dep_state \<Rightarrow> string \<Rightarrow> kernel_builtin option option" where
  "find_builtin k st = find_kernel_builtin (k_fnmatch k) (d_builtins st)"

definition show_builtin :: "kmod \<Rightarrow> dep_opts \<Rightarrow> string \<Rightarrow> string list \<Rightarrow> dep_state \<Rightarrow> dep_state" where
  "show_builtin k cf name firmware st =
     (let st1 = (if SHOW_BUILTIN cf then show_with_prefix ''builtin'' name st else st);
          st2 = (if SHOW_BUILTIN cf \<and> show_tree st1 \<noteq> 0 then st1\<lparr>show_tree := show_tree st1 + 1\<rparr> else st1);
          st3 = (if SHOW_FIRMWARE cf then fold (process_firmware k cf) firmware st2 else st2)
      in if SHOW_BUILTIN cf \<and> show_tree st3 > 1 then st3\<lparr>show_tree := show_tree st3 - 1\<rparr> else st3)"

definition process_builtin :: "kmod \<Rightarrow> dep_opts \<Rightarrow> string \<Rightarrow> dep_state \<Rightarrow> dep_state option" where
  "process_builtin k cf name st =
     (case find_builtin k st name of
        None \<Rightarrow> None
      | Some None \<Rightarrow> Some (show_builtin k cf name [] st)
      | Some (Some b) \<Rightarrow>
          if b_tracked b then Some st
          else Some (show_builtin k cf (b_name b) (b_firmware b) (mark_builtin (b_name b) st)))"

section \<open>The search\<close>

text \<open>A loop that runs all its calls and fails when one of them failed.\<close>

fun each :: "('a \<Rightarrow> 's \<Rightarrow> (bool \<times> 's) option) \<Rightarrow> 'a list \<Rightarrow> 's \<Rightarrow> (bool \<times> 's) option" where
  "each f [] st = Some (False, st)"
| "each f (x # xs) st =
     (case f x st of
        None \<Rightarrow> None
      | Some (r1, st1) \<Rightarrow>
          (case each f xs st1 of None \<Rightarrow> None | Some (r2, st2) \<Rightarrow> Some (r1 \<or> r2, st2)))"

type_synonym dep_step = "dep_state \<Rightarrow> (bool \<times> dep_state) option"

definition module_in_list :: "kmodule \<Rightarrow> kmodule list \<Rightarrow> bool" where
  "module_in_list m ms = list_ex (\<lambda>x. m_name x = m_name m) ms"

definition builtin_step :: "kmod \<Rightarrow> dep_opts \<Rightarrow> string \<Rightarrow> dep_step" where
  "builtin_step k cf name st = map_option (Pair False) (process_builtin k cf name st)"

definition list_step :: "(kmodule \<Rightarrow> dep_step) \<Rightarrow> kmod \<Rightarrow> dep_opts \<Rightarrow> kmodule \<Rightarrow> dep_step" where
  "list_step rec k cf m st =
     (case find_builtin k st (m_name m) of
        None \<Rightarrow> None
      | Some (Some _) \<Rightarrow> builtin_step k cf (m_name m) st
      | Some None \<Rightarrow> rec m st)"

definition process_module_list :: "(kmodule \<Rightarrow> dep_step) \<Rightarrow> kmod \<Rightarrow> dep_opts \<Rightarrow> kmodule list \<Rightarrow> dep_step" where
  "process_module_list rec k cf ms st =
     (if ms = [] then Some (False, st)
      else case (if use_blacklist cf then k_blacklist k ms else Some ms) of
             None \<Rightarrow> Some (True, st)
           | Some ms1 \<Rightarrow>
               if ms1 = [] then Some (False, st)
               else case k_builtin k ms1 of
                      None \<Rightarrow> Some (True, st)
                    | Some filtered \<Rightarrow>
                        (case each (\<lambda>m. builtin_step k cf (m_name m)) (filter (\<lambda>m. \<not> module_in_list m filtered) ms1) st of
                           None \<Rightarrow> None
                         | Some (_, st1) \<Rightarrow> each (list_step rec k cf) filtered st1))"

definition depinfo_alias :: "(kmodule \<Rightarrow> dep_step) \<Rightarrow> kmod \<Rightarrow> dep_opts \<Rightarrow> bool \<Rightarrow> string \<Rightarrow> dep_step" where
  "depinfo_alias rec k cf required alias st =
     (case find_builtin k st alias of
        None \<Rightarrow> None
      | Some (Some _) \<Rightarrow> builtin_step k cf alias st
      | Some None \<Rightarrow>
          (case k_lookup k alias of
             None \<Rightarrow> Some (required, st)
           | Some ms \<Rightarrow> if ms = [] then Some (required, st) else process_module_list rec k cf ms st))"

definition process_soft_deps :: "(kmodule \<Rightarrow> dep_step) \<Rightarrow> kmod \<Rightarrow> dep_opts \<Rightarrow> kmodule \<Rightarrow> dep_step" where
  "process_soft_deps rec k cf m st =
     (case k_softdeps k m of
        None \<Rightarrow> Some (False, st)
      | Some (pre, post) \<Rightarrow> each (process_module_list rec k cf) [pre, post] st)"

definition process_weak_deps :: "(kmodule \<Rightarrow> dep_step) \<Rightarrow> kmod \<Rightarrow> dep_opts \<Rightarrow> kmodule \<Rightarrow> dep_step" where
  "process_weak_deps rec k cf m st =
     (case k_weakdeps k m of None \<Rightarrow> Some (False, st) | Some weak \<Rightarrow> process_module_list rec k cf weak st)"

definition is_delim :: "string \<Rightarrow> char \<Rightarrow> bool" where
  "is_delim d c \<longleftrightarrow> c \<in> set d"

definition blanks :: string where
  "blanks = [CHR '' '', CHR 0x09, CHR 0x0D, CHR 0x0A]"

definition process_depends :: "(kmodule \<Rightarrow> dep_step) \<Rightarrow> kmod \<Rightarrow> dep_opts \<Rightarrow> string \<Rightarrow> dep_step" where
  "process_depends rec k cf depends = each (depinfo_alias rec k cf True) (strtok_all (is_delim (CHR '','' # blanks)) [] depends)"

text \<open>The names of a \<open>softdep\<close> line, without the words \<open>pre:\<close> and \<open>post:\<close>.\<close>

definition soft_token :: "string \<Rightarrow> string list" where
  "soft_token t =
     (if t = ''pre:'' \<or> t = ''post:'' then []
      else let t' = (if starts_with ''pre:'' t then drop 4 t else if starts_with ''post:'' t then drop 5 t else t)
           in if t' = [] then [] else [t'])"

definition process_soft_depends :: "(kmodule \<Rightarrow> dep_step) \<Rightarrow> kmod \<Rightarrow> dep_opts \<Rightarrow> string \<Rightarrow> dep_step" where
  "process_soft_depends rec k cf depends =
     each (depinfo_alias rec k cf False) (concat (map soft_token (strtok_all (is_delim blanks) [] depends)))"

definition process_weak_depends :: "(kmodule \<Rightarrow> dep_step) \<Rightarrow> kmod \<Rightarrow> dep_opts \<Rightarrow> string \<Rightarrow> dep_step" where
  "process_weak_depends rec k cf depends = each (depinfo_alias rec k cf False) (strtok_all (is_delim blanks) [] depends)"

text \<open>The treatment of one entry of the module's information.\<close>

definition info_step :: "(kmodule \<Rightarrow> dep_step) \<Rightarrow> kmod \<Rightarrow> dep_opts \<Rightarrow> string \<times> string \<Rightarrow> dep_step" where
  "info_step rec k cf kv st =
     (case kv of (key, val) \<Rightarrow>
        case (if SHOW_DEPS cf \<and> SHOW_MODULES cf
              then (if key = ''depends'' then process_depends rec k cf val st
                    else if key = ''softdep'' then process_soft_depends rec k cf val st
                    else if key = ''weakdep'' then process_weak_depends rec k cf val st
                    else Some (False, st))
              else Some (False, st)) of
          None \<Rightarrow> None
        | Some (r, st1) \<Rightarrow> Some (r, if SHOW_FIRMWARE cf \<and> key = ''firmware'' then process_firmware k cf val st1 else st1))"

definition show_module :: "dep_opts \<Rightarrow> string \<Rightarrow> dep_state \<Rightarrow> dep_state" where
  "show_module cf path st =
     (if SHOW_MODULES cf
      then (let st1 = show_with_prefix ''module'' path st
            in if show_tree st1 \<noteq> 0 then st1\<lparr>show_tree := show_tree st1 + 1\<rparr> else st1)
      else st)"

definition leave_module :: "dep_state \<Rightarrow> dep_state" where
  "leave_module st = (if show_tree st > 1 then st\<lparr>show_tree := show_tree st - 1\<rparr> else st)"

text \<open>What follows for a module that is new and has information.\<close>

definition depinfo_body :: "(kmodule \<Rightarrow> dep_step) \<Rightarrow> kmod \<Rightarrow> dep_opts \<Rightarrow> kmodule \<Rightarrow> (string \<times> string) list \<Rightarrow> dep_step" where
  "depinfo_body rec k cf m info st =
     (case each (info_step rec k cf) info st of
        None \<Rightarrow> None
      | Some (r1, st1) \<Rightarrow>
          (case (if SHOW_DEPS cf \<and> SHOW_MODULES cf
                 then each (\<lambda>f. f m) [process_soft_deps rec k cf, process_weak_deps rec k cf] st1
                 else Some (False, st1)) of
             None \<Rightarrow> None
           | Some (r2, st2) \<Rightarrow> Some (r1 \<or> r2, leave_module st2)))"

fun depinfo :: "nat \<Rightarrow> kmod \<Rightarrow> dep_opts \<Rightarrow> kmodule \<Rightarrow> dep_step" where
  "depinfo 0 k cf m st = None"
| "depinfo (Suc n) k cf m st =
     (case tracked_module m st of
        (True, st1) \<Rightarrow> Some (False, st1)
      | (False, st1) \<Rightarrow>
          (case k_info k m of
             None \<Rightarrow> Some (True, st1)
           | Some info \<Rightarrow>
               depinfo_body (depinfo n k cf) k cf m info
                 (show_module cf (case m_path m of None \<Rightarrow> ''(null)'' | Some p \<Rightarrow> p) st1)))"

section \<open>The names on the command line\<close>

definition depinfo_path :: "nat \<Rightarrow> kmod \<Rightarrow> dep_opts \<Rightarrow> string \<Rightarrow> dep_step" where
  "depinfo_path n k cf path st = (case k_from_path k path of None \<Rightarrow> Some (True, st) | Some m \<Rightarrow> depinfo n k cf m st)"

text \<open>\<open>is_filename\<close> is true when the argument is not the name of a file.\<close>

definition is_filename :: "kmod \<Rightarrow> string \<Rightarrow> bool" where
  "is_filename k path \<longleftrightarrow>
     length path < 2 \<or> (path ! 1 \<noteq> CHR ''/'' \<and> path ! 0 \<noteq> CHR ''.'' \<and> path ! 0 \<noteq> CHR ''/'')
     \<or> CHR ''.'' \<notin> set path \<or> \<not> k_is_reg k path"

definition process_name :: "nat \<Rightarrow> kmod \<Rightarrow> dep_opts \<Rightarrow> string \<Rightarrow> dep_step" where
  "process_name n k cf arg = (if is_filename k arg then depinfo_alias (depinfo n k cf) k cf True arg else depinfo_path n k cf arg)"

text \<open>The lines of the input file, without white space at both ends; empty ones are left out.\<close>

definition trim_line :: "string \<Rightarrow> string" where
  "trim_line l = takeWhile (\<lambda>c. c \<noteq> NUL) (rtrim (dropWhile isspace l))"

definition read_names :: "nat \<Rightarrow> kmod \<Rightarrow> dep_opts \<Rightarrow> string option \<Rightarrow> dep_step" where
  "read_names n k cf from_file st =
     (case from_file of
        None \<Rightarrow> Some (False, st)
      | Some f \<Rightarrow>
          (case k_lines k f of
             None \<Rightarrow> Some (True, st)
           | Some lines \<Rightarrow> each (process_name n k cf) (filter (\<lambda>a. a \<noteq> []) (map trim_line lines)) st))"

text \<open>The names of the file, then the arguments.\<close>

definition process_names :: "nat \<Rightarrow> kmod \<Rightarrow> dep_opts \<Rightarrow> string option \<Rightarrow> string list \<Rightarrow> dep_step" where
  "process_names n k cf from_file args st =
     (case read_names n k cf from_file st of
        None \<Rightarrow> None
      | Some (r1, st1) \<Rightarrow>
          (case each (process_name n k cf) args st1 of None \<Rightarrow> None | Some (r2, st2) \<Rightarrow> Some (r1 \<or> r2, st2)))"

section \<open>The program\<close>

record dep_cmd =
  c_opts :: dep_opts
  c_tree :: int
  base_dir :: string
  from_file :: "string option"

text \<open>One result of \<open>getopt_long\<close>; \<open>-V\<close> and \<open>-h\<close>, which print a text and exit, are left out.\<close>

definition dep_option :: "char \<times> string \<Rightarrow> dep_cmd \<Rightarrow> dep_cmd" where
  "dep_option a c =
     (case a of (ch, optarg) \<Rightarrow>
        let cf = c_opts c
        in if ch = CHR 0x01 then c\<lparr>c_opts := cf\<lparr>use_blacklist := True\<rparr>\<rparr>
           else if ch = CHR 0x02 then c\<lparr>c_opts := cf\<lparr>SHOW_MISSING_FIRMWARE := True\<rparr>\<rparr>
           else if ch = CHR ''D'' then c\<lparr>c_opts := cf\<lparr>SHOW_DEPS := \<not> SHOW_DEPS cf\<rparr>\<rparr>
           else if ch = CHR ''M'' then c\<lparr>c_opts := cf\<lparr>SHOW_MODULES := \<not> SHOW_MODULES cf\<rparr>\<rparr>
           else if ch = CHR ''F'' then c\<lparr>c_opts := cf\<lparr>SHOW_FIRMWARE := \<not> SHOW_FIRMWARE cf\<rparr>\<rparr>
           else if ch = CHR ''P'' then c\<lparr>c_opts := cf\<lparr>SHOW_PREFIX := \<not> SHOW_PREFIX cf\<rparr>\<rparr>
           else if ch = CHR ''B'' then c\<lparr>c_opts := cf\<lparr>SHOW_BUILTIN := \<not> SHOW_BUILTIN cf\<rparr>\<rparr>
           else if ch = CHR ''t'' then c\<lparr>c_tree := 1\<rparr>
           else if ch = CHR ''k'' then c\<lparr>c_opts := cf\<lparr>kversion := optarg\<rparr>\<rparr>
           else if ch = CHR ''b'' then c\<lparr>base_dir := optarg\<rparr>
           else if ch = CHR ''f'' then c\<lparr>c_opts := cf\<lparr>firmware_dir := optarg\<rparr>\<rparr>
           else if ch = CHR ''i'' then c\<lparr>from_file := Some optarg\<rparr>
           else c)"

text \<open>The options, over the defaults; \<open>release\<close> is the answer of \<open>uname\<close>.\<close>

definition dep_cmdline :: "string \<Rightarrow> (char \<times> string) list \<Rightarrow> dep_cmd" where
  "dep_cmdline release as =
     fold dep_option as \<lparr>c_opts = default_opts release, c_tree = 0, base_dir = [], from_file = None\<rparr>"

text \<open>The contents of the file with the firmware path: up to the first NUL, without newlines at its end.\<close>

definition class_path :: "string \<Rightarrow> string" where
  "class_path bytes = takeWhile (\<lambda>c. c \<noteq> NUL) (rev (dropWhile (\<lambda>c. c = CHR 0x0A) (rev (take 4096 bytes))))"

definition module_dir :: "dep_cmd \<Rightarrow> string" where
  "module_dir c = take (MAXPATHLEN - 1) (base_dir c @ ''/lib/modules/'' @ kversion (c_opts c))"

definition modinfo_file :: "string \<Rightarrow> string \<Rightarrow> string" where
  "modinfo_file dir modinfo = take (MAXPATHLEN - 2) (dir @ ''/'' @ modinfo)"

definition dep_builtins :: "kmod \<Rightarrow> string \<Rightarrow> builtin_error + builtins" where
  "dep_builtins k dir =
     bind_res (read_kernel_builtin (k_modinfo k (modinfo_file dir ''kernel.builtin.modinfo'')) free_kernel_builtin)
       (read_kernel_builtin (k_modinfo k (modinfo_file dir ''modules.builtin.modinfo'')))"

definition dep_start :: "dep_cmd \<Rightarrow> builtins \<Rightarrow> dep_state" where
  "dep_start c kb = \<lparr>show_tree = c_tree c, d_builtins = kb, tracked_modules = [], d_out = []\<rparr>"

text \<open>\<open>main\<close> after the options: whether the exit status is a failure, and the state with the output.\<close>

definition depinfo_main :: "nat \<Rightarrow> kmod \<Rightarrow> dep_cmd \<Rightarrow> string list \<Rightarrow> (bool \<times> dep_state) option" where
  "depinfo_main n k c args =
     (if from_file c = None \<and> args = [] then Some (True, dep_start c free_kernel_builtin)
      else case dep_builtins k (module_dir c) of
             Inl _ \<Rightarrow> Some (True, dep_start c free_kernel_builtin)
           | Inr kb \<Rightarrow>
               if k_new k (module_dir c)
               then process_names n k ((c_opts c)\<lparr>firmware_class_path := (case k_class_path k of None \<Rightarrow> [] | Some b \<Rightarrow> class_path b)\<rparr>)
                      (from_file c) args (dep_start c kb)
               else Some (True, dep_start c kb))"

section \<open>Relations that every step keeps\<close>

text \<open>
  What is needed to carry a relation between the states before and after from the recursive call to everything that is built
  from it: it is reflexive and transitive and holds for the printing of other lines than modules, for changes of the
  indentation and for marking a built-in module.
\<close>

definition within :: "(dep_state \<Rightarrow> dep_state \<Rightarrow> bool) \<Rightarrow> dep_step \<Rightarrow> bool" where
  "within R f \<longleftrightarrow> (\<forall>st r st'. f st = Some (r, st') \<longrightarrow> R st st')"

lemma withinI: "(\<And>st r st'. f st = Some (r, st') \<Longrightarrow> R st st') \<Longrightarrow> within R f"
  by (simp add: within_def)

lemma withinD: "within R f \<Longrightarrow> f st = Some (r, st') \<Longrightarrow> R st st'"
  by (simp add: within_def)

locale dep_steps =
  fixes R :: "dep_state \<Rightarrow> dep_state \<Rightarrow> bool"
    and call :: "kmodule \<Rightarrow> dep_step"
    and k :: kmod
    and cf :: dep_opts
  assumes R_refl: "R st st"
    and R_trans: "R a b \<Longrightarrow> R b c \<Longrightarrow> R a c"
    and R_show: "kw \<noteq> ''module'' \<Longrightarrow> R st (show_with_prefix kw v st)"
    and R_tree: "R st (st\<lparr>show_tree := d\<rparr>)"
    and R_mark: "R st (mark_builtin n st)"
    and R_call: "call m st = Some (r, st') \<Longrightarrow> R st st'"
begin

lemma within_id: "within R (\<lambda>st. Some (r, st))"
  by (simp add: within_def R_refl)

lemma within_each:
  assumes "\<And>x. x \<in> set xs \<Longrightarrow> within R (f x)"
  shows "within R (each f xs)"
proof (rule withinI)
  fix st r st' assume "each f xs st = Some (r, st')"
  then show "R st st'" using assms
  proof (induction xs arbitrary: st r)
    case (Cons x xs)
    obtain r1 s where 1: "f x st = Some (r1, s)" using Cons.prems(1) by (cases "f x st") auto
    obtain r2 where 2: "each f xs s = Some (r2, st')" using Cons.prems(1) 1 by (cases "each f xs s") auto
    note s = 1 2
    have "R st s" using withinD [OF Cons.prems(2) s(1)] by simp
    moreover have "R s st'" using Cons.IH [OF s(2)] Cons.prems(2) by simp
    ultimately show ?case by (rule R_trans)
  qed (simp add: R_refl)
qed

lemma R_fold: "(\<And>x st. R st (g x st)) \<Longrightarrow> R st (fold g xs st)"
proof (induction xs arbitrary: st)
  case (Cons x xs)
  show ?case using Cons.IH [OF Cons.prems, of "g x st"] R_trans [OF Cons.prems [of st x]] by simp
qed (simp add: R_refl)

lemma R_try_names: "R st (snd (try_names k ns st))"
proof (induction ns arbitrary: st)
  case (Cons n ns)
  have 1: "R st (snd (expand_pattern k ''firmware'' n st))"
    unfolding expand_pattern_def by (simp add: R_show R_fold)
  obtain f s where e: "expand_pattern k ''firmware'' n st = (f, s)" by fastforce
  show ?case using 1 R_trans [OF _ Cons.IH, of st s] by (simp add: e)
qed (simp add: R_refl)

lemma R_try_dirs: "R st (snd (try_dirs k cf pat ds st))"
proof (induction ds arbitrary: st)
  case (Cons d ds)
  have 1: "R st (snd (process_firmware_pattern k cf d pat st))"
    unfolding process_firmware_pattern_def by (simp add: R_refl R_try_names)
  obtain f s where e: "process_firmware_pattern k cf d pat st = (f, s)" by fastforce
  show ?case using 1 R_trans [OF _ Cons.IH, of st s] Cons.IH by (simp add: e)
qed (simp add: R_refl)

lemma R_firmware: "R st (process_firmware k cf pat st)"
proof -
  obtain f s where e: "try_dirs k cf pat (firmware_class_path cf # split_on (CHR '':'') (firmware_dir cf)) st = (f, s)" by fastforce
  have "R st s" using R_try_dirs [of st pat "firmware_class_path cf # split_on (CHR '':'') (firmware_dir cf)"] e by (simp del: try_dirs.simps)
  then show ?thesis using R_trans [OF _ R_show [of "''missing-firmware''" s pat]] by (simp add: process_firmware_def e del: try_dirs.simps)
qed

lemma R_show_builtin: "R st (show_builtin k cf name fw st)"
proof -
  define s1 where "s1 = (if SHOW_BUILTIN cf then show_with_prefix ''builtin'' name st else st)"
  define s2 where "s2 = (if SHOW_BUILTIN cf \<and> show_tree s1 \<noteq> 0 then s1\<lparr>show_tree := show_tree s1 + 1\<rparr> else s1)"
  define s3 where "s3 = (if SHOW_FIRMWARE cf then fold (process_firmware k cf) fw s2 else s2)"
  have "R st s1" by (simp add: s1_def R_refl R_show)
  moreover have "R s1 s2" by (simp add: s2_def R_refl R_tree)
  moreover have "R s2 s3" by (simp add: s3_def R_refl R_fold R_firmware)
  moreover have "R s3 (show_builtin k cf name fw st)"
  proof -
    have "show_builtin k cf name fw st = (if SHOW_BUILTIN cf \<and> show_tree s3 > 1 then s3\<lparr>show_tree := show_tree s3 - 1\<rparr> else s3)"
      by (simp only: show_builtin_def Let_def s1_def s2_def s3_def)
    then show ?thesis by (simp add: R_refl R_tree)
  qed
  ultimately show ?thesis using R_trans by blast
qed

lemma within_builtin: "within R (builtin_step k cf name)"
proof (rule withinI)
  fix st r st' assume "builtin_step k cf name st = Some (r, st')"
  then consider "st' = show_builtin k cf name [] st" | "st' = st" | n fw where "st' = show_builtin k cf n fw (mark_builtin n st)"
    by (auto simp: builtin_step_def process_builtin_def split: option.splits if_splits)
  then show "R st st'" by cases (auto simp: R_refl R_show_builtin intro: R_trans [OF R_mark R_show_builtin])
qed

lemma within_list_step: "within R (list_step call k cf m)"
  by (rule withinI) (auto simp: list_step_def intro: R_call withinD [OF within_builtin] split: option.splits)

lemma within_module_list: "within R (process_module_list call k cf ms)"
proof (rule withinI)
  fix st r st' assume "process_module_list call k cf ms st = Some (r, st')"
  then consider "st' = st"
    | ms1 fl r1 s where "each (\<lambda>m. builtin_step k cf (m_name m)) (filter (\<lambda>m. \<not> module_in_list m fl) ms1) st = Some (r1, s)"
        "each (list_step call k cf) fl s = Some (r, st')"
    by (auto simp: process_module_list_def split: option.splits if_splits)
  then show "R st st'"
  proof cases
    case 2
    show ?thesis
      by (rule R_trans [OF withinD [OF within_each 2(1)] withinD [OF within_each 2(2)]]) (rule within_builtin within_list_step)+
  qed (simp add: R_refl)
qed

lemma within_alias: "within R (depinfo_alias call k cf req a)"
  by (rule withinI)
    (auto simp: depinfo_alias_def R_refl intro: withinD [OF within_builtin] withinD [OF within_module_list] split: option.splits if_splits)

lemma within_depends:
  "within R (process_depends call k cf v)" "within R (process_soft_depends call k cf v)" "within R (process_weak_depends call k cf v)"
  unfolding process_depends_def process_soft_depends_def process_weak_depends_def by (intro within_each within_alias)+

lemma within_deps: "within R (process_soft_deps call k cf m)" "within R (process_weak_deps call k cf m)"
proof -
  have "within R (each (process_module_list call k cf) [pre, post])" for pre post by (intro within_each within_module_list)
  then show "within R (process_soft_deps call k cf m)"
    unfolding process_soft_deps_def by (cases "k_softdeps k m") (auto simp: within_id simp del: each.simps)
  show "within R (process_weak_deps call k cf m)"
    unfolding process_weak_deps_def by (cases "k_weakdeps k m") (auto simp: within_id within_module_list)
qed

lemma within_info: "within R (info_step call k cf kv)"
proof (rule withinI)
  fix st r st' assume i: "info_step call k cf kv st = Some (r, st')"
  obtain key v where kv: "kv = (key, v)" by fastforce
  define f where "f = (\<lambda>st. if SHOW_DEPS cf \<and> SHOW_MODULES cf
      then (if key = ''depends'' then process_depends call k cf v st
            else if key = ''softdep'' then process_soft_depends call k cf v st
            else if key = ''weakdep'' then process_weak_depends call k cf v st else Some (False, st))
      else Some (False, st))"
  have f: "within R f"
    using within_depends [of v] unfolding f_def within_def by (simp add: R_refl)
  obtain s where s: "f st = Some (r, s)" "st' = (if SHOW_FIRMWARE cf \<and> key = ''firmware'' then process_firmware k cf v s else s)"
    using i unfolding info_step_def kv prod.case f_def [symmetric] by (cases "f st") (auto simp: f_def)
  show "R st st'" using R_trans [OF withinD [OF f s(1)] R_firmware [of s v]] withinD [OF f s(1)] s(2) by simp
qed

lemma within_body: "within R (depinfo_body call k cf m info)"
proof (rule withinI)
  fix st r st' assume b: "depinfo_body call k cf m info st = Some (r, st')"
  obtain r1 s1 where 1: "each (info_step call k cf) info st = Some (r1, s1)"
    using b by (cases "each (info_step call k cf) info st") (auto simp: depinfo_body_def)
  define g where "g = (\<lambda>st. if SHOW_DEPS cf \<and> SHOW_MODULES cf
      then each (\<lambda>f. f m) [process_soft_deps call k cf, process_weak_deps call k cf] st else Some (False, st))"
  obtain r2 s2 where 2: "g s1 = Some (r2, s2)" "st' = leave_module s2"
    using b 1 unfolding depinfo_body_def g_def [symmetric] by (cases "g s1") (auto simp: g_def)
  have "within R (each (\<lambda>f. f m) [process_soft_deps call k cf, process_weak_deps call k cf])"
    by (rule within_each) (auto simp: within_deps)
  then have "within R g" unfolding g_def within_def by (simp add: R_refl del: each.simps)
  then have "R s1 s2" using withinD 2(1) by blast
  moreover have "R st s1" by (rule withinD [OF within_each 1]) (rule within_info)
  moreover have "R s2 st'" by (simp add: 2(2) leave_module_def R_refl R_tree)
  ultimately show "R st st'" using R_trans by blast
qed

end

section \<open>What a search never undoes\<close>

definition seen_sorted :: "dep_state \<Rightarrow> bool" where
  "seen_sorted st \<longleftrightarrow> tree_sorted strcmp id (tracked_modules st)"

definition is_builtin :: "kmod \<Rightarrow> dep_state \<Rightarrow> string \<Rightarrow> bool option" where
  "is_builtin k st name = map_option (\<lambda>r. r \<noteq> None) (find_builtin k st name)"

definition grows :: "kmod \<Rightarrow> dep_state \<Rightarrow> dep_state \<Rightarrow> bool" where
  "grows k st st' \<longleftrightarrow>
     is_builtin k st' = is_builtin k st \<and> set (d_out st) \<subseteq> set (d_out st')
     \<and> (seen_sorted st \<longrightarrow> seen_sorted st' \<and> set (tracked_modules st) \<subseteq> set (tracked_modules st'))"

lemma grows_trans: "grows k a b \<Longrightarrow> grows k b c \<Longrightarrow> grows k a c"
  unfolding grows_def by auto

lemma get_upd_builtin:
  assumes "\<And>b. b_name (f b) = b_name b"
  shows "get_builtin (upd_builtin n f kb) s = map_option (\<lambda>b. if b_name b = n then f b else b) (get_builtin kb s)"
proof -
  have "tfind strcmp b_name s (map (\<lambda>b. if b_name b = n then f b else b) t) = map_option (\<lambda>b. if b_name b = n then f b else b) (tfind strcmp b_name s t)" for t
    by (induction t) (auto simp: assms)
  then show ?thesis by (simp add: get_builtin_def upd_builtin_def)
qed

lemma mark_builtin_lookup: "is_builtin k (mark_builtin n st) = is_builtin k st"
proof
  fix s
  let ?f = "\<lambda>b. b\<lparr>b_tracked := True\<rparr>"
  let ?kb = "d_builtins st"
  have g: "get_builtin (upd_builtin n ?f ?kb) x = map_option (\<lambda>b. if b_name b = n then ?f b else b) (get_builtin ?kb x)" for x
    by (rule get_upd_builtin) simp
  have m: "alias_match (k_fnmatch k) (upd_builtin n ?f ?kb) s = alias_match (k_fnmatch k) ?kb s"
    by (rule ext) (simp add: alias_match_def g split: option.splits)
  have nx: "al_next (upd_builtin n ?f ?kb) = al_next ?kb" "al_first (upd_builtin n ?f ?kb) = al_first ?kb" by (simp_all add: upd_builtin_def)
  have "(Option.bind r (get_builtin (upd_builtin n ?f ?kb)) \<noteq> None) = (Option.bind r (get_builtin ?kb) \<noteq> None)" for r
    by (cases r) (simp_all add: g)
  then show "is_builtin k (mark_builtin n st) s = is_builtin k st s"
    by (simp add: is_builtin_def find_builtin_def mark_builtin_def find_kernel_builtin_def g m nx option.map_comp comp_def
        split: option.splits)
qed

lemma tracked_module_new:
  assumes "tracked_module m st = (False, st')"
  shows "d_out st' = d_out st \<and> d_builtins st' = d_builtins st \<and> show_tree st' = show_tree st"
    and "seen_sorted st \<Longrightarrow> seen_sorted st' \<and> set (tracked_modules st') = set (tracked_modules st) \<union> set_option (m_path m)
           \<and> set_option (m_path m) \<inter> set (tracked_modules st) = {}"
proof -
  show "d_out st' = d_out st \<and> d_builtins st' = d_builtins st \<and> show_tree st' = show_tree st"
    using assms by (auto simp: tracked_module_def split: option.splits if_splits)
  assume so: "seen_sorted st"
  show "seen_sorted st' \<and> set (tracked_modules st') = set (tracked_modules st) \<union> set_option (m_path m)
           \<and> set_option (m_path m) \<inter> set (tracked_modules st) = {}"
  proof (cases "m_path m")
    case (Some p)
    have n: "p \<notin> set (tracked_modules st)"
      using assms Some str_order.tfind_Some [of id "tracked_modules st" p p] so
      by (auto simp: tracked_module_def seen_sorted_def split: if_splits)
    have t: "tracked_modules st' = snd (tsearch strcmp id p (tracked_modules st))"
      using assms Some by (auto simp: tracked_module_def split: if_splits)
    show ?thesis
      using n so Some str_order.tsearch_sorted [of id "tracked_modules st" p] str_order.tsearch_set [of id "tracked_modules st" p]
      by (simp add: seen_sorted_def t)
  qed (use assms so in \<open>simp add: tracked_module_def\<close>)
qed

lemma tracked_module_old:
  assumes "tracked_module m st = (True, st')"
  shows "st' = st" and "seen_sorted st \<Longrightarrow> \<exists>p. m_path m = Some p \<and> p \<in> set (tracked_modules st)"
proof -
  show "st' = st" using assms by (auto simp: tracked_module_def split: option.splits if_splits)
  assume so: "seen_sorted st"
  obtain p y where p: "m_path m = Some p" "tfind strcmp id p (tracked_modules st) = Some y"
    using assms by (auto simp: tracked_module_def split: option.splits if_splits)
  then show "\<exists>p. m_path m = Some p \<and> p \<in> set (tracked_modules st)"
    using str_order.tfind_Some [of id "tracked_modules st" p y] so by (auto simp: seen_sorted_def)
qed

lemma grows_builtins: "d_builtins st' = d_builtins st \<Longrightarrow> is_builtin k st' = is_builtin k st"
  by (rule ext) (simp add: is_builtin_def find_builtin_def)

lemma show_module_same:
  "d_builtins (show_module cf p st) = d_builtins st" "tracked_modules (show_module cf p st) = tracked_modules st"
  "d_out (show_module cf p st) = (if SHOW_MODULES cf then d_out st @ [(show_tree st, ''module'', p)] else d_out st)"
  by (simp_all add: show_module_def show_with_prefix_def Let_def)

lemma grows_base:
  "grows k st st" "grows k st (show_with_prefix kw v st)" "grows k st (st\<lparr>show_tree := d\<rparr>)" "grows k st (mark_builtin n st)"
proof -
  show "grows k st st" by (simp add: grows_def)
  show "grows k st (show_with_prefix kw v st)"
    using grows_builtins [of "show_with_prefix kw v st" st k] by (auto simp: grows_def show_with_prefix_def seen_sorted_def)
  show "grows k st (st\<lparr>show_tree := d\<rparr>)"
    using grows_builtins [of "st\<lparr>show_tree := d\<rparr>" st k] by (auto simp: grows_def seen_sorted_def)
  show "grows k st (mark_builtin n st)"
    using mark_builtin_lookup [of k n st] by (auto simp: grows_def seen_sorted_def mark_builtin_def)
qed

lemma grows_steps:
  assumes "\<And>m st r st'. call m st = Some (r, st') \<Longrightarrow> grows k st st'"
  shows "dep_steps (grows k) call"
  by unfold_locales (auto simp: grows_base intro: grows_trans assms)

lemma grows_new:
  assumes "tracked_module m st = (False, st1)"
  shows "grows k st st1" and "grows k st (show_module cf p st1)"
proof -
  note t = tracked_module_new(1) [OF assms] tracked_module_new(2) [OF assms]
  show "grows k st st1" using t grows_builtins [of st1 st k] by (auto simp: grows_def)
  show "grows k st (show_module cf p st1)"
    using t grows_builtins [of "show_module cf p st1" st k] by (auto simp: grows_def show_module_same seen_sorted_def)
qed

lemma depinfo_grows: "depinfo n k cf m st = Some (r, st') \<Longrightarrow> grows k st st'"
proof (induction n arbitrary: m st r st')
  case (Suc n)
  have steps: "dep_steps (grows k) (depinfo n k cf)" by (rule grows_steps) (rule Suc.IH)
  obtain old st1 where t: "tracked_module m st = (old, st1)" by fastforce
  show ?case
  proof (cases old)
    case True
    then show ?thesis using Suc.prems t tracked_module_old(1) [of m st st1] grows_base(1) by simp
  next
    case False
    show ?thesis
    proof (cases "k_info k m")
      case None
      then show ?thesis using Suc.prems t False grows_new(1) by simp
    next
      case (Some info)
      let ?s = "show_module cf (case m_path m of None \<Rightarrow> ''(null)'' | Some p \<Rightarrow> p) st1"
      have "depinfo_body (depinfo n k cf) k cf m info ?s = Some (r, st')" using Suc.prems t False Some by simp
      then have "grows k ?s st'" by (rule withinD [OF dep_steps.within_body [OF steps]])
      moreover have "grows k st ?s" using grows_new(2) t False by simp
      ultimately show ?thesis using grows_trans by blast
    qed
  qed
qed simp

end
