(* ===== verification/DepNeeds.thy ===== *)
theory DepNeeds
  imports Depinfo
begin

text \<open>
  What a search of \<open>depinfo\<close> finds: the modules a module needs are read off the definitions of \<open>Depinfo\<close>; every one of them is
  called for, is closed under its own needs when the search ends, and no module is shown twice.
\<close>

section \<open>The modules a module needs\<close>

text \<open>
  Read off the definitions: the modules that \<open>depinfo\<close> is called for, given what is built in. The names of a \<open>depends\<close> entry, of
  the other entries and the lists of libkmod are looked up and filtered.
\<close>

definition list_targets :: "kmod \<Rightarrow> dep_opts \<Rightarrow> (string \<Rightarrow> bool option) \<Rightarrow> kmodule list \<Rightarrow> kmodule list" where
  "list_targets k cf ib ms =
     (if ms = [] then []
      else case (if use_blacklist cf then k_blacklist k ms else Some ms) of
             None \<Rightarrow> []
           | Some ms1 \<Rightarrow>
               if ms1 = [] then []
               else case k_builtin k ms1 of None \<Rightarrow> [] | Some fl \<Rightarrow> filter (\<lambda>m. ib (m_name m) = Some False) fl)"

definition alias_targets :: "kmod \<Rightarrow> dep_opts \<Rightarrow> (string \<Rightarrow> bool option) \<Rightarrow> string \<Rightarrow> kmodule list" where
  "alias_targets k cf ib a =
     (if ib a = Some False then (case k_lookup k a of None \<Rightarrow> [] | Some ms \<Rightarrow> list_targets k cf ib ms) else [])"

definition info_names :: "string \<times> string \<Rightarrow> string list" where
  "info_names kv =
     (case kv of (key, v) \<Rightarrow>
        if key = ''depends'' then strtok_all (is_delim (CHR '','' # blanks)) [] v
        else if key = ''softdep'' then concat (map soft_token (strtok_all (is_delim blanks) [] v))
        else if key = ''weakdep'' then strtok_all (is_delim blanks) [] v else [])"

definition module_targets :: "kmod \<Rightarrow> dep_opts \<Rightarrow> (string \<Rightarrow> bool option) \<Rightarrow> kmodule \<Rightarrow> kmodule list" where
  "module_targets k cf ib m =
     (case k_info k m of
        None \<Rightarrow> []
      | Some info \<Rightarrow>
          concat (map (alias_targets k cf ib) (concat (map info_names info)))
          @ (case k_softdeps k m of None \<Rightarrow> [] | Some (pre, post) \<Rightarrow> list_targets k cf ib pre @ list_targets k cf ib post)
          @ (case k_weakdeps k m of None \<Rightarrow> [] | Some weak \<Rightarrow> list_targets k cf ib weak))"

text \<open>A call for a module was made between two states.\<close>

definition called :: "(dep_state \<Rightarrow> dep_state \<Rightarrow> bool) \<Rightarrow> (kmodule \<Rightarrow> dep_step) \<Rightarrow> dep_state \<Rightarrow> dep_state \<Rightarrow> kmodule \<Rightarrow> bool" where
  "called R call st st' m \<longleftrightarrow> (\<exists>s r s'. R st s \<and> call m s = Some (r, s') \<and> R s' st')"

locale dep_calls = dep_steps +
  assumes R_builtin: "R st st' \<Longrightarrow> is_builtin k st' = is_builtin k st"
begin

lemma called_widen: "R a st \<Longrightarrow> called R call st st' m \<Longrightarrow> R st' b \<Longrightarrow> called R call a b m"
  unfolding called_def using R_trans by blast

lemma each_called:
  assumes "each f xs st = Some (r, st')" "x \<in> set xs" "\<And>y. y \<in> set xs \<Longrightarrow> within R (f y)"
    and "\<And>s r s'. R st s \<Longrightarrow> f x s = Some (r, s') \<Longrightarrow> called R call s s' m"
  shows "called R call st st' m"
  using assms
proof (induction xs arbitrary: st r)
  case (Cons y ys)
  obtain r1 s where 1: "f y st = Some (r1, s)" using Cons.prems(1) by (cases "f y st") auto
  obtain r2 where 2: "each f ys s = Some (r2, st')" using Cons.prems(1) 1 by (cases "each f ys s") auto
  have st_s: "R st s" by (rule withinD [OF Cons.prems(3) 1]) simp
  have s_st': "R s st'" by (rule withinD [OF within_each 2]) (simp add: Cons.prems(3))
  show ?case
  proof (cases "x = y")
    case True
    then have "called R call st s m" using Cons.prems(4) [OF R_refl] 1 by blast
    then show ?thesis using called_widen [OF R_refl _ s_st'] by blast
  next
    case False
    have "called R call s st' m"
      by (rule Cons.IH [OF 2]) (use Cons.prems(2-4) False R_trans [OF st_s] in auto)
    then show ?thesis using called_widen [OF st_s _ R_refl] by blast
  qed
qed simp

lemma is_builtin_False: "is_builtin k st n = Some False \<longleftrightarrow> find_builtin k st n = Some None"
  by (cases "find_builtin k st n") (auto simp: is_builtin_def)

lemma module_list_called:
  assumes "process_module_list call k cf ms st = Some (r, st')" "m \<in> set (list_targets k cf (is_builtin k st) ms)"
  shows "called R call st st' m"
proof -
  define bl where "bl = (if use_blacklist cf then k_blacklist k ms else Some ms)"
  have t: "m \<in> set (if ms = [] then [] else case bl of None \<Rightarrow> [] | Some ms1 \<Rightarrow> if ms1 = [] then []
      else case k_builtin k ms1 of None \<Rightarrow> [] | Some fl \<Rightarrow> filter (\<lambda>m. is_builtin k st (m_name m) = Some False) fl)"
    using assms(2) by (simp only: list_targets_def bl_def)
  obtain ms1 where bl: "bl = Some ms1" using t by (cases bl) (auto split: if_splits)
  obtain fl where fl: "k_builtin k ms1 = Some fl" using t bl by (cases "k_builtin k ms1") (auto split: if_splits)
  have l: "ms \<noteq> []" "(if use_blacklist cf then k_blacklist k ms else Some ms) = Some ms1" "ms1 \<noteq> []" "k_builtin k ms1 = Some fl"
    "m \<in> set fl" "is_builtin k st (m_name m) = Some False"
    using t bl fl by (auto simp: bl_def split: if_splits)
  obtain r1 s where 1: "each (\<lambda>m. builtin_step k cf (m_name m)) (filter (\<lambda>m. \<not> module_in_list m fl) ms1) st = Some (r1, s)"
    and 2: "each (list_step call k cf) fl s = Some (r, st')"
    using assms(1) l(1-4) unfolding process_module_list_def by (auto split: option.splits)
  have st_s: "R st s" by (rule withinD [OF within_each 1]) (rule within_builtin)
  have "called R call s st' m"
  proof (rule each_called [OF 2 l(5)])
    fix s1 r s2 assume s1: "R s s1" and c: "list_step call k cf m s1 = Some (r, s2)"
    have "find_builtin k s1 (m_name m) = Some None" using l(6) R_builtin [OF R_trans [OF st_s s1]] is_builtin_False by metis
    then have "call m s1 = Some (r, s2)" using c by (simp add: list_step_def)
    then show "called R call s1 s2 m" unfolding called_def using R_refl by blast
  qed (rule within_list_step)
  then show ?thesis using called_widen [OF st_s _ R_refl] by blast
qed

lemma alias_called:
  assumes "depinfo_alias call k cf req a st = Some (r, st')" "m \<in> set (alias_targets k cf (is_builtin k st) a)"
  shows "called R call st st' m"
proof -
  have b: "is_builtin k st a = Some False" 
  proof (rule ccontr)
    assume "is_builtin k st a \<noteq> Some False"
    then have "alias_targets k cf (is_builtin k st) a = []" unfolding alias_targets_def by (rule if_not_P)
    then show False using assms(2) by simp
  qed
  then have t: "m \<in> set (case k_lookup k a of None \<Rightarrow> [] | Some ms \<Rightarrow> list_targets k cf (is_builtin k st) ms)"
    using assms(2) by (simp add: alias_targets_def)
  then obtain ms where l: "k_lookup k a = Some ms" by (cases "k_lookup k a") simp_all
  note l = l t [unfolded l option.case]
  have "ms \<noteq> []" using l(2) by (auto simp: list_targets_def)
  then have "process_module_list call k cf ms st = Some (r, st')"
    using assms(1) b l(1) by (simp add: depinfo_alias_def is_builtin_False)
  then show ?thesis using module_list_called l(2) by blast
qed

lemma names_called:
  assumes "each (depinfo_alias call k cf req) as st = Some (r, st')" "a \<in> set as" "m \<in> set (alias_targets k cf (is_builtin k st) a)"
  shows "called R call st st' m"
proof (rule each_called [OF assms(1,2)])
  fix s r s' assume "R st s" "depinfo_alias call k cf req a s = Some (r, s')"
  then show "called R call s s' m" using alias_called assms(3) R_builtin by metis
qed (rule within_alias)

end

context dep_calls
begin

lemma info_called:
  assumes "info_step call k cf kv st = Some (r, st')" "SHOW_DEPS cf" "SHOW_MODULES cf"
    and "a \<in> set (info_names kv)" "m \<in> set (alias_targets k cf (is_builtin k st) a)"
  shows "called R call st st' m"
proof -
  obtain key v where kv: "kv = (key, v)" by fastforce
  define req where "req = (key = ''depends'')"
  have e: "(if key = ''depends'' then process_depends call k cf v st
            else if key = ''softdep'' then process_soft_depends call k cf v st
            else if key = ''weakdep'' then process_weak_depends call k cf v st else Some (False, st))
          = each (depinfo_alias call k cf req) (info_names kv) st"
    using assms(4) by (simp add: kv info_names_def req_def process_depends_def process_soft_depends_def process_weak_depends_def split: if_splits)
  obtain s where 1: "each (depinfo_alias call k cf req) (info_names kv) st = Some (r, s)"
    and 2: "st' = (if SHOW_FIRMWARE cf \<and> key = ''firmware'' then process_firmware k cf v s else s)"
    using assms(1-3) unfolding info_step_def kv prod.case
    by (simp only: simp_thms if_True e [unfolded kv] split: option.splits prod.splits) auto
  have "R s st'" by (simp add: 2 R_refl R_firmware)
  then show ?thesis using called_widen [OF R_refl names_called [OF 1 assms(4,5)]] by blast
qed

lemma deps_called:
  assumes "each (\<lambda>f. f m0) [process_soft_deps call k cf, process_weak_deps call k cf] st = Some (r, st')"
    and "m \<in> set ((case k_softdeps k m0 of None \<Rightarrow> [] | Some (pre, post) \<Rightarrow> list_targets k cf (is_builtin k st) pre @ list_targets k cf (is_builtin k st) post)
          @ (case k_weakdeps k m0 of None \<Rightarrow> [] | Some weak \<Rightarrow> list_targets k cf (is_builtin k st) weak))"
  shows "called R call st st' m"
proof -
  consider (soft) pre post ms where "k_softdeps k m0 = Some (pre, post)" "ms \<in> {pre, post}" "m \<in> set (list_targets k cf (is_builtin k st) ms)"
    | (weak) ms where "k_weakdeps k m0 = Some ms" "m \<in> set (list_targets k cf (is_builtin k st) ms)"
    using assms(2) by (cases "k_softdeps k m0"; cases "k_weakdeps k m0") auto
  then show ?thesis
  proof cases
    case soft
    show ?thesis
    proof (rule each_called [OF assms(1), of "process_soft_deps call k cf"])
      fix s r s' assume s: "R st s" and "process_soft_deps call k cf m0 s = Some (r, s')"
      then have 1: "each (process_module_list call k cf) [pre, post] s = Some (r, s')" using soft(1) by (simp add: process_soft_deps_def)
      show "called R call s s' m"
      proof (rule each_called [OF 1, of ms])
        fix s1 r s2 assume "R s s1" "process_module_list call k cf ms s1 = Some (r, s2)"
        then show "called R call s1 s2 m" using module_list_called soft(3) R_builtin [OF R_trans [OF s]] by metis
      qed (use soft(2) in \<open>auto simp: within_module_list\<close>)
    qed (auto simp: within_deps)
  next
    case weak
    show ?thesis
    proof (rule each_called [OF assms(1), of "process_weak_deps call k cf"])
      fix s r s' assume s: "R st s" and "process_weak_deps call k cf m0 s = Some (r, s')"
      then have "process_module_list call k cf ms s = Some (r, s')" using weak(1) by (simp add: process_weak_deps_def)
      then show "called R call s s' m" using module_list_called weak(2) R_builtin [OF s] by metis
    qed (auto simp: within_deps)
  qed
qed

lemma body_called:
  assumes "depinfo_body call k cf m0 info st = Some (r, st')" "SHOW_DEPS cf" "SHOW_MODULES cf" "k_info k m0 = Some info"
    and "m \<in> set (module_targets k cf (is_builtin k st) m0)"
  shows "called R call st st' m"
proof -
  obtain r1 s1 where 1: "each (info_step call k cf) info st = Some (r1, s1)"
    using assms(1) by (cases "each (info_step call k cf) info st") (auto simp: depinfo_body_def)
  define g where "g = each (\<lambda>f. f m0) [process_soft_deps call k cf, process_weak_deps call k cf]"
  obtain r2 s2 where 2: "g s1 = Some (r2, s2)" "st' = leave_module s2"
    using assms(1-3) 1 unfolding depinfo_body_def g_def [symmetric] by (cases "g s1") (auto simp: g_def)
  have a: "R st s1" by (rule withinD [OF within_each 1]) (rule within_info)
  have "within R g" unfolding g_def by (rule within_each) (auto simp: within_deps)
  then have b: "R s1 s2" using withinD 2(1) by blast
  have c: "R s2 st'" by (simp add: 2(2) leave_module_def R_refl R_tree)
  consider (info) kv a where "kv \<in> set info" "a \<in> set (info_names kv)" "m \<in> set (alias_targets k cf (is_builtin k st) a)"
    | (deps) "m \<in> set ((case k_softdeps k m0 of None \<Rightarrow> [] | Some (pre, post) \<Rightarrow> list_targets k cf (is_builtin k st) pre @ list_targets k cf (is_builtin k st) post)
          @ (case k_weakdeps k m0 of None \<Rightarrow> [] | Some weak \<Rightarrow> list_targets k cf (is_builtin k st) weak))"
    using assms(4,5) unfolding module_targets_def by auto
  then show ?thesis
  proof cases
    case info
    have "called R call st s1 m"
    proof (rule each_called [OF 1 info(1)])
      fix s r s' assume s: "R st s" and i: "info_step call k cf kv s = Some (r, s')"
      show "called R call s s' m" using info_called [OF i assms(2,3) info(2)] info(3) R_builtin [OF s] by metis
    qed (rule within_info)
    then show ?thesis using called_widen [OF R_refl _ R_trans [OF b c]] by blast
  next
    case deps
    then have "called R call s1 s2 m" using deps_called [OF 2(1) [unfolded g_def]] R_builtin [OF a] by metis
    then show ?thesis using called_widen [OF a _ c] by blast
  qed
qed

end

section \<open>Everything that is needed is found\<close>

interpretation growing: dep_calls "grows k" "depinfo n k cf" k cf for n k cf
  by unfold_locales (auto simp: grows_base intro: grows_trans depinfo_grows, simp add: grows_def)

text \<open>A path is closed when everything the modules with that path need was seen.\<close>

definition path_closed :: "kmod \<Rightarrow> dep_opts \<Rightarrow> (string \<Rightarrow> bool option) \<Rightarrow> dep_state \<Rightarrow> string \<Rightarrow> bool" where
  "path_closed k cf ib st p \<longleftrightarrow>
     (\<forall>m. m_path m = Some p \<longrightarrow> (\<forall>t \<in> set (module_targets k cf ib m). set_option (m_path t) \<subseteq> set (tracked_modules st)))"

definition path_shown :: "kmod \<Rightarrow> dep_state \<Rightarrow> string \<Rightarrow> bool" where
  "path_shown k st p \<longleftrightarrow> (\<forall>m. m_path m = Some p \<and> k_info k m \<noteq> None \<longrightarrow> (\<exists>d. (d, ''module'', p) \<in> set (d_out st)))"

text \<open>A search adds only closed paths that are shown.\<close>

definition completes :: "kmod \<Rightarrow> dep_opts \<Rightarrow> dep_state \<Rightarrow> dep_state \<Rightarrow> bool" where
  "completes k cf st st' \<longleftrightarrow>
     grows k st st' \<and> (seen_sorted st \<longrightarrow>
       (\<forall>p \<in> set (tracked_modules st') - set (tracked_modules st). path_closed k cf (is_builtin k st) st' p \<and> path_shown k st' p))"

lemma path_closed_grows:
  "path_closed k cf ib st p \<Longrightarrow> set (tracked_modules st) \<subseteq> set (tracked_modules st') \<Longrightarrow> path_closed k cf ib st' p"
  unfolding path_closed_def by blast

lemma path_shown_grows: "path_shown k st p \<Longrightarrow> set (d_out st) \<subseteq> set (d_out st') \<Longrightarrow> path_shown k st' p"
  unfolding path_shown_def by blast

lemma completes_trans:
  assumes "completes k cf a b" "completes k cf b c"
  shows "completes k cf a c"
proof -
  have g: "grows k a b" "grows k b c" using assms by (simp_all add: completes_def)
  have "path_closed k cf (is_builtin k a) c p \<and> path_shown k c p"
    if so: "seen_sorted a" and p: "p \<in> set (tracked_modules c) - set (tracked_modules a)" for p
  proof (cases "p \<in> set (tracked_modules b)")
    case True
    then have "path_closed k cf (is_builtin k a) b p" "path_shown k b p" using assms(1) so p unfolding completes_def by blast+
    then show ?thesis using g so path_closed_grows path_shown_grows unfolding grows_def by metis
  next
    case False
    have "seen_sorted b" "is_builtin k b = is_builtin k a" using g(1) so by (simp_all add: grows_def)
    then show ?thesis using assms(2) p False unfolding completes_def by (metis DiffD1 DiffI)
  qed
  then show ?thesis using grows_trans [OF g] by (simp add: completes_def)
qed

lemma completes_same: "grows k st st' \<Longrightarrow> tracked_modules st' = tracked_modules st \<Longrightarrow> completes k cf st st'"
  by (simp add: completes_def)

lemma completes_base:
  "completes k cf st st" "completes k cf st (show_with_prefix kw v st)" "completes k cf st (st\<lparr>show_tree := d\<rparr>)"
  "completes k cf st (mark_builtin n st)"
proof -
  show "completes k cf st st" by (rule completes_same) (simp_all add: grows_base)
  show "completes k cf st (show_with_prefix kw v st)" by (rule completes_same [OF grows_base(2)]) (simp add: show_with_prefix_def)
  show "completes k cf st (st\<lparr>show_tree := d\<rparr>)" by (rule completes_same [OF grows_base(3)]) simp
  show "completes k cf st (mark_builtin n st)" by (rule completes_same [OF grows_base(4)]) (simp add: mark_builtin_def)
qed

text \<open>What libkmod says of a module is determined by its path.\<close>

definition by_path :: "kmod \<Rightarrow> bool" where
  "by_path k \<longleftrightarrow>
     (\<forall>m m'. m_path m \<noteq> None \<longrightarrow> m_path m = m_path m' \<longrightarrow>
        k_info k m = k_info k m' \<and> k_softdeps k m = k_softdeps k m' \<and> k_weakdeps k m = k_weakdeps k m')"

lemma by_path_same:
  assumes "by_path k" "m_path m = Some p" "m_path m' = Some p"
  shows "k_info k m = k_info k m'" and "module_targets k cf ib m = module_targets k cf ib m'"
proof -
  have e: "k_info k m = k_info k m' \<and> k_softdeps k m = k_softdeps k m' \<and> k_weakdeps k m = k_weakdeps k m'"
    using assms(1) [unfolded by_path_def, rule_format, of m m'] assms(2,3) by simp
  then show "k_info k m = k_info k m'" by simp
  show "module_targets k cf ib m = module_targets k cf ib m'"
    unfolding module_targets_def by (simp only: conjunct1 [OF e] conjunct1 [OF conjunct2 [OF e]] conjunct2 [OF conjunct2 [OF e]])
qed

lemma depinfo_tracks:
  assumes "depinfo n k cf m st = Some (r, st')" "seen_sorted st"
  shows "set_option (m_path m) \<subseteq> set (tracked_modules st')"
proof (cases n)
  case (Suc j)
  obtain old st1 where t: "tracked_module m st = (old, st1)" by fastforce
  show ?thesis
  proof (cases old)
    case True
    then show ?thesis using assms Suc t tracked_module_old [of m st st1] by auto
  next
    case False
    have new: "seen_sorted st1 \<and> set_option (m_path m) \<subseteq> set (tracked_modules st1)"
      using tracked_module_new(2) [of m st st1] t False assms(2) by auto
    show ?thesis
    proof (cases "k_info k m")
      case None
      then show ?thesis using assms(1) Suc t False new by simp
    next
      case (Some info)
      let ?s = "show_module cf (case m_path m of None \<Rightarrow> ''(null)'' | Some p \<Rightarrow> p) st1"
      have "depinfo_body (depinfo j k cf) k cf m info ?s = Some (r, st')" using assms(1) Suc t False Some by simp
      then have "grows k ?s st'" by (rule withinD [OF growing.within_body])
      then show ?thesis using new by (auto simp: grows_def show_module_same seen_sorted_def)
    qed
  qed
qed (use assms in simp)

lemma completes_steps:
  assumes "\<And>m st r st'. call m st = Some (r, st') \<Longrightarrow> completes k cf st st'"
  shows "dep_steps (completes k cf) call"
  by unfold_locales (auto simp: completes_base intro: completes_trans assms)

lemma body_completes:
  assumes k: "by_path k" "SHOW_DEPS cf" "SHOW_MODULES cf" and IH: "\<And>m st r st'. depinfo n k cf m st = Some (r, st') \<Longrightarrow> completes k cf st st'"
    and t: "tracked_module m st = (False, st1)" and i: "k_info k m = Some info"
    and b: "depinfo_body (depinfo n k cf) k cf m info (show_module cf (case m_path m of None \<Rightarrow> ''(null)'' | Some p \<Rightarrow> p) st1) = Some (r, st')"
      (is "depinfo_body _ _ _ _ _ ?s = _")
  shows "completes k cf st st'"
proof -
  have cs: "completes k cf ?s st'" by (rule withinD [OF dep_steps.within_body [OF completes_steps [OF IH]] b])
  have gs: "grows k st ?s" by (rule grows_new(2) [OF t])
  have g: "grows k ?s st'" using cs by (simp add: completes_def)
  have "path_closed k cf (is_builtin k st) st' p \<and> path_shown k st' p"
    if so: "seen_sorted st" and p: "p \<in> set (tracked_modules st') - set (tracked_modules st)" for p
  proof (cases "p \<in> set (tracked_modules ?s)")
    case False
    have "seen_sorted ?s" "is_builtin k ?s = is_builtin k st" using gs so by (simp_all add: grows_def)
    then show ?thesis using cs p False unfolding completes_def by (metis DiffD1 DiffI)
  next
    case True
    have mp: "m_path m = Some p" using True p tracked_module_new(2) [OF t so] by (auto simp: show_module_same)
    have ss: "seen_sorted ?s" using gs so by (simp add: grows_def)
    have "set_option (m_path x) \<subseteq> set (tracked_modules st')" if x: "x \<in> set (module_targets k cf (is_builtin k st) m)" for x
    proof -
      have "is_builtin k ?s = is_builtin k st" using gs by (simp add: grows_def)
      then have "called (grows k) (depinfo n k cf) ?s st' x" using growing.body_called [OF b k(2,3) i] x by simp
      then obtain s r s' where c: "grows k ?s s" "depinfo n k cf x s = Some (r, s')" "grows k s' st'" unfolding called_def by blast
      have s: "seen_sorted s" using c(1) ss by (simp add: grows_def)
      have "seen_sorted s'" using depinfo_grows [OF c(2)] s by (simp add: grows_def)
      then show ?thesis using depinfo_tracks [OF c(2) s] c(3) by (auto simp: grows_def)
    qed
    then have "path_closed k cf (is_builtin k st) st' p" unfolding path_closed_def using by_path_same(2) [OF k(1) mp] by metis
    moreover have "(show_tree st1, ''module'', p) \<in> set (d_out st')"
      using g k(3) mp by (auto simp: grows_def show_module_same)
    ultimately show ?thesis by (auto simp: path_shown_def)
  qed
  then show ?thesis using grows_trans [OF gs g] by (simp add: completes_def)
qed

lemma depinfo_completes:
  assumes k: "by_path k" "SHOW_DEPS cf" "SHOW_MODULES cf"
  shows "depinfo n k cf m st = Some (r, st') \<Longrightarrow> completes k cf st st'"
proof (induction n arbitrary: m st r st')
  case (Suc n)
  obtain old st1 where t: "tracked_module m st = (old, st1)" by fastforce
  show ?case
  proof (cases old)
    case True
    then show ?thesis using Suc.prems t tracked_module_old(1) [of m st st1] completes_base(1) by simp
  next
    case False
    with t have t: "tracked_module m st = (False, st1)" by simp
    show ?thesis
    proof (cases "k_info k m")
      case None
      then have st': "st' = st1" using Suc.prems t by simp
      have "path_closed k cf ib st' p \<and> path_shown k st' p" if "m_path m = Some p" for ib p
        using by_path_same(1) [OF k(1) that] None unfolding path_closed_def path_shown_def module_targets_def by auto
      then show ?thesis using grows_new(1) [OF t, of k] tracked_module_new(2) [OF t] unfolding completes_def st' by auto
    next
      case (Some info)
      show ?thesis by (rule body_completes [OF k Suc.IH t Some]) (use Suc.prems t Some in simp_all)
    qed
  qed
qed simp

section \<open>No module is shown twice\<close>

definition module_lines :: "dep_state \<Rightarrow> string list" where
  "module_lines st = map (snd \<circ> snd) (filter (\<lambda>l. fst (snd l) = ''module'') (d_out st))"

definition lines_ok :: "dep_state \<Rightarrow> bool" where
  "lines_ok st \<longleftrightarrow> seen_sorted st \<and> distinct (module_lines st) \<and> set (module_lines st) \<subseteq> set (tracked_modules st)"

definition keeps_lines :: "dep_state \<Rightarrow> dep_state \<Rightarrow> bool" where
  "keeps_lines st st' \<longleftrightarrow> (lines_ok st \<longrightarrow> lines_ok st')"

text \<open>libkmod has information only on modules with a path.\<close>

definition info_has_path :: "kmod \<Rightarrow> bool" where
  "info_has_path k \<longleftrightarrow> (\<forall>m. k_info k m \<noteq> None \<longrightarrow> m_path m \<noteq> None)"

lemma keeps_lines_steps:
  assumes "\<And>m st r st'. call m st = Some (r, st') \<Longrightarrow> keeps_lines st st'"
  shows "dep_steps keeps_lines call"
proof
  show "keeps_lines st (show_with_prefix kw v st)" if "kw \<noteq> ''module''" for kw v st
    using that by (simp add: keeps_lines_def lines_ok_def module_lines_def show_with_prefix_def seen_sorted_def)
qed (use assms in \<open>auto simp: keeps_lines_def lines_ok_def module_lines_def seen_sorted_def mark_builtin_def\<close>)

lemma new_module_lines:
  assumes "tracked_module m st = (False, st1)" "lines_ok st"
  shows "lines_ok st1" and "m_path m = Some p \<Longrightarrow> lines_ok (show_module cf p st1)"
proof -
  have so: "seen_sorted st" using assms(2) by (simp add: lines_ok_def)
  note t = tracked_module_new(1) [OF assms(1)] tracked_module_new(2) [OF assms(1) so]
  have l: "module_lines st1 = module_lines st" using t by (simp add: module_lines_def)
  show "lines_ok st1" using assms(2) t l by (auto simp: lines_ok_def)
  assume p: "m_path m = Some p"
  have "module_lines (show_module cf p st1) = module_lines st @ (if SHOW_MODULES cf then [p] else [])"
    using l by (simp add: module_lines_def show_module_same)
  moreover have "p \<notin> set (module_lines st)" using t p assms(2) by (auto simp: lines_ok_def)
  ultimately show "lines_ok (show_module cf p st1)"
    using assms(2) t p by (auto simp: lines_ok_def seen_sorted_def show_module_same)
qed

lemma depinfo_keeps_lines:
  assumes k: "info_has_path k"
  shows "depinfo n k cf m st = Some (r, st') \<Longrightarrow> keeps_lines st st'"
proof (induction n arbitrary: m st r st')
  case (Suc n)
  have steps: "dep_steps keeps_lines (depinfo n k cf)" by (rule keeps_lines_steps) (rule Suc.IH)
  obtain old st1 where t: "tracked_module m st = (old, st1)" by fastforce
  show ?case
  proof (cases old)
    case True
    then show ?thesis using Suc.prems t tracked_module_old(1) [of m st st1] by (simp add: keeps_lines_def)
  next
    case False
    with t have t: "tracked_module m st = (False, st1)" by simp
    show ?thesis
    proof (cases "k_info k m")
      case None
      then show ?thesis using Suc.prems t new_module_lines(1) [OF t] by (simp add: keeps_lines_def)
    next
      case (Some info)
      then obtain p where p: "m_path m = Some p" using k unfolding info_has_path_def by (metis not_None_eq)
      have "depinfo_body (depinfo n k cf) k cf m info (show_module cf p st1) = Some (r, st')" using Suc.prems t Some p by simp
      then have "keeps_lines (show_module cf p st1) st'" by (rule withinD [OF dep_steps.within_body [OF steps]])
      then show ?thesis using new_module_lines(2) [OF t _ p] by (simp add: keeps_lines_def)
    qed
  qed
qed simp

end
