(* ===== verification/DepReturns.thy ===== *)
theory DepReturns
  imports DepNeeds
begin

text \<open>
  The search of \<open>depinfo\<close> returns: every call that goes deeper has remembered a path that was new, so a depth above the number
  of paths is enough. With it, the properties of a search and of the whole program.
\<close>

section \<open>The search returns\<close>

text \<open>When the recursive call and the search among the built-in modules return, so does everything built from them.\<close>

locale dep_returns = dep_steps +
  fixes Q :: "dep_state \<Rightarrow> bool"
  assumes Q_R: "Q st \<Longrightarrow> R st st' \<Longrightarrow> Q st'"
    and Q_find: "Q st \<Longrightarrow> find_builtin k st name \<noteq> None"
    and Q_call: "Q st \<Longrightarrow> call m st \<noteq> None"
begin

lemma each_returns:
  assumes "\<And>x. x \<in> set xs \<Longrightarrow> within R (f x)" "\<And>x s. x \<in> set xs \<Longrightarrow> Q s \<Longrightarrow> f x s \<noteq> None" "Q st"
  shows "each f xs st \<noteq> None"
  using assms
proof (induction xs arbitrary: st)
  case (Cons x xs)
  have "f x st \<noteq> None" by (rule Cons.prems(2)) (simp_all add: Cons.prems(3))
  then obtain r s where s: "f x st = Some (r, s)" by (cases "f x st") auto
  have "R st s" by (rule withinD [OF Cons.prems(1) s]) simp
  then have "Q s" using Q_R Cons.prems(3) by blast
  then have "each f xs s \<noteq> None" using Cons.IH Cons.prems(1,2) by simp
  then show ?case using s by (cases "each f xs s") auto
qed simp

lemma builtin_returns: "Q st \<Longrightarrow> builtin_step k cf name st \<noteq> None"
  using Q_find [of st name] by (auto simp: builtin_step_def process_builtin_def split: option.split)

lemma list_step_returns: "Q st \<Longrightarrow> list_step call k cf m st \<noteq> None"
  using Q_find [of st "m_name m"] builtin_returns [of st "m_name m"] Q_call [of st m] by (auto simp: list_step_def split: option.split)

lemma module_list_returns:
  assumes "Q st"
  shows "process_module_list call k cf ms st \<noteq> None"
proof -
  define bl where "bl = (if use_blacklist cf then k_blacklist k ms else Some ms)"
  have l: "(case each (\<lambda>m. builtin_step k cf (m_name m)) xs st of None \<Rightarrow> None | Some (_, s) \<Rightarrow> each (list_step call k cf) fl s) \<noteq> None" for xs fl
  proof -
    have "each (\<lambda>m. builtin_step k cf (m_name m)) xs st \<noteq> None" by (rule each_returns [OF within_builtin builtin_returns assms])
    then obtain r s where s: "each (\<lambda>m. builtin_step k cf (m_name m)) xs st = Some (r, s)" by fast
    have "R st s" by (rule withinD [OF within_each s]) (rule within_builtin)
    then have q: "Q s" by (rule Q_R [OF assms])
    have "each (list_step call k cf) fl s \<noteq> None" by (rule each_returns [OF within_list_step list_step_returns q])
    then show ?thesis using s by simp
  qed
  show ?thesis
  proof (cases bl)
    case None
    then show ?thesis unfolding process_module_list_def bl_def [symmetric] by (simp del: not_None_eq)
  next
    case (Some ms1)
    show ?thesis
    proof (cases "k_builtin k ms1")
      case None
      then show ?thesis using Some unfolding process_module_list_def bl_def [symmetric] by (simp del: not_None_eq)
    next
      case fl: (Some fl)
      show ?thesis unfolding process_module_list_def bl_def [symmetric] Some fl option.case
        using l [of fl "filter (\<lambda>m. \<not> module_in_list m fl) ms1"] by (cases "ms = []"; cases "ms1 = []") (simp_all only: if_True if_False option.distinct not_False_eq_True simp_thms)
    qed
  qed
qed

lemma alias_returns: "Q st \<Longrightarrow> depinfo_alias call k cf req a st \<noteq> None"
  using Q_find [of st a] builtin_returns [of st a] module_list_returns [of st] by (auto simp: depinfo_alias_def split: option.split)

lemma names_return: "Q st \<Longrightarrow> each (depinfo_alias call k cf req) as st \<noteq> None"
  by (rule each_returns [OF within_alias alias_returns])

lemma deps_return: "Q st \<Longrightarrow> process_soft_deps call k cf m st \<noteq> None" "Q st \<Longrightarrow> process_weak_deps call k cf m st \<noteq> None"
proof -
  assume q: "Q st"
  have "each (process_module_list call k cf) [pre, post] st \<noteq> None" for pre post
    by (rule each_returns [OF within_module_list module_list_returns q])
  then show "process_soft_deps call k cf m st \<noteq> None"
    unfolding process_soft_deps_def by (cases "k_softdeps k m") (auto simp del: each.simps)
  show "process_weak_deps call k cf m st \<noteq> None"
    unfolding process_weak_deps_def using module_list_returns [OF q] by (cases "k_weakdeps k m") auto
qed

lemma info_returns: "Q st \<Longrightarrow> info_step call k cf kv st \<noteq> None"
proof -
  assume q: "Q st"
  obtain key val where kv: "kv = (key, val)" by fastforce
  have n: "process_depends call k cf val st \<noteq> None" "process_soft_depends call k cf val st \<noteq> None"
    "process_weak_depends call k cf val st \<noteq> None"
    unfolding process_depends_def process_soft_depends_def process_weak_depends_def by (rule names_return [OF q])+
  define x where "x = (if SHOW_DEPS cf \<and> SHOW_MODULES cf
    then (if key = ''depends'' then process_depends call k cf val st
          else if key = ''softdep'' then process_soft_depends call k cf val st
          else if key = ''weakdep'' then process_weak_depends call k cf val st
          else Some (False, st))
    else Some (False, st))"
  have "x \<noteq> None" using n unfolding x_def by (simp del: not_None_eq add: option.distinct)
  then obtain r st1 where x: "x = Some (r, st1)" by fast
  show ?thesis unfolding kv info_step_def prod.case x_def [symmetric] x by simp
qed

lemma body_returns:
  assumes "Q st"
  shows "depinfo_body call k cf m info st \<noteq> None"
proof -
  have "each (info_step call k cf) info st \<noteq> None" by (rule each_returns [OF within_info info_returns assms])
  then obtain r s where s: "each (info_step call k cf) info st = Some (r, s)" by (cases "each (info_step call k cf) info st") auto
  have "R st s" by (rule withinD [OF within_each s]) (rule within_info)
  then have q: "Q s" using Q_R assms by blast
  define x where "x = (if SHOW_DEPS cf \<and> SHOW_MODULES cf
    then each (\<lambda>f. f m) [process_soft_deps call k cf, process_weak_deps call k cf] s else Some (False, s))"
  have "each (\<lambda>f. f m) [process_soft_deps call k cf, process_weak_deps call k cf] s \<noteq> None"
    by (rule each_returns [OF _ _ q]) (elim set_ConsD [elim_format] disjE; simp add: within_deps deps_return del: not_None_eq; fail)+
  then have "x \<noteq> None" unfolding x_def by (simp del: each.simps not_None_eq add: option.distinct)
  then obtain r2 s2 where x: "x = Some (r2, s2)" by fast
  show ?thesis using s unfolding depinfo_body_def by (simp only: option.case prod.case x_def [symmetric] x) simp
qed

end

text \<open>
  The measure: all modules with information have their path in a finite set, and fewer than \<open>n\<close> of these paths are new.
\<close>

definition dep_ready :: "kmod \<Rightarrow> string set \<Rightarrow> nat \<Rightarrow> dep_state \<Rightarrow> bool" where
  "dep_ready k P n st \<longleftrightarrow>
     finite P \<and> (\<forall>m. k_info k m \<noteq> None \<longrightarrow> (\<exists>p \<in> P. m_path m = Some p))
     \<and> seen_sorted st \<and> (\<forall>name. is_builtin k st name \<noteq> None) \<and> card (P - set (tracked_modules st)) < n"

lemma dep_ready_grows: "dep_ready k P n st \<Longrightarrow> grows k st st' \<Longrightarrow> dep_ready k P n st'"
proof -
  assume r: "dep_ready k P n st" and g: "grows k st st'"
  have "card (P - set (tracked_modules st')) \<le> card (P - set (tracked_modules st))"
    using r g by (intro card_mono) (auto simp: dep_ready_def grows_def)
  then show ?thesis using r g by (simp add: dep_ready_def grows_def)
qed

lemma dep_ready_find: "dep_ready k P n st \<Longrightarrow> find_builtin k st name \<noteq> None"
  by (auto simp: dep_ready_def is_builtin_def)

lemma depinfo_returns: "dep_ready k P n st \<Longrightarrow> depinfo n k cf m st \<noteq> None"
proof (induction n arbitrary: m st)
  case 0
  then show ?case by (simp add: dep_ready_def)
next
  case (Suc n)
  have rets: "dep_returns (grows k) (depinfo n k cf) k (dep_ready k P n)"
    by unfold_locales (auto simp: dep_ready_find Suc.IH intro: dep_ready_grows)
  obtain old st1 where t: "tracked_module m st = (old, st1)" by fastforce
  show ?case
  proof (cases "old \<or> k_info k m = None")
    case True
    then show ?thesis using t by (cases old) simp_all
  next
    case False
    then obtain info p where i: "k_info k m = Some info" and p: "m_path m = Some p" "p \<in> P"
      using Suc.prems unfolding dep_ready_def by (metis not_None_eq)
    have t': "tracked_module m st = (False, st1)" using t False by simp
    let ?s = "show_module cf p st1"
    have g: "grows k st ?s" by (rule grows_new(2) [OF t'])
    have so: "seen_sorted st" using Suc.prems by (simp add: dep_ready_def)
    have "P - set (tracked_modules ?s) = (P - set (tracked_modules st)) - {p}" "p \<in> P - set (tracked_modules st)"
      using tracked_module_new(2) [OF t' so] p by (auto simp: show_module_same)
    then have "card (P - set (tracked_modules ?s)) < card (P - set (tracked_modules st))"
      using Suc.prems card_Diff1_less [of "P - set (tracked_modules st)" p] by (simp add: dep_ready_def)
    then have "dep_ready k P n ?s" using dep_ready_grows [OF Suc.prems g] Suc.prems by (simp add: dep_ready_def)
    then have "depinfo_body (depinfo n k cf) k cf m info ?s \<noteq> None" by (rule dep_returns.body_returns [OF rets])
    then show ?thesis using t' i p by simp
  qed
qed

lemma dep_ready_info_path: "dep_ready k P n st \<Longrightarrow> info_has_path k"
  by (fastforce simp: dep_ready_def info_has_path_def)

lemma distinct_count_list: "distinct xs \<Longrightarrow> x \<in> set xs \<Longrightarrow> count_list xs x = 1"
  by (induction xs) (auto simp: count_notin)

definition needs_module :: "kmod \<Rightarrow> dep_opts \<Rightarrow> dep_state \<Rightarrow> kmodule \<Rightarrow> kmodule \<Rightarrow> bool" where
  "needs_module k cf st a b \<longleftrightarrow> b \<in> set (module_targets k cf (is_builtin k st) a)"

lemma needed_once:
  assumes "by_path k" "info_has_path k" "SHOW_DEPS cf" "SHOW_MODULES cf"
    and "tracked_modules st = []" "d_out st = []" and run: "depinfo n k cf m st = Some (r, st')"
    and "(needs_module k cf st)\<^sup>*\<^sup>* m m'" "k_info k m' \<noteq> None" "m_path m' = Some p"
  shows "count_list (module_lines st') p = 1"
proof -
  have so: "seen_sorted st" using assms(5) by (simp add: seen_sorted_def tree_sorted_def)
  have c: "\<And>p. p \<in> set (tracked_modules st') \<Longrightarrow> path_closed k cf (is_builtin k st) st' p \<and> path_shown k st' p"
    using depinfo_completes [OF assms(1,3,4) run] so assms(5) by (auto simp: completes_def)
  have "set_option (m_path m') \<subseteq> set (tracked_modules st')"
    using assms(8)
  proof (induction rule: rtranclp_induct)
    case base
    show ?case by (rule depinfo_tracks [OF run so])
  next
    case (step a b)
    have b: "b \<in> set (module_targets k cf (is_builtin k st) a)" using step(2) by (simp add: needs_module_def)
    then have "k_info k a \<noteq> None" by (cases "k_info k a") (simp_all add: module_targets_def)
    then obtain q where q: "m_path a = Some q" using assms(2) unfolding info_has_path_def by (metis not_None_eq)
    then have "path_closed k cf (is_builtin k st) st' q" using c step(3) by auto
    then show ?case using q b unfolding path_closed_def by blast
  qed
  then have "path_shown k st' p" using c assms(10) by auto
  then obtain d where "(d, ''module'', p) \<in> set (d_out st')" using assms(9,10) unfolding path_shown_def by blast
  then have "p \<in> set (module_lines st')" by (force simp: module_lines_def)
  moreover have "lines_ok st'"
    using depinfo_keeps_lines [OF assms(2) run] so assms(6) by (simp add: keeps_lines_def lines_ok_def module_lines_def)
  ultimately show ?thesis by (simp add: lines_ok_def distinct_count_list)
qed

text \<open>
  C12: A search for a module that starts afresh, with a recursion depth above the number of module paths, returns and prints
  every module that is needed, directly or through other modules, exactly once: the modules named by the entries \<open>depends\<close>, \<open>softdep\<close> and \<open>weakdep\<close> and by the lists of libkmod, as far as they are
  not blacklisted or built in and libkmod has information on them.
\<close>

theorem depinfo_prints_needed_once:
  assumes "by_path k" "dep_ready k P n st" "SHOW_DEPS cf" "SHOW_MODULES cf" "tracked_modules st = []" "d_out st = []"
  shows "\<exists>r st'. depinfo n k cf m st = Some (r, st')
    \<and> (\<forall>m' p. (needs_module k cf st)\<^sup>*\<^sup>* m m' \<and> k_info k m' \<noteq> None \<and> m_path m' = Some p \<longrightarrow> count_list (module_lines st') p = 1)"
proof -
  obtain r st' where run: "depinfo n k cf m st = Some (r, st')" using depinfo_returns [OF assms(2)] by (metis not_None_eq surj_pair)
  have "count_list (module_lines st') p = 1"
    if "(needs_module k cf st)\<^sup>*\<^sup>* m m'" "k_info k m' \<noteq> None" "m_path m' = Some p" for m' p
    using needed_once [OF assms(1) dep_ready_info_path [OF assms(2)] assms(3-6) run that] .
  then show ?thesis using run by blast
qed
lemma dep_start_fit:
  assumes "finite P" "\<And>m info. k_info k m = Some info \<Longrightarrow> \<exists>p \<in> P. m_path m = Some p" "card P < n" "builtins_ok kb"
  shows "dep_ready k P n (dep_start c kb)"
  using assms find_returns [OF assms(4)]
  by (fastforce simp: dep_ready_def dep_start_def seen_sorted_def tree_sorted_def is_builtin_def find_builtin_def)

text \<open>Two modules that need each other, without built-in modules.\<close>

definition sample_kmod :: kmod where
  "sample_kmod =
     \<lparr>k_info = (\<lambda>m. if m_path m = Some ''/a'' then Some [(''depends'', ''b'')]
                   else if m_path m = Some ''/b'' then Some [(''depends'', ''a'')] else None),
      k_lookup = (\<lambda>n. Some [\<lparr>m_name = n, m_path = Some (CHR ''/'' # n)\<rparr>]), k_from_path = (\<lambda>p. None),
      k_softdeps = (\<lambda>m. None), k_weakdeps = (\<lambda>m. None), k_blacklist = Some, k_builtin = Some,
      k_fnmatch = (\<lambda>a s. a = s), k_access = (\<lambda>p. False), k_glob = (\<lambda>p. []), k_is_reg = (\<lambda>p. False),
      k_lines = (\<lambda>f. None), k_class_path = None, k_modinfo = (\<lambda>f. NoFile), k_new = (\<lambda>d. True)\<rparr>"

definition sample_module :: "string \<Rightarrow> kmodule" where
  "sample_module n = \<lparr>m_name = n, m_path = Some (CHR ''/'' # n)\<rparr>"

lemma sample_not_builtin: "is_builtin sample_kmod (dep_start c free_kernel_builtin) n = Some False"
  by (simp add: is_builtin_def find_builtin_def find_kernel_builtin_def dep_start_def free_kernel_builtin_def get_builtin_def
      alias_walk.simps)

theorem depinfo_prints_needed_once_witness:
  "\<exists>r st'. depinfo 3 sample_kmod (default_opts ''6.1'') (sample_module ''a'') (dep_start (dep_cmdline ''6.1'' []) free_kernel_builtin)
       = Some (r, st') \<and> count_list (module_lines st') ''/b'' = 1"
proof -
  let ?cf = "default_opts ''6.1''" and ?st = "dep_start (dep_cmdline ''6.1'' []) free_kernel_builtin"
  have k: "by_path sample_kmod" by (auto simp: by_path_def sample_kmod_def)
  have r: "dep_ready sample_kmod {''/a'', ''/b''} 3 ?st"
    by (rule dep_start_fit) (auto simp: sample_kmod_def free_kernel_builtin_ok split: if_splits)
  have l: "k_lookup sample_kmod ''b'' = Some [sample_module ''b'']" "k_info sample_kmod (sample_module ''a'') = Some [(''depends'', ''b'')]"
    "k_softdeps sample_kmod m = None" "k_weakdeps sample_kmod m = None" "k_builtin sample_kmod ms = Some ms" for m ms
    by (simp_all add: sample_kmod_def sample_module_def)
  have "info_names (''depends'', ''b'') = [''b'']" by (simp add: info_names_def strtok_all.simps is_delim_def blanks_def)
  then have "needs_module sample_kmod ?cf ?st (sample_module ''a'') (sample_module ''b'')"
    by (simp add: needs_module_def module_targets_def alias_targets_def list_targets_def sample_not_builtin l default_opts_def)
  then have n: "(needs_module sample_kmod ?cf ?st)\<^sup>*\<^sup>* (sample_module ''a'') (sample_module ''b'')" by (rule r_into_rtranclp)
  have b: "k_info sample_kmod (sample_module ''b'') \<noteq> None" "m_path (sample_module ''b'') = Some ''/b''"
    by (simp_all add: sample_kmod_def sample_module_def)
  have "SHOW_DEPS ?cf" "SHOW_MODULES ?cf" "tracked_modules ?st = []" "d_out ?st = []"
    by (simp_all add: default_opts_def dep_start_def)
  from depinfo_prints_needed_once [OF k r this, of "sample_module ''a''"] n b show ?thesis by blast
qed

interpretation returning: dep_returns "grows k" "depinfo n k cf" k cf "dep_ready k P n" for n k cf P
proof
  show "dep_ready k P n st \<Longrightarrow> grows k st st' \<Longrightarrow> dep_ready k P n st'" for st st' by (rule dep_ready_grows)
  show "dep_ready k P n st \<Longrightarrow> find_builtin k st name \<noteq> None" for st name by (rule dep_ready_find)
  show "dep_ready k P n st \<Longrightarrow> depinfo n k cf m st \<noteq> None" for m st by (rule depinfo_returns)
qed

lemma process_name_grows: "within (grows k) (process_name n k cf a)"
proof (rule withinI)
  fix st r st' assume p: "process_name n k cf a st = Some (r, st')"
  show "grows k st st'"
  proof (cases "is_filename k a")
    case True
    then have "depinfo_alias (depinfo n k cf) k cf True a st = Some (r, st')" using p by (simp add: process_name_def)
    then show ?thesis by (rule withinD [OF growing.within_alias])
  next
    case False
    then have d: "depinfo_path n k cf a st = Some (r, st')" using p by (simp add: process_name_def)
    show ?thesis
    proof (cases "k_from_path k a")
      case None
      then show ?thesis using d grows_base(1) by (simp add: depinfo_path_def)
    next
      case (Some m)
      then have "depinfo n k cf m st = Some (r, st')" using d by (simp add: depinfo_path_def)
      then show ?thesis by (rule depinfo_grows)
    qed
  qed
qed

lemma process_name_returns:
  assumes "dep_ready k P n st"
  shows "process_name n k cf a st \<noteq> None"
proof (cases "is_filename k a")
  case True
  then have e: "process_name n k cf a = depinfo_alias (depinfo n k cf) k cf True a" by (simp add: process_name_def)
  show ?thesis unfolding e by (rule returning.alias_returns [OF assms])
next
  case False
  then have e: "process_name n k cf a = depinfo_path n k cf a" by (simp add: process_name_def)
  show ?thesis
  proof (cases "k_from_path k a")
    case None
    then show ?thesis unfolding e by (simp add: depinfo_path_def)
  next
    case (Some m)
    then have d: "depinfo_path n k cf a st = depinfo n k cf m st" by (simp add: depinfo_path_def)
    show ?thesis unfolding e d by (rule depinfo_returns [OF assms])
  qed
qed

lemma process_names_return:
  assumes "dep_ready k P n st"
  shows "\<exists>r st'. process_names n k cf from args st = Some (r, st')"
proof -
  have "each (process_name n k cf) as s \<noteq> None" if "dep_ready k P n s" for as s
    by (rule returning.each_returns [where P = P and n = n]) (rule process_name_grows process_name_returns that | assumption)+
  then have e: "\<exists>r s'. each (process_name n k cf) as s = Some (r, s')" if "dep_ready k P n s" for as s
    using that by fast
  obtain r s where s: "read_names n k cf from st = Some (r, s)" and g: "grows k st s"
  proof (cases "Option.bind from (k_lines k)")
    case None
    then show ?thesis using that [of "from \<noteq> None" st] grows_base(1) by (cases "from") (simp_all add: read_names_def)
  next
    case (Some lines)
    let ?as = "filter (\<lambda>a. a \<noteq> []) (map trim_line lines)"
    obtain r s where s: "each (process_name n k cf) ?as st = Some (r, s)" using e [OF assms] by blast
    moreover have "grows k st s" by (rule withinD [OF growing.within_each s]) (rule process_name_grows)
    ultimately show ?thesis using that [of r s] Some by (cases "from") (simp_all add: read_names_def)
  qed
  obtain r2 s2 where "each (process_name n k cf) args s = Some (r2, s2)" using e [OF dep_ready_grows [OF assms g]] by blast
  then show ?thesis using s by (simp add: process_names_def)
qed

text \<open>The file is not malformed by empty aliases.\<close>

definition modinfo_ok :: "builtin_file \<Rightarrow> bool" where
  "modinfo_ok f = (case f of Contents b \<Rightarrow> file_ok (mapped b) (length b) | _ \<Rightarrow> True)"

lemma read_kernel_builtin_ok: "builtins_ok kb \<Longrightarrow> modinfo_ok f \<Longrightarrow> read_kernel_builtin f kb = Inr kb' \<Longrightarrow> builtins_ok kb'"
  using read_builtin_loop_ok [of kb] by (cases f) (auto simp: read_kernel_builtin_def modinfo_ok_def split: if_splits)

lemma dep_builtins_ok: "(\<And>f. modinfo_ok (k_modinfo k f)) \<Longrightarrow> dep_builtins k dir = Inr kb \<Longrightarrow> builtins_ok kb"
  unfolding dep_builtins_def bind_res_Inr_iff using read_kernel_builtin_ok free_kernel_builtin_ok by blast

text \<open>
  C23: The program returns, however the modules depend on each other: when the modules that libkmod has information on have their
  paths in a finite set and no file on built-in modules has an empty alias, a recursion depth above the number of the paths
  is enough for all options, all names of the input file and all arguments.
\<close>

theorem depinfo_main_returns:
  assumes "finite P" "\<And>m info. k_info k m = Some info \<Longrightarrow> \<exists>p \<in> P. m_path m = Some p" "card P < n"
    and "\<And>f. modinfo_ok (k_modinfo k f)"
  shows "\<exists>r st'. depinfo_main n k (dep_cmdline release opts) args = Some (r, st')"
proof (cases "dep_builtins k (module_dir (dep_cmdline release opts))")
  case (Inr kb)
  have "dep_ready k P n (dep_start (dep_cmdline release opts) kb)"
    by (rule dep_start_fit [OF assms(1,2,3) dep_builtins_ok [OF assms(4) Inr]])
  then show ?thesis using Inr process_names_return unfolding depinfo_main_def by auto
qed (auto simp: depinfo_main_def)

theorem depinfo_main_returns_witness:
  "\<exists>r st'. depinfo_main 3 sample_kmod (dep_cmdline ''6.1'' [(CHR ''t'', [])]) [''a''] = Some (r, st')"
  by (rule depinfo_main_returns [of "{''/a'', ''/b''}"]) (auto simp: sample_kmod_def modinfo_ok_def split: if_splits)

end
