(* ===== verification/Spec2Isabelle.thy ===== *)
theory Spec2Isabelle
  imports TailList InitrdExtract InitrdLs PutInstall Ueventd DepReturns
begin

text \<open>
  A model of the C programs of make-initrd, the tool that builds initial ramdisks, and of a daemon that runs inside them.
  All names of files are below \<open>src/\<close>.

  \<^bold>\<open>The parts of the program and their theories.\<close>

  \<^item> Reading an initrd. \<open>initrd-extract\<close> and \<open>initrd-ls\<close> call \<open>read_stream\<close> (\<open>utils/initrd-parse.c\<close>), which cuts a stream into
    archives, compressed data and a boot configuration, unpacks compressed data (\<open>utils/initrd-decompress*.c\<close>) and parses it
    again; archives are read by \<open>read_cpio\<close> and written by \<open>write_cpio\<close> (\<open>utils/initrd-cpio.c\<close>), lists are those of
    \<open>utils/initrd-common.c\<close>. Theories: \<open>TailList\<close> (the lists, on an explicit heap), \<open>Cpio\<close> and \<open>CpioRoundtrip\<close>, \<open>Decompress\<close>,
    \<open>InitrdParse\<close>, \<open>InitrdExtract\<close>, \<open>InitrdLs\<close>. Memory is a list of bytes and an address in it, the numbers are words of the
    width they have in C.

  \<^item> \<open>initrd-put\<close>, which copies files with everything they need. Its queue and tree (\<open>utils/initrd-put/queue.c\<close>, \<open>tree.c\<close>) are in
    \<open>PutQueue\<close>, on a heap of files with their pointers; the canonicalisation of paths is in \<open>PutPath\<close>; interpreters, libraries
    and the notes of ELF files (\<open>enqueue-shebang.c\<close>, \<open>enqueue-library.c\<close>, \<open>elf_dlopen.c\<close>) are in \<open>PutDeps\<close>; the search of
    \<open>initrd-put.c\<close> in \<open>PutMain\<close>, the copying of contents in \<open>PutCopy\<close>, the installation with its pool of threads in \<open>PutInstall\<close>.

  \<^item> \<open>depinfo\<close> (\<open>utils/depinfo/kmod-depinfo.c\<close>), which lists the modules and the firmware a module needs: the table of built-in
    modules in \<open>DepBuiltin\<close>, the search and \<open>main\<close> in \<open>Depinfo\<close>, what the search finds in \<open>DepNeeds\<close>, that it returns in
    \<open>DepReturns\<close>.

  \<^item> \<open>ueventd\<close> (\<open>features/runtime/src/ueventd\<close>), the daemon that runs handlers for queues of events: \<open>Ueventd\<close>, with the
    watches, the pauses, the timers, one turn of the main loop and the process of a worker.

  \<^item> Shared: \<open>Prelude\<close> (results with errors, bytes, words), \<open>CLib\<close> (what the sources use of the C library: \<open>strtoul\<close>, \<open>strtok\<close>,
    formats) and \<open>SearchTree\<close> (\<open>tsearch\<close> and its relatives).

  \<^bold>\<open>How the model is written.\<close> A C function is a function with the same name. Where it can exit or fail, it returns a sum
  whose left side is the error; reads outside of memory are such an error, so theorems that it does not occur are about
  memory safety. Global variables are a record that is passed on. Loops that may run for ever are partial functions into
  \<open>option\<close>, where not returning is \<open>None\<close>; that they return is proved separately. What another program, a library or the kernel
  answers is a parameter: the decompression libraries, libelf, libkmod, the file system, the order in which threads run.

  \<^bold>\<open>Interfaces.\<close> \<open>comparator\<close> is what a comparison function owes to the search trees, shown for each of them; \<open>tail_list\<close> is what the
  users of the lists rely on, shown for the heap; \<open>ued_handler\<close> is what the main loop of \<open>ueventd\<close> relies on, shown for the handlers
  of its descriptors; \<open>dep_steps\<close> with its extensions \<open>dep_calls\<close> and \<open>dep_returns\<close> carries a relation from the recursive call of
  \<open>depinfo\<close> to everything built from it.

  \<^bold>\<open>What is shown.\<close> Archives are read back as they were written and extraction gives back the bytes of the archives; no
  name or body of an accepted entry lies outside of its memory; the reader returns, and the inputs on which it does not are
  exhibited. The queue of \<open>initrd-put\<close> stays a well-formed doubly linked list; its search ends with everything needed in the
  tree; a canonical path is the file that the path resolves to; files are copied byte for byte; no schedule of the threads
  hands out a file twice; the rounds of the installation end. \<open>depinfo\<close> returns and prints every needed module exactly once.
  \<open>ueventd\<close> keeps its counter of dirty queues sound, serves every queue and loses no event. Where the code does not do what it
  means to, the theorem shows that.

  \<^bold>\<open>Bounds and fuel.\<close> The recursion of \<open>depinfo\<close> is bounded by a depth; a depth above the number of module paths is enough
  (\<open>depinfo_main_returns\<close>). The queue loop of \<open>initrd-put\<close> is shown to end for a finite set of paths. Counters that C keeps in
  \<open>size_t\<close> are natural numbers where they count objects in memory. Memory is never exhausted. Paths have the limits of the
  source (\<open>PATH_MAX\<close>, \<open>MAXPATHLEN\<close>).

  \<^bold>\<open>Not modelled.\<close> \<open>halt\<close>, \<open>resume\<close>, \<open>ueventd-mounts\<close>, \<open>nfsmount\<close> and the small tools of the runtime are sequences of system
  calls without state of their own to reason about, or depend wholly on the answers of a server. \<open>initrd-scanmod\<close>,
  \<open>udev-rules\<close> and \<open>environ\<close> are not covered. Messages, logging and the texts of \<open>--help\<close> are left out. The parts in make and
  shell are outside of what is modelled.
\<close>

end
